(* ===== verification/Fuko_Prelude.thy ===== *)
theory Fuko_Prelude
  imports Main "HOL-Library.Char_ord" "HOL-Library.List_Lexorder" "HOL-Library.Product_Lexorder"
begin

text \<open>
  The vocabulary shared by every component of the development: the part of Python's \<open>str\<close>,
  \<open>list\<close> and \<open>dict\<close> the sidecar uses, and generic lemmas about it. A Python \<open>str\<close> is a HOL
  \<open>string\<close>, so the model covers text whose code points are below 256; case conversion is
  modelled on ASCII letters. A Python \<open>dict\<close> is an association list in insertion order,
  because the code iterates over dictionaries and relies on that order.
\<close>

named_theorems fuko_defs "definitions a component unfolds when it is evaluated or analysed"

section \<open>Python strings\<close>

definition py_space :: "char \<Rightarrow> bool" where
  "py_space c = (c \<in> {CHR 0x09, CHR 0x0A, CHR 0x0B, CHR 0x0C, CHR 0x0D, CHR 0x1C, CHR 0x1D,
     CHR 0x1E, CHR 0x1F, CHR 0x20, CHR 0x85, CHR 0xA0})"

definition line_break :: "char \<Rightarrow> bool" where
  "line_break c = (c \<in> {CHR 0x0A, CHR 0x0B, CHR 0x0C, CHR 0x0D, CHR 0x1C, CHR 0x1D, CHR 0x1E,
     CHR 0x85})"

definition lstrip :: "string \<Rightarrow> string" where
  "lstrip s = dropWhile py_space s"

definition rstrip :: "string \<Rightarrow> string" where
  "rstrip s = rev (dropWhile py_space (rev s))"

definition strip :: "string \<Rightarrow> string" where
  "strip s = rstrip (lstrip s)"

definition strip_chars :: "char list \<Rightarrow> string \<Rightarrow> string" where
  "strip_chars cs s =
     rev (dropWhile (\<lambda>c. c \<in> set cs) (rev (dropWhile (\<lambda>c. c \<in> set cs) s)))"

definition lower_char :: "char \<Rightarrow> char" where
  "lower_char c =
     (if 65 \<le> (of_char c :: nat) \<and> (of_char c :: nat) \<le> 90
      then char_of ((of_char c :: nat) + 32) else c)"

text \<open>The same on the bits of the character, for evaluation.\<close>

lemma lower_char_bits [code]:
  "lower_char (Char b0 b1 b2 b3 b4 b5 b6 b7) =
     (if \<not> b7 \<and> b6 \<and> \<not> b5 \<and> (b0 \<or> b1 \<or> b2 \<or> b3 \<or> b4) \<and> \<not> (b4 \<and> b3 \<and> (b2 \<or> b1 \<and> b0))
      then Char b0 b1 b2 b3 b4 True b6 b7 else Char b0 b1 b2 b3 b4 b5 b6 b7)"
  unfolding lower_char_def
  by (cases b0; cases b1; cases b2; cases b3; cases b4; cases b5; cases b6; cases b7)
    (simp_all add: char_of_def bit_iff_odd)

definition lower :: "string \<Rightarrow> string" where
  "lower s = map lower_char s"

definition startswith :: "string \<Rightarrow> string \<Rightarrow> bool" where
  "startswith s p = (take (length p) s = p)"

definition endswith :: "string \<Rightarrow> string \<Rightarrow> bool" where
  "endswith s p = (length p \<le> length s \<and> drop (length s - length p) s = p)"

fun contains :: "string \<Rightarrow> string \<Rightarrow> bool" where
  "contains p [] = (p = [])"
| "contains p (c # cs) = (startswith (c # cs) p \<or> contains p cs)"

fun join :: "string \<Rightarrow> string list \<Rightarrow> string" where
  "join sep [] = ''''"
| "join sep [x] = x"
| "join sep (x # y # xs) = x @ sep @ join sep (y # xs)"

text \<open>\<open>str.split(sep)\<close> for a separator of one character.\<close>

fun split_char :: "char \<Rightarrow> string \<Rightarrow> string list" where
  "split_char d [] = [[]]"
| "split_char d (c # cs) =
     (if c = d then [] # split_char d cs
      else (case split_char d cs of [] \<Rightarrow> [[c]] | l # ls \<Rightarrow> (c # l) # ls))"

text \<open>\<open>str.splitlines()\<close>: every line boundary below 256 ends a line, \<open>CR LF\<close> is one boundary,
  and a trailing boundary opens no further line. The first argument is the line read so far,
  reversed.\<close>

definition drop_lf :: "string \<Rightarrow> string" where
  "drop_lf cs = (case cs of [] \<Rightarrow> [] | d # ds \<Rightarrow> if d = CHR 0x0A then ds else cs)"

lemma length_drop_lf [termination_simp]: "length (drop_lf cs) \<le> length cs"
  by (simp add: drop_lf_def split: list.split)

fun splitlines_acc :: "string \<Rightarrow> string \<Rightarrow> string list" where
  "splitlines_acc acc [] = (if acc = [] then [] else [rev acc])"
| "splitlines_acc acc (c # cs) =
     (if line_break c
      then rev acc # splitlines_acc [] (if c = CHR 0x0D then drop_lf cs else cs)
      else splitlines_acc (c # acc) cs)"

definition splitlines :: "string \<Rightarrow> string list" where
  "splitlines s = splitlines_acc [] s"

text \<open>\<open>str(n)\<close> for an integer.\<close>

fun digits :: "nat \<Rightarrow> string" where
  "digits n = (if n < 10 then [char_of (48 + n)] else digits (n div 10) @ [char_of (48 + n mod 10)])"

declare digits.simps [simp del]

definition str_int :: "int \<Rightarrow> string" where
  "str_int i = (if i < 0 then CHR ''-'' # digits (nat (- i)) else digits (nat i))"

subsection \<open>Lemmas on strings\<close>

lemma line_break_space: "line_break c \<Longrightarrow> py_space c"
  by (auto simp: line_break_def py_space_def)

lemma line_break_chars [simp]: "line_break (CHR 0x0A)" "\<not> line_break (CHR '' '')"
  by (simp_all add: line_break_def)

lemma strip_Nil [simp]: "strip [] = []"
  by (simp add: strip_def lstrip_def rstrip_def)

lemma lower_Nil [simp]: "lower [] = []"
  by (simp add: lower_def)

lemma length_lower [simp]: "length (lower s) = length s"
  by (simp add: lower_def)

lemma startswith_Nil [simp]: "startswith s []"
  by (simp add: startswith_def)

lemma startswith_iff_append: "startswith s p \<longleftrightarrow> (\<exists>t. s = p @ t)"
proof
  assume "startswith s p"
  then have "s = p @ drop (length p) s"
    unfolding startswith_def by (metis append_take_drop_id)
  then show "\<exists>t. s = p @ t" by blast
qed (auto simp: startswith_def)

lemma contains_iff: "contains p s \<longleftrightarrow> (\<exists>u v. s = u @ p @ v)"
proof (induction s)
  case Nil
  then show ?case by simp
next
  case (Cons c s)
  have "(\<exists>u v. c # s = u @ p @ v) \<longleftrightarrow> (\<exists>v. c # s = p @ v) \<or> (\<exists>u v. s = u @ p @ v)"
    by (metis append_Cons append_Nil list.exhaust list.inject)
  with Cons show ?case by (simp add: startswith_iff_append)
qed

lemma set_dropWhile_subset: "set (dropWhile P xs) \<subseteq> set xs"
  by (meson set_dropWhileD subsetI)

lemma set_rstrip: "set (rstrip s) \<subseteq> set s"
  using set_dropWhile_subset [of py_space "rev s"] by (simp add: rstrip_def)

lemma set_strip: "set (strip s) \<subseteq> set s"
  using set_rstrip [of "lstrip s"] set_dropWhile_subset [of py_space s]
  unfolding strip_def lstrip_def by (rule subset_trans)

lemma length_strip: "length (strip s) \<le> length s"
proof -
  have "length (rstrip t) \<le> length t" for t
    using length_dropWhile_le [of py_space "rev t"] by (simp add: rstrip_def)
  moreover have "length (lstrip s) \<le> length s"
    by (simp add: lstrip_def length_dropWhile_le)
  ultimately show ?thesis
    unfolding strip_def using le_trans by blast
qed

lemma splitlines_acc_no_break:
  "\<forall>c \<in> set acc. \<not> line_break c \<Longrightarrow> \<forall>l \<in> set (splitlines_acc acc s). \<forall>c \<in> set l. \<not> line_break c"
proof (induction acc s rule: splitlines_acc.induct)
  case (2 acc c cs)
  show ?case
  proof (cases "line_break c")
    case True
    from "2.IH"(1) [OF True] "2.prems" True show ?thesis
      by (simp only: splitlines_acc.simps if_True) auto
  next
    case False
    with "2.prems" have "\<forall>d \<in> set (c # acc). \<not> line_break d" by simp
    from "2.IH"(2) [OF False this] False show ?thesis by simp
  qed
qed simp

text \<open>No line that \<open>splitlines\<close> returns contains a line boundary.\<close>

lemma splitlines_no_break: "l \<in> set (splitlines s) \<Longrightarrow> c \<in> set l \<Longrightarrow> \<not> line_break c"
  using splitlines_acc_no_break [of "[]" s] by (simp add: splitlines_def)

lemma set_join: "set (join sep xs) \<subseteq> set sep \<union> (\<Union>x \<in> set xs. set x)"
  by (induction sep xs rule: join.induct) auto

lemma digits_not_break: "c \<in> set (digits n) \<Longrightarrow> 48 \<le> (of_char c :: nat) \<and> (of_char c :: nat) \<le> 57"
proof (induction n rule: digits.induct)
  case (1 n)
  have mod10: "(48 + n mod 10) mod 256 = 48 + n mod 10" by simp
  show ?case
  proof (cases "n < 10")
    case True
    with "1.prems" show ?thesis by (simp add: digits.simps [of n])
  next
    case False
    with "1.prems" consider "c \<in> set (digits (n div 10))" | "c = char_of (48 + n mod 10)"
      by (auto simp: digits.simps [of n])
    then show ?thesis
    proof cases
      case 1
      with "1.IH" False show ?thesis by blast
    next
      case 2
      then show ?thesis using mod10 by simp
    qed
  qed
qed

fun undigits :: "nat \<Rightarrow> string \<Rightarrow> nat" where
  "undigits a [] = a"
| "undigits a (c # cs) = undigits (10 * a + (of_char c - 48)) cs"

lemma undigits_append: "undigits a (s @ t) = undigits (undigits a s) t"
  by (induction a s rule: undigits.induct) auto

lemma undigits_digits: "undigits 0 (digits n) = n"
proof (induction n rule: digits.induct)
  case (1 n)
  have m: "(48 + k) mod 256 = 48 + k" if "k < 10" for k :: nat using that by simp
  show ?case
  proof (cases "n < 10")
    case True
    then show ?thesis by (simp add: digits.simps [of n] m)
  next
    case False
    with "1.IH" have "undigits 0 (digits n) = 10 * (n div 10) + n mod 10"
      by (simp add: digits.simps [of n] undigits_append m)
    then show ?thesis by simp
  qed
qed

lemma digits_inj [simp]: "digits m = digits n \<longleftrightarrow> m = n"
  by (metis undigits_digits)

lemma digits_no_break: "c \<in> set (digits n) \<Longrightarrow> \<not> line_break c"
  using digits_not_break [of c n] by (auto simp: line_break_def)

lemma str_int_no_break: "c \<in> set (str_int i) \<Longrightarrow> \<not> line_break c"
  by (auto simp: str_int_def digits_no_break split: if_splits) (simp add: line_break_def)

subsection \<open>Joining and splitting at newlines\<close>

definition nl :: string where "nl = [CHR 0x0A]"

lemma split_char_ne [simp]: "split_char d s \<noteq> []"
  by (induction d s rule: split_char.induct) (auto split: list.splits)

lemma join_split_nl: "join nl (split_char (CHR 0x0A) s) = s"
proof (induction s)
  case (Cons c cs)
  obtain l ls where l: "split_char (CHR 0x0A) cs = l # ls"
    using split_char_ne by (meson neq_Nil_conv)
  with Cons show ?case by (cases ls) (auto simp: nl_def)
qed (simp add: nl_def)

lemma set_split_char: "y \<in> set (split_char d s) \<Longrightarrow> c \<in> set y \<Longrightarrow> c \<in> set s \<and> c \<noteq> d"
proof (induction s arbitrary: y)
  case (Cons a s)
  obtain l ls where l: "split_char d s = l # ls"
    using split_char_ne by (meson neq_Nil_conv)
  with Cons.IH [of l] Cons.IH [of y] Cons.prems show ?case
    by (auto split: if_splits)
qed simp

lemma split_char_free: "d \<notin> set x \<Longrightarrow> split_char d x = [x]"
  by (induction x) auto

lemma split_char_append: "d \<notin> set x \<Longrightarrow> split_char d (x @ d # t) = x # split_char d t"
  by (induction x) auto

lemma split_join_nl:
  "xs \<noteq> [] \<Longrightarrow> \<forall>x \<in> set xs. CHR 0x0A \<notin> set x \<Longrightarrow> split_char (CHR 0x0A) (join nl xs) = xs"
  by (induction nl xs rule: join.induct) (auto simp: split_char_free split_char_append nl_def)

lemma join_append: "xs \<noteq> [] \<Longrightarrow> ys \<noteq> [] \<Longrightarrow> join sep (xs @ ys) = join sep xs @ sep @ join sep ys"
  by (induction sep xs rule: join.induct) (auto simp: neq_Nil_conv)

lemma join_concat:
  "\<forall>ys \<in> set yss. ys \<noteq> [] \<Longrightarrow> join sep (map (join sep) yss) = join sep (concat yss)"
proof (induction yss)
  case (Cons ys yss)
  show ?case
  proof (cases yss)
    case (Cons zs zss)
    with Cons.IH Cons.prems show ?thesis by (simp add: join_append)
  qed simp
qed simp

lemma splitlines_acc_last:
  "\<forall>c \<in> set x. \<not> line_break c \<Longrightarrow>
     splitlines_acc acc x = (if rev acc @ x = [] then [] else [rev acc @ x])"
  by (induction x arbitrary: acc) auto

lemma splitlines_acc_nl:
  "\<forall>c \<in> set x. \<not> line_break c \<Longrightarrow>
     splitlines_acc acc (x @ CHR 0x0A # t) = (rev acc @ x) # splitlines_acc [] t"
  by (induction x arbitrary: acc) (auto simp: line_break_def)

lemma splitlines_join_Cons:
  "\<forall>c \<in> set x. \<not> line_break c \<Longrightarrow> splitlines (join nl (x # y # ys)) = x # splitlines (join nl (y # ys))"
  using splitlines_acc_nl [of x "[]" "join nl (y # ys)"]
  by (simp only: splitlines_def nl_def join.simps append.simps rev.simps self_append_conv2)

lemma splitlines_join_nl:
  assumes "\<forall>x \<in> set xs. \<forall>c \<in> set x. \<not> line_break c"
  shows "filter (\<lambda>l. l \<noteq> []) (splitlines (join nl xs)) = filter (\<lambda>l. l \<noteq> []) xs"
  using assms
proof (induction xs)
  case (Cons x xs)
  show ?case
  proof (cases xs)
    case Nil
    with Cons.prems show ?thesis by (simp add: splitlines_def splitlines_acc_last)
  next
    case (Cons y ys)
    have "splitlines (join nl (x # y # ys)) = x # splitlines (join nl (y # ys))"
      using Cons.prems by (intro splitlines_join_Cons) simp
    with Cons Cons.IH Cons.prems show ?thesis by (simp del: join.simps)
  qed
qed (simp add: splitlines_def)

text \<open>The physical lines of a text assembled from chunks, up to empty lines.\<close>

lemma filter_nonempty_imp:
  assumes "\<And>l. P l \<Longrightarrow> l \<noteq> []" and "filter (\<lambda>l. l \<noteq> []) xs = filter (\<lambda>l. l \<noteq> []) ys"
  shows "filter P xs = filter P ys"
proof -
  have "filter P zs = filter P (filter (\<lambda>l. l \<noteq> []) zs)" for zs
    using assms(1) by (induction zs) auto
  with assms(2) show ?thesis by metis
qed

lemma splitlines_chunks:
  assumes only_nl: "\<forall>x \<in> set xs. \<forall>c \<in> set x. line_break c \<longrightarrow> c = CHR 0x0A"
    and P: "\<And>l. P l \<Longrightarrow> l \<noteq> []"
  shows "filter P (splitlines (join nl xs)) = concat (map (\<lambda>x. filter P (split_char (CHR 0x0A) x)) xs)"
proof -
  let ?yss = "map (split_char (CHR 0x0A)) xs"
  have "join nl xs = join nl (map (join nl) ?yss)" by (simp add: join_split_nl comp_def)
  also have "\<dots> = join nl (concat ?yss)" by (rule join_concat) auto
  finally have j: "join nl xs = join nl (concat ?yss)" .
  have free: "\<forall>y \<in> set (concat ?yss). \<forall>c \<in> set y. \<not> line_break c"
  proof (intro ballI)
    fix y c
    assume "y \<in> set (concat ?yss)" and c: "c \<in> set y"
    then obtain x where x: "x \<in> set xs" "y \<in> set (split_char (CHR 0x0A) x)" by auto
    from set_split_char [OF x(2) c] x(1) only_nl show "\<not> line_break c" by blast
  qed
  have "filter P (splitlines (join nl (concat ?yss))) = filter P (concat ?yss)"
    by (rule filter_nonempty_imp [OF P splitlines_join_nl [OF free]])
  then show ?thesis by (simp add: j filter_concat comp_def)
qed

section \<open>Python dictionaries in insertion order\<close>

type_synonym ('k, 'v) dict = "('k \<times> 'v) list"

text \<open>\<open>d[k] = v\<close>: an existing key keeps its position, a new key goes last.\<close>

fun dict_set :: "'k \<Rightarrow> 'v \<Rightarrow> ('k, 'v) dict \<Rightarrow> ('k, 'v) dict" where
  "dict_set k v [] = [(k, v)]"
| "dict_set k v ((k', v') # d) = (if k' = k then (k, v) # d else (k', v') # dict_set k v d)"

definition dict_setdefault :: "'k \<Rightarrow> 'v \<Rightarrow> ('k, 'v) dict \<Rightarrow> ('k, 'v) dict" where
  "dict_setdefault k v d = (if k \<in> fst ` set d then d else d @ [(k, v)])"

definition dict_pop :: "'k \<Rightarrow> ('k, 'v) dict \<Rightarrow> ('k, 'v) dict" where
  "dict_pop k d = filter (\<lambda>e. fst e \<noteq> k) d"

definition dict_update :: "('k, 'v) dict \<Rightarrow> ('k, 'v) dict \<Rightarrow> ('k, 'v) dict" where
  "dict_update d e = fold (\<lambda>(k, v) acc. dict_set k v acc) e d"

lemma map_of_dict_set: "map_of (dict_set k v d) = (map_of d)(k \<mapsto> v)"
  by (induction k v d rule: dict_set.induct) auto

lemma keys_dict_set: "fst ` set (dict_set k v d) = insert k (fst ` set d)"
  by (induction k v d rule: dict_set.induct) auto

lemma in_dict_set: "e \<in> set (dict_set k v d) \<Longrightarrow> e = (k, v) \<or> e \<in> set d"
  by (induction k v d rule: dict_set.induct) (auto split: if_splits)

lemma distinct_dict_set:
  "distinct (map fst d) \<Longrightarrow> distinct (map fst (dict_set k v d))"
proof (induction k v d rule: dict_set.induct)
  case (2 k v k' v' d)
  then show ?case using keys_dict_set [of k v d] by auto
qed simp

lemma map_of_dict_pop: "map_of (dict_pop k d) = (map_of d)(k := None)"
  by (induction d) (auto simp: dict_pop_def)

lemma map_of_dict_setdefault:
  "map_of (dict_setdefault k v d) =
     (if k \<in> fst ` set d then map_of d else (map_of d)(k \<mapsto> v))"
proof (cases "k \<in> fst ` set d")
  case False
  then have "map_of d k = None" by (simp add: map_of_eq_None_iff)
  with False show ?thesis
    by (auto simp: dict_setdefault_def fun_eq_iff map_add_def split: option.split)
qed (simp add: dict_setdefault_def)

section \<open>Lists\<close>

lemma disjoint_mono: "A \<subseteq> B \<Longrightarrow> B \<inter> C = {} \<Longrightarrow> D \<subseteq> C \<Longrightarrow> A \<inter> D = {}"
  by blast

lemma map_eq_id_on: "(\<And>x. x \<in> set xs \<Longrightarrow> f x = x) \<Longrightarrow> map f xs = xs"
  by (induction xs) auto

lemma filter_map_unchanged:
  assumes "\<And>x. x \<in> set xs \<Longrightarrow> P x \<Longrightarrow> f x = x"
    and "\<And>x. x \<in> set xs \<Longrightarrow> P (f x) = P x"
  shows "filter P (map f xs) = filter P xs"
  using assms by (induction xs) auto

lemma distinct_map_inj: "distinct (map f xs) \<Longrightarrow> x \<in> set xs \<Longrightarrow> y \<in> set xs \<Longrightarrow> f x = f y \<Longrightarrow> x = y"
  by (simp add: distinct_map inj_on_def)

section \<open>Loops that may raise\<close>

text \<open>A loop whose body may raise: the first error ends it.\<close>

fun fold_err :: "('a \<Rightarrow> 's \<Rightarrow> 'e + 's) \<Rightarrow> 'a list \<Rightarrow> 's \<Rightarrow> 'e + 's" where
  "fold_err f [] s = Inr s"
| "fold_err f (x # xs) s = (case f x s of Inl e \<Rightarrow> Inl e | Inr s' \<Rightarrow> fold_err f xs s')"

lemma fold_err_append:
  "fold_err f (xs @ ys) s = (case fold_err f xs s of Inl e \<Rightarrow> Inl e | Inr s' \<Rightarrow> fold_err f ys s')"
  by (induction xs arbitrary: s) (auto split: sum.split)

lemma fold_err_filter:
  "(\<And>x s. \<not> P x \<Longrightarrow> f x s = Inr s) \<Longrightarrow> fold_err f (filter P xs) s = fold_err f xs s"
  by (induction xs arbitrary: s) (auto split: sum.split)

lemma fold_err_total:
  "(\<And>x s. x \<in> set xs \<Longrightarrow> f x s = Inr (g x s)) \<Longrightarrow> fold_err f xs s = Inr (fold g xs s)"
  by (induction xs arbitrary: s) auto

section \<open>Log lines\<close>

lemma splitlines_one: "\<forall>c \<in> set x. \<not> line_break c \<Longrightarrow> x \<noteq> [] \<Longrightarrow> splitlines x = [x]"
  by (simp add: splitlines_def splitlines_acc_last)

lemma splitlines_join_exact:
  "xs \<noteq> [] \<Longrightarrow> \<forall>x \<in> set xs. x \<noteq> [] \<and> (\<forall>c \<in> set x. \<not> line_break c) \<Longrightarrow> splitlines (join nl xs) = xs"
proof (induction xs)
  case (Cons x xs)
  show ?case
  proof (cases xs)
    case Nil
    with Cons.prems show ?thesis by (simp add: splitlines_one)
  next
    case (Cons y ys)
    have "splitlines (join nl (x # y # ys)) = x # splitlines (join nl (y # ys))"
      using Cons.prems by (intro splitlines_join_Cons) simp
    with Cons Cons.IH Cons.prems show ?thesis by (simp del: join.simps)
  qed
qed simp

end
