(* ===== verification/Prior_State.thy ===== *)
theory Prior_State
  imports Fuko_Prelude
begin

text \<open>
  The state half of \<open>sidecar/reviewer/prompt.py\<close>: the structured output of a review round, the
  rows a round carries in from its predecessors, the pure renderer \<open>render_prior_state\<close> that
  turns them into one section of the prompt and mints the ids \<open>p1 .. pN\<close>, and the gate
  \<open>accepted_status\<close> that decides which verdicts may touch a carried row.
\<close>

section \<open>Data\<close>

text \<open>\<open>AgenticFinding\<close>, \<open>ExaminedRegion\<close>, \<open>PriorFindingStatus\<close>: what one round returns.\<close>

record agentic_finding =
  af_file :: string
  af_line :: "int option"
  af_end_line :: "int option"
  af_severity :: string
  af_category :: string
  af_title :: string
  af_body :: string
  af_evidence :: string
  af_confidence :: string

record examined_region =
  er_file :: string
  er_region :: string
  er_checked :: string
  er_conclusion :: string
  er_evidence :: string

record prior_finding_status =
  pfs_id :: string
  pfs_status :: string
  pfs_reason :: string

record agentic_review =
  ar_findings :: "agentic_finding list"
  ar_examined :: "examined_region list"
  ar_prior_status :: "prior_finding_status list"
  ar_summary :: string
  ar_degraded :: string

text \<open>\<open>Severity\<close> and \<open>Category\<close> of \<open>sidecar/signals.py\<close>, and the validator of the two fields: an
  off-vocabulary word degrades to the field's default.\<close>

definition SEVERITIES :: "string list" where
  "SEVERITIES = [''info'', ''low'', ''medium'', ''high'', ''critical'']"

definition CATEGORIES :: "string list" where
  "CATEGORIES = [''bug'', ''security'', ''perf'', ''style'', ''test'', ''docs'', ''design'']"

definition known_vocabulary_or_default :: "agentic_finding \<Rightarrow> agentic_finding" where
  "known_vocabulary_or_default f =
     f\<lparr>af_severity := (if af_severity f \<in> set SEVERITIES then af_severity f else ''medium''),
       af_category := (if af_category f \<in> set CATEGORIES then af_category f else ''bug'')\<rparr>"

text \<open>\<open>PriorFinding\<close>, \<open>PriorCoverage\<close>: the rows of the two ledgers as a prompt shows them.\<close>

record prior_finding =
  pf_file :: string
  pf_title :: string
  pf_body :: string
  pf_line :: "int option"
  pf_severity :: string
  pf_category :: string
  pf_round :: int
  pf_evidence :: string

record prior_coverage =
  pc_file :: string
  pc_checked :: string
  pc_conclusion :: string
  pc_evidence :: string
  pc_region :: string
  pc_round :: int

text \<open>\<open>PriorState\<close>: the rendered section and the ids minted for it.\<close>

record prior_state =
  ps_text :: string
  ps_ids :: "(string, prior_finding) dict"

definition empty_prior_state :: prior_state where
  "empty_prior_state = \<lparr>ps_text = '''', ps_ids = []\<rparr>"

definition MAX_PRIOR_COVERAGE :: int where "MAX_PRIOR_COVERAGE = 40"
definition MAX_PRIOR_EVIDENCE :: int where "MAX_PRIOR_EVIDENCE = 400"

definition COVERAGE_ADVISORY :: string where
  "COVERAGE_ADVISORY =
     ''Regions earlier rounds recorded as examined, newest round first. This list '' @
     ''is ADVISORY and describes what was LOOKED AT, never what was found to be '' @
     ''sound. Deprioritise these regions so this round's budget goes to surface '' @
     ''nobody has covered -- and go back to one whenever this round's changes '' @
     ''touch it, it lies on the path of something you are verifying, or you have '' @
     ''concrete reason to doubt what is recorded. A recorded conclusion is an '' @
     ''earlier round's inference, not established fact; overturning one with '' @
     ''evidence is a valuable result.''"

definition PRIOR_STATUS_VOCABULARY :: "string list" where
  "PRIOR_STATUS_VOCABULARY = [''fixed'', ''still_open'', ''rejected'']"

section \<open>The verdict gate\<close>

text \<open>
  \<open>PriorState.accepted_status\<close>: a verdict is kept when its word is in the vocabulary, its id
  was minted for this prompt, and no earlier entry on the same id was kept.
\<close>

fun accepted_loop ::
  "(string, prior_finding) dict \<Rightarrow> string set \<Rightarrow> prior_finding_status list
     \<Rightarrow> prior_finding_status list" where
  "accepted_loop ids seen [] = []"
| "accepted_loop ids seen (e # es) =
     (if pfs_status e \<notin> set PRIOR_STATUS_VOCABULARY then accepted_loop ids seen es
      else if pfs_id e \<in> fst ` set ids \<and> pfs_id e \<notin> seen
        then e # accepted_loop ids (insert (pfs_id e) seen) es
        else accepted_loop ids seen es)"

definition accepted_status :: "prior_state \<Rightarrow> prior_finding_status list \<Rightarrow> prior_finding_status list" where
  "accepted_status st es = accepted_loop (ps_ids st) {} es"

lemma accepted_loop_sound:
  "e \<in> set (accepted_loop ids seen es) \<Longrightarrow>
     e \<in> set es \<and> pfs_status e \<in> set PRIOR_STATUS_VOCABULARY \<and> pfs_id e \<in> fst ` set ids
     \<and> pfs_id e \<notin> seen"
  by (induction ids seen es rule: accepted_loop.induct) (auto split: if_splits)

lemma accepted_loop_distinct: "distinct (map pfs_id (accepted_loop ids seen es))"
  by (induction ids seen es rule: accepted_loop.induct) (auto dest: accepted_loop_sound)

lemma accepted_loop_find:
  "i \<in> fst ` set ids \<Longrightarrow> i \<notin> seen \<Longrightarrow>
     find (\<lambda>e. pfs_id e = i) (accepted_loop ids seen es) =
     find (\<lambda>e. pfs_id e = i \<and> pfs_status e \<in> set PRIOR_STATUS_VOCABULARY) es"
proof (induction ids seen es rule: accepted_loop.induct)
  case (2 ids seen e es)
  then show ?case by (cases "pfs_id e = i") simp_all
qed simp

section \<open>Rendering\<close>

definition indent_prefix :: string where "indent_prefix = ''      ''"

text \<open>\<open>_indented(text)\<close> and \<open>_one_line(text)\<close>.\<close>

definition indented_lines :: "string \<Rightarrow> string list" where
  "indented_lines text =
     map (\<lambda>l. indent_prefix @ l) (case splitlines text of [] \<Rightarrow> [''''] | ls \<Rightarrow> ls)"

definition indented :: "string \<Rightarrow> string" where
  "indented text = join nl (indented_lines text)"

definition one_line :: "string \<Rightarrow> string" where
  "one_line text = join '' '' (splitlines text)"

definition EVIDENCE_TRUNCATED :: string where
  "EVIDENCE_TRUNCATED = ''(... evidence truncated to fit this round's budget)''"

text \<open>\<open>_bounded_evidence(text, budget)\<close>: the announcement is counted inside the budget.\<close>

definition bounded_evidence :: "string \<Rightarrow> int \<Rightarrow> string" where
  "bounded_evidence text budget =
     (let clipped = max budget 0
      in if int (length text) \<le> clipped then text
         else let room = clipped - int (length EVIDENCE_TRUNCATED) - 1;
                  kept = (if room > 0 then rstrip (take (nat room) text) else '''')
              in if kept = '''' then take (nat clipped) EVIDENCE_TRUNCATED
                 else kept @ '' '' @ EVIDENCE_TRUNCATED)"

text \<open>The ids of one render: \<open>enumerate(findings, start=1)\<close>.\<close>

definition minted_id :: "nat \<Rightarrow> string" where
  "minted_id n = CHR ''p'' # str_int (int n)"

definition mint_ids :: "prior_finding list \<Rightarrow> (string, prior_finding) dict" where
  "mint_ids fs = map (\<lambda>(n, f). (minted_id n, f)) (enumerate 1 fs)"

definition FINDINGS_INTRO :: string where
  "FINDINGS_INTRO =
     ''Open findings from earlier rounds on this pull request. Settle each '' @
     ''one against the CURRENT head:''"

definition evidence_lines :: "string \<Rightarrow> int \<Rightarrow> string list" where
  "evidence_lines ev max_evidence =
     (if ev \<noteq> ''''
      then let bounded = bounded_evidence ev max_evidence
           in if bounded \<noteq> '''' then [indented (''evidence: '' @ bounded)] else []
      else [])"

definition finding_anchor :: "prior_finding \<Rightarrow> string" where
  "finding_anchor f =
     (case pf_line f of
        None \<Rightarrow> pf_file f
      | Some l \<Rightarrow> if l = 0 then pf_file f else pf_file f @ '':'' @ str_int l)"

definition finding_header :: "string \<Rightarrow> prior_finding \<Rightarrow> string" where
  "finding_header i f =
     one_line (''['' @ i @ ''] '' @ finding_anchor f @ '' -- '' @ pf_severity f @ ''/''
       @ pf_category f @ '' -- round '' @ str_int (pf_round f))"

definition finding_lines :: "int \<Rightarrow> string \<times> prior_finding \<Rightarrow> string list" where
  "finding_lines max_evidence e =
     (case e of (i, f) \<Rightarrow>
       [finding_header i f, indented (pf_title f)]
       @ (if pf_body f \<noteq> '''' then [indented (pf_body f)] else [])
       @ evidence_lines (pf_evidence f) max_evidence)"

definition coverage_header :: "prior_coverage \<Rightarrow> string" where
  "coverage_header c =
     one_line (''- '' @ strip (pc_file c @ '' '' @ pc_region c) @ '' -- round ''
       @ str_int (pc_round c))"

definition coverage_lines :: "int \<Rightarrow> prior_coverage \<Rightarrow> string list" where
  "coverage_lines max_evidence c =
     [coverage_header c, indented (''checked: '' @ pc_checked c),
      indented (''established: '' @ pc_conclusion c)]
     @ evidence_lines (pc_evidence c) max_evidence"

definition dropped_note :: "nat \<Rightarrow> string" where
  "dropped_note n =
     ''(NOTE: '' @ str_int (int n) @ '' older coverage entries were dropped to fit this '' @
     ''round's budget. Absence from this list is not evidence a region is '' @
     ''unexamined -- it is only evidence that nothing recent recorded it.)''"

text \<open>
  \<open>sorted(coverage, key=lambda c: c.round, reverse=True)\<close> is stable, so it is an ascending
  stable sort by the negated round.
\<close>

definition newest_first :: "prior_coverage list \<Rightarrow> prior_coverage list" where
  "newest_first cov = sort_key (\<lambda>c. - pc_round c) cov"

definition render_lines ::
  "prior_finding list \<Rightarrow> prior_coverage list \<Rightarrow> int \<Rightarrow> int \<Rightarrow> string list" where
  "render_lines fs cov max_coverage max_evidence =
     (let ids = mint_ids fs;
          ls1 = (if ids \<noteq> [] then FINDINGS_INTRO # concat (map (finding_lines max_evidence) ids)
                 else []);
          ordered = newest_first cov;
          kept = take (nat (max max_coverage 0)) ordered;
          ls2 = (if kept \<noteq> []
                 then ls1 @ (if ls1 \<noteq> [] then [''''] else []) @ [COVERAGE_ADVISORY]
                      @ concat (map (coverage_lines max_evidence) kept)
                 else ls1);
          dropped = length ordered - length kept
      in if dropped \<noteq> 0
         then ls2 @ (if ls2 \<noteq> [] then [''''] else []) @ [dropped_note dropped]
         else ls2)"

definition render_prior_state ::
  "prior_finding list \<Rightarrow> prior_coverage list \<Rightarrow> int \<Rightarrow> int \<Rightarrow> prior_state" where
  "render_prior_state fs cov max_coverage max_evidence =
     (let ls = render_lines fs cov max_coverage max_evidence
      in if ls \<noteq> [] then \<lparr>ps_text = join nl ls, ps_ids = mint_ids fs\<rparr> else empty_prior_state)"

section \<open>Lemmas about the renderer\<close>

lemma one_line_no_break: "c \<in> set (one_line t) \<Longrightarrow> \<not> line_break c"
  using set_join [of "'' ''" "splitlines t"] splitlines_no_break [of _ t c]
  by (auto simp: one_line_def line_break_def)

lemma one_line_cons:
  assumes "\<not> line_break c"
  shows "\<exists>t'. one_line (c # t) = c # t'"
proof -
  have acc: "\<exists>l ls. splitlines_acc (acc @ [c]) u = (c # l) # ls" for acc u
  proof (induction u arbitrary: acc)
    case (Cons d u)
    from Cons.IH [of "d # acc"] show ?case by simp
  qed simp
  from acc [of "[]" t] assms obtain l ls where "splitlines (c # t) = (c # l) # ls"
    by (auto simp: splitlines_def)
  then show ?thesis by (cases ls) (auto simp: one_line_def)
qed

lemma indented_lines_ne: "indented_lines t \<noteq> []"
  by (simp add: indented_lines_def split: list.split)

lemma indented_lines_shape:
  "l \<in> set (indented_lines t) \<Longrightarrow> hd l = CHR '' '' \<and> (\<forall>c \<in> set l. \<not> line_break c)"
  using splitlines_no_break [of _ t]
  by (auto simp: indented_lines_def indent_prefix_def split: list.splits) blast+

text \<open>A line at column 0: not empty and not indented.\<close>

definition column0 :: "string \<Rightarrow> bool" where
  "column0 l = (l \<noteq> [] \<and> hd l \<noteq> CHR '' '')"

lemma indented_column0: "filter column0 (split_char (CHR 0x0A) (indented t)) = []"
proof -
  have "\<forall>x \<in> set (indented_lines t). CHR 0x0A \<notin> set x"
    using indented_lines_shape by (auto simp: line_break_def)
  then have "split_char (CHR 0x0A) (indented t) = indented_lines t"
    unfolding indented_def by (rule split_join_nl [OF indented_lines_ne])
  then show ?thesis
    using indented_lines_shape by (auto simp: filter_empty_conv column0_def)
qed

lemma indented_breaks: "c \<in> set (indented t) \<Longrightarrow> line_break c \<Longrightarrow> c = CHR 0x0A"
  using set_join [of nl "indented_lines t"] indented_lines_shape [of _ t]
  by (auto simp: indented_def nl_def)

text \<open>A header is one physical line at column 0.\<close>

lemma header_column0:
  assumes "\<not> line_break c" "c \<noteq> CHR '' ''"
  shows "filter column0 (split_char (CHR 0x0A) (one_line (c # t))) = [one_line (c # t)]"
proof -
  have "CHR 0x0A \<notin> set (one_line (c # t))"
    using one_line_no_break line_break_chars(1) by blast
  then have "split_char (CHR 0x0A) (one_line (c # t)) = [one_line (c # t)]"
    by (rule split_char_free)
  moreover have "column0 (one_line (c # t))"
    using one_line_cons [OF assms(1), of t] assms(2) by (auto simp: column0_def)
  ultimately show ?thesis by simp
qed

lemma finding_header_shape:
  "filter column0 (split_char (CHR 0x0A) (finding_header i f)) = [finding_header i f]"
  unfolding finding_header_def append_Cons by (rule header_column0) (simp_all add: line_break_def)

lemma coverage_header_shape:
  "filter column0 (split_char (CHR 0x0A) (coverage_header c)) = [coverage_header c]"
  unfolding coverage_header_def append_Cons by (rule header_column0) (simp_all add: line_break_def)

lemma header_no_break:
  "c \<in> set (finding_header i f) \<Longrightarrow> \<not> line_break c"
  "c \<in> set (coverage_header e) \<Longrightarrow> \<not> line_break c"
  by (simp_all add: finding_header_def coverage_header_def one_line_no_break)

lemma const_no_break:
  "c \<in> set FINDINGS_INTRO \<Longrightarrow> \<not> line_break c"
  "c \<in> set COVERAGE_ADVISORY \<Longrightarrow> \<not> line_break c"
  "c \<in> set (dropped_note n) \<Longrightarrow> \<not> line_break c"
  by (auto simp: FINDINGS_INTRO_def COVERAGE_ADVISORY_def dropped_note_def line_break_def
      dest: str_int_no_break)

text \<open>The column-0 lines a list of chunks contributes.\<close>

definition visible_rows :: "string list \<Rightarrow> string list" where
  "visible_rows ls = concat (map (\<lambda>x. filter column0 (split_char (CHR 0x0A) x)) ls)"

lemma visible_rows_simps [simp]:
  "visible_rows [] = []"
  "visible_rows (x # ls) = filter column0 (split_char (CHR 0x0A) x) @ visible_rows ls"
  "visible_rows (ls @ ms) = visible_rows ls @ visible_rows ms"
  by (simp_all add: visible_rows_def)

lemma visible_evidence: "visible_rows (evidence_lines ev m) = []"
  by (simp add: evidence_lines_def Let_def indented_column0)

lemma visible_finding: "visible_rows (finding_lines m e) = [finding_header (fst e) (snd e)]"
  by (cases e) (simp add: finding_lines_def finding_header_shape indented_column0 visible_evidence)

lemma visible_coverage: "visible_rows (coverage_lines m c) = [coverage_header c]"
  by (simp add: coverage_lines_def coverage_header_shape indented_column0 visible_evidence)

lemma visible_concat:
  "visible_rows (concat (map f xs)) = concat (map (\<lambda>x. visible_rows (f x)) xs)"
  by (induction xs) auto

lemma visible_const:
  "filter column0 (split_char (CHR 0x0A) FINDINGS_INTRO) = [FINDINGS_INTRO]"
  "filter column0 (split_char (CHR 0x0A) COVERAGE_ADVISORY) = [COVERAGE_ADVISORY]"
  "filter column0 (split_char (CHR 0x0A) (dropped_note n)) = [dropped_note n]"
proof -
  have "CHR 0x0A \<notin> set FINDINGS_INTRO" "CHR 0x0A \<notin> set COVERAGE_ADVISORY"
    "CHR 0x0A \<notin> set (dropped_note n)"
    using const_no_break line_break_chars(1) by blast+
  moreover have "column0 FINDINGS_INTRO" "column0 COVERAGE_ADVISORY" "column0 (dropped_note n)"
    by (simp_all add: column0_def FINDINGS_INTRO_def COVERAGE_ADVISORY_def dropped_note_def)
  ultimately show
    "filter column0 (split_char (CHR 0x0A) FINDINGS_INTRO) = [FINDINGS_INTRO]"
    "filter column0 (split_char (CHR 0x0A) COVERAGE_ADVISORY) = [COVERAGE_ADVISORY]"
    "filter column0 (split_char (CHR 0x0A) (dropped_note n)) = [dropped_note n]"
    by (simp_all add: split_char_free)
qed

text \<open>The rows fuko itself writes into the section, in order.\<close>

definition fuko_rows :: "prior_finding list \<Rightarrow> prior_coverage list \<Rightarrow> int \<Rightarrow> string list" where
  "fuko_rows fs cov max_coverage =
     (let kept = take (nat (max max_coverage 0)) (newest_first cov)
      in (if fs = [] then []
          else FINDINGS_INTRO # map (\<lambda>e. finding_header (fst e) (snd e)) (mint_ids fs))
         @ (if kept = [] then [] else COVERAGE_ADVISORY # map coverage_header kept)
         @ (if length cov = length kept then [] else [dropped_note (length cov - length kept)]))"

lemma mint_ids_Nil [simp]: "mint_ids fs = [] \<longleftrightarrow> fs = []"
  by (cases fs) (simp_all add: mint_ids_def enumerate_simps)

lemma column0_Nil [simp]: "\<not> column0 []"
  by (simp add: column0_def)

lemma length_newest_first [simp]: "length (newest_first cov) = length cov"
  by (simp add: newest_first_def)

lemma visible_findings:
  "visible_rows (concat (map (finding_lines me) ids)) =
     map (\<lambda>e. finding_header (fst e) (snd e)) ids"
  by (simp add: visible_concat visible_finding concat_map_singleton)

lemma visible_coverages:
  "visible_rows (concat (map (coverage_lines me) cs)) = map coverage_header cs"
  by (simp add: visible_concat visible_coverage concat_map_singleton)

lemma visible_render: "visible_rows (render_lines fs cov mc me) = fuko_rows fs cov mc"
proof -
  obtain kept where kept: "kept = take (nat (max mc 0)) (newest_first cov)" by blast
  have len: "length cov \<noteq> length kept \<longleftrightarrow> \<not> length cov \<le> length kept"
    by (auto simp: kept)
  have sep: "visible_rows (if ls \<noteq> [] then [''''] else []) = []" for ls :: "string list"
    by simp
  show ?thesis
    unfolding render_lines_def fuko_rows_def Let_def kept [symmetric] length_newest_first
    by (cases "fs = []"; cases "kept = []"; cases "length cov = length kept")
      (use len in \<open>simp_all add: visible_const visible_findings visible_coverages sep\<close>)
qed

lemma render_breaks:
  "\<forall>x \<in> set (render_lines fs cov mc me). \<forall>c \<in> set x. line_break c \<longrightarrow> c = CHR 0x0A"
  by (auto simp: render_lines_def Let_def finding_lines_def coverage_lines_def evidence_lines_def
      dest: const_no_break header_no_break indented_breaks split: if_splits)

lemma render_ids: "ps_ids (render_prior_state fs cov mc me) = mint_ids fs"
proof (cases "fs = []")
  case True
  then show ?thesis
    by (simp add: render_prior_state_def Let_def empty_prior_state_def mint_ids_def)
next
  case False
  then have "render_lines fs cov mc me \<noteq> []"
    by (simp add: render_lines_def Let_def)
  then show ?thesis by (simp add: render_prior_state_def Let_def)
qed

lemma minted_keys: "map fst (mint_ids fs) = map minted_id [1..<Suc (length fs)]"
proof -
  have "map fst (map (\<lambda>(n, f). (minted_id n, f)) (enumerate k fs)) =
      map minted_id [k..<k + length fs]" for k
    by (induction fs arbitrary: k) (simp_all add: enumerate_simps upt_conv_Cons del: upt_Suc)
  then show ?thesis by (simp add: mint_ids_def del: upt_Suc)
qed

lemma minted_id_inj [simp]: "minted_id m = minted_id n \<longleftrightarrow> m = n"
  by (simp add: minted_id_def str_int_def)

lemma distinct_minted: "distinct (map fst (mint_ids fs))"
  by (simp add: minted_keys distinct_map inj_on_def)

lemma minted_values: "map snd (mint_ids fs) = fs"
proof -
  have "map snd (map (\<lambda>(n, f). (minted_id n, f)) (enumerate k fs)) = fs" for k
    by (induction fs arbitrary: k) (simp_all add: enumerate_simps)
  then show ?thesis by (simp add: mint_ids_def)
qed

lemma split_join_chunks:
  assumes "ls \<noteq> []"
  shows "split_char (CHR 0x0A) (join nl ls) = concat (map (split_char (CHR 0x0A)) ls)"
proof -
  have "join nl ls = join nl (map (join nl) (map (split_char (CHR 0x0A)) ls))"
    by (simp add: comp_def join_split_nl)
  also have "\<dots> = join nl (concat (map (split_char (CHR 0x0A)) ls))"
    by (rule join_concat) simp
  finally show ?thesis
    using assms by (subst \<open>join nl ls = _\<close>, subst join_concat)
      (auto intro!: split_join_nl dest: set_split_char simp del: join.simps)
qed

lemma visible_text:
  "filter column0 (split_char (CHR 0x0A) (ps_text (render_prior_state fs cov mc me))) =
     fuko_rows fs cov mc"
proof (cases "render_lines fs cov mc me = []")
  case True
  then show ?thesis
    using visible_render [of fs cov mc me]
    by (simp add: render_prior_state_def empty_prior_state_def)
next
  case False
  then show ?thesis
    unfolding visible_render [of fs cov mc me, symmetric] visible_rows_def
    by (simp add: render_prior_state_def split_join_chunks filter_concat comp_def)
qed

section \<open>Properties of the carried state\<close>

text \<open>C11: text a model wrote cannot forge a row of the carried state. The lines of the rendered
  section that start at column 0 are exactly the rows fuko writes itself (the two introductions,
  one header per finding and per kept coverage entry, the count of what was dropped), whatever
  the findings and coverage contain, and no other kind of line break occurs in it.\<close>

theorem rendered_rows_are_fukos:
  "filter column0 (split_char (CHR 0x0A) (ps_text (render_prior_state fs cov mc me))) =
     fuko_rows fs cov mc
   \<and> (\<forall>c \<in> set (ps_text (render_prior_state fs cov mc me)). line_break c \<longrightarrow> c = CHR 0x0A)"
proof -
  have "set (ps_text (render_prior_state fs cov mc me)) \<subseteq>
      insert (CHR 0x0A) (\<Union>x \<in> set (render_lines fs cov mc me). set x)"
    using set_join [of nl "render_lines fs cov mc me"]
    by (auto simp: render_prior_state_def Let_def empty_prior_state_def nl_def)
  with render_breaks [of fs cov mc me] visible_text show ?thesis by blast
qed

theorem rendered_rows_are_fukos_witness:
  "\<not> (\<exists>c \<in> set (ps_text (render_prior_state [] [\<lparr>pc_file = ''a.py'', pc_checked = ''x'',
      pc_conclusion = [CHR 0x0D, CHR ''[''], pc_evidence = ''e'', pc_region = ''f'', pc_round = 1\<rparr>] 40 400)).
      c = CHR 0x0D)"
  using rendered_rows_are_fukos [of "[]" "[\<lparr>pc_file = ''a.py'', pc_checked = ''x'',
      pc_conclusion = [CHR 0x0D, CHR ''[''], pc_evidence = ''e'', pc_region = ''f'', pc_round = 1\<rparr>]" 40 400]
  by (auto simp: line_break_def)

text \<open>A verdict counts only when it is in the vocabulary and on an id this prompt minted, and
  each id is settled at most once, by the first such verdict the model returned on it.\<close>

theorem accepted_status_gate:
  "distinct (map pfs_id (accepted_status st es))
   \<and> (\<forall>e \<in> set (accepted_status st es). e \<in> set es \<and> pfs_status e \<in> set PRIOR_STATUS_VOCABULARY
        \<and> pfs_id e \<in> fst ` set (ps_ids st))
   \<and> (\<forall>i \<in> fst ` set (ps_ids st). find (\<lambda>e. pfs_id e = i) (accepted_status st es) =
        find (\<lambda>e. pfs_id e = i \<and> pfs_status e \<in> set PRIOR_STATUS_VOCABULARY) es)"
  unfolding accepted_status_def
  by (simp add: accepted_loop_distinct accepted_loop_find) (blast dest: accepted_loop_sound)

theorem accepted_status_gate_witness:
  "distinct (map pfs_id (accepted_status \<lparr>ps_text = '''', ps_ids = mint_ids
       [\<lparr>pf_file = ''a.py'', pf_title = ''t'', pf_body = '''', pf_line = None, pf_severity = ''low'',
         pf_category = ''bug'', pf_round = 1, pf_evidence = ''''\<rparr>]\<rparr>
     [\<lparr>pfs_id = ''p1'', pfs_status = ''fixed'', pfs_reason = ''''\<rparr>,
      \<lparr>pfs_id = ''p1'', pfs_status = ''rejected'', pfs_reason = ''r''\<rparr>]))"
  using accepted_status_gate by blast

text \<open>Evidence is cut inside its budget and never silently: the result is never longer than the
  budget, a text that fits is unchanged, and a cut one ends with the announcement, or is a prefix
  of it when the budget leaves no room for both.\<close>

theorem bounded_evidence_within_budget:
  "int (length (bounded_evidence t b)) \<le> max b 0
   \<and> (int (length t) \<le> max b 0 \<longrightarrow> bounded_evidence t b = t)
   \<and> (int (length t) > max b 0 \<longrightarrow>
        (\<exists>kept. bounded_evidence t b = kept @ '' '' @ EVIDENCE_TRUNCATED)
        \<or> bounded_evidence t b = take (nat (max b 0)) EVIDENCE_TRUNCATED)"
proof (cases "int (length t) \<le> max b 0")
  case True
  then have "bounded_evidence t b = t" by (simp add: bounded_evidence_def Let_def)
  with True show ?thesis by (simp only: not_less [symmetric]) simp
next
  case False
  let ?room = "max b 0 - int (length EVIDENCE_TRUNCATED) - 1"
  let ?kept = "if ?room > 0 then rstrip (take (nat ?room) t) else ''''"
  have eq: "bounded_evidence t b = (if ?kept = '''' then take (nat (max b 0)) EVIDENCE_TRUNCATED
      else ?kept @ '' '' @ EVIDENCE_TRUNCATED)"
    using False unfolding bounded_evidence_def Let_def by (simp only: if_False)
  have "length (rstrip (take (nat ?room) t)) \<le> nat ?room"
    using length_dropWhile_le [of py_space "rev (take (nat ?room) t)"] by (simp add: rstrip_def)
  then have "?kept \<noteq> '''' \<Longrightarrow> int (length ?kept) \<le> ?room" by (auto split: if_splits)
  then have "int (length (bounded_evidence t b)) \<le> max b 0"
    unfolding eq by (cases "?kept = ''''") (simp_all only: if_True if_False, simp_all)
  with False eq show ?thesis by metis
qed

theorem bounded_evidence_within_budget_witness: "length (bounded_evidence (replicate 100 CHR ''x'') 60) \<le> 60"
  using bounded_evidence_within_budget [of "replicate 100 CHR ''x''" 60] by simp

text \<open>The ids of a prompt are \<open>p1 .. pN\<close>, one per carried finding in its order, and distinct, so
  a verdict on an id names exactly one finding.\<close>

theorem minted_ids_are_positions:
  "map fst (ps_ids (render_prior_state fs cov mc me)) = map minted_id [1..<Suc (length fs)]
   \<and> map snd (ps_ids (render_prior_state fs cov mc me)) = fs
   \<and> distinct (map fst (ps_ids (render_prior_state fs cov mc me)))"
  using minted_keys [of fs] minted_values [of fs] distinct_minted [of fs] by (simp only: render_ids)

end
