(* ===== verification/Review_State.thy ===== *)
theory Review_State
  imports Prior_State
begin

text \<open>
  \<open>sidecar/review_state.py\<close>: the two ledgers (\<open>review_findings\<close> and \<open>review_coverage\<close>, the
  tables of \<open>migrations/009\<close> and \<open>010\<close>) and the operations that read, write and expire their
  rows. A table is a list of rows; one SQL statement is one function on it. A lane is the
  \<open>(repo, pr, seat)\<close> every statement is scoped to. The database itself is not part of the
  repository, so the state carries what it decides: whether access number \<open>n\<close> is answered
  (\<open>st_answers n\<close>), the transaction time of that access (\<open>st_clock n\<close>, in microseconds) and the
  ids \<open>gen_random_uuid()\<close> hands out (\<open>st_uuid n\<close>).
\<close>

section \<open>State\<close>

type_synonym lane = "string \<times> int \<times> string"

record finding_row =
  fr_id :: string
  fr_lane :: lane
  fr_round :: int
  fr_head :: string
  fr_file :: string
  fr_line :: "int option"
  fr_severity :: string
  fr_category :: string
  fr_title :: string
  fr_body :: string
  fr_evidence :: string
  fr_status :: string
  fr_reason :: string
  fr_reopened :: int
  fr_created :: int
  fr_updated :: int

record coverage_row =
  cr_id :: string
  cr_lane :: lane
  cr_round :: int
  cr_head :: string
  cr_file :: string
  cr_region :: string
  cr_checked :: string
  cr_conclusion :: string
  cr_evidence :: string
  cr_expired :: "int option"
  cr_created :: int

record store =
  st_enabled :: bool
  st_answers :: "nat \<Rightarrow> bool"
  st_clock :: "nat \<Rightarrow> int"
  st_uuid :: "nat \<Rightarrow> string"
  st_calls :: nat
  st_next :: nat
  st_findings :: "finding_row list"
  st_coverage :: "coverage_row list"
  st_failed :: "string list"

definition FINDING_STATUSES :: "string list" where
  "FINDING_STATUSES = [''open'', ''fixed'', ''rejected'', ''stale'']"

definition REOPENABLE_STATUSES :: "string list" where
  "REOPENABLE_STATUSES = [''fixed'', ''rejected'']"

definition RETENTION_DAYS :: int where "RETENTION_DAYS = 90"
definition MAX_OPEN_FINDINGS :: int where "MAX_OPEN_FINDINGS = 200"
definition MAX_SETTLED_FINDINGS :: int where "MAX_SETTLED_FINDINGS = 200"
definition MAX_LIVE_COVERAGE :: int where "MAX_LIVE_COVERAGE = 500"
definition MAX_TEXT :: nat where "MAX_TEXT = 4000"

text \<open>\<open>make_interval(days => n)\<close> in microseconds (a day is 24 hours in a UTC session).\<close>

definition days_us :: "int \<Rightarrow> int" where
  "days_us n = n * 86400000000"

section \<open>Guards shared by every operation\<close>

definition clip :: "string \<Rightarrow> string" where
  "clip text = take MAX_TEXT text"

text \<open>
  \<open>_is_uuid\<close>: \<open>uuid.UUID(str(value))\<close> strips \<open>urn:\<close>, \<open>uuid:\<close>, braces and hyphens, demands 32
  characters and hands them to \<open>int(hex, 16)\<close>, which accepts surrounding whitespace, a sign, a
  \<open>0x\<close> prefix and single underscores between digits.
\<close>

definition hex_digit :: "char \<Rightarrow> bool" where
  "hex_digit c = (c \<in> set ''0123456789abcdefABCDEF'')"

fun hex_digits_ok :: "string \<Rightarrow> bool" where
  "hex_digits_ok [] = False"
| "hex_digits_ok [c] = hex_digit c"
| "hex_digits_ok (c # d # cs) =
     (hex_digit c \<and> (if d = CHR ''_'' then hex_digits_ok cs else hex_digits_ok (d # cs)))"

definition drop_sign :: "string \<Rightarrow> string" where
  "drop_sign s = (case s of c # cs \<Rightarrow> if c = CHR ''+'' \<or> c = CHR ''-'' then cs else s | [] \<Rightarrow> [])"

definition drop_0x :: "string \<Rightarrow> string" where
  "drop_0x s =
     (if startswith s ''0x'' \<or> startswith s ''0X''
      then (case drop 2 s of c # cs \<Rightarrow> if c = CHR ''_'' then cs else c # cs | [] \<Rightarrow> [])
      else s)"

definition int16_ok :: "string \<Rightarrow> bool" where
  "int16_ok s = hex_digits_ok (drop_0x (drop_sign (strip s)))"

fun remove_sub :: "nat \<Rightarrow> string \<Rightarrow> string \<Rightarrow> string" where
  "remove_sub 0 p s = s"
| "remove_sub (Suc n) p [] = []"
| "remove_sub (Suc n) p (c # cs) =
     (if startswith (c # cs) p then remove_sub n p (drop (length p) (c # cs))
      else c # remove_sub n p cs)"

definition replace_empty :: "string \<Rightarrow> string \<Rightarrow> string" where
  "replace_empty p s = remove_sub (length s) p s"

definition uuid_hex :: "string \<Rightarrow> string" where
  "uuid_hex v =
     filter (\<lambda>c. c \<noteq> CHR ''-'')
       (strip_chars ''{}'' (replace_empty ''uuid:'' (replace_empty ''urn:'' v)))"

definition is_uuid :: "string \<Rightarrow> bool" where
  "is_uuid v = (length (uuid_hex v) = 32 \<and> int16_ok (uuid_hex v))"

text \<open>
  The comparison \<open>id = %s\<close> on a \<open>UUID\<close> column compares values, not spellings: two texts name the
  same row when their digits agree without regard to case, hyphens and braces.
\<close>

definition uuid_key :: "string \<Rightarrow> string" where
  "uuid_key v = lower (filter (\<lambda>c. c \<noteq> CHR ''-'') (strip_chars ''{}'' v))"

definition same_id :: "string \<Rightarrow> string \<Rightarrow> bool" where
  "same_id a b = (uuid_key a = uuid_key b)"

text \<open>
  A parameter documented as a sequence of strings may be handed one string;
  \<open>_not_a_bare_string\<close> raises on it.
\<close>

datatype strings = BareStr string | StrSeq "string list"

text \<open>
  \<open>with db_best_effort() as conn\<close>: one access to the database. An access that is not answered
  raises (\<open>None\<close>) and its transaction leaves the tables alone.
\<close>

definition now :: "store \<Rightarrow> int" where
  "now s = st_clock s (st_calls s)"

definition db_best_effort :: "(store \<Rightarrow> 'a \<times> store) \<Rightarrow> store \<Rightarrow> 'a option \<times> store" where
  "db_best_effort q s =
     (if st_answers s (st_calls s)
      then (let (a, s') = q s in (Some a, s'\<lparr>st_calls := Suc (st_calls s)\<rparr>))
      else (None, s\<lparr>st_calls := Suc (st_calls s)\<rparr>))"

text \<open>\<open>_best_effort\<close>: no store configured, or a store that failed, gives the neutral value; the
  failure is reported on stderr under the function's name.\<close>

definition best_effort ::
  "string \<Rightarrow> 'a \<Rightarrow> (store \<Rightarrow> 'a option \<times> store) \<Rightarrow> store \<Rightarrow> 'a \<times> store" where
  "best_effort name neutral fn s =
     (if \<not> st_enabled s then (neutral, s)
      else (case fn s of
              (Some a, s') \<Rightarrow> (a, s')
            | (None, s') \<Rightarrow> (neutral, s'\<lparr>st_failed := st_failed s' @ [name]\<rparr>)))"

definition pure_result :: "'a \<Rightarrow> store \<Rightarrow> 'a option \<times> store" where
  "pure_result a s = (Some a, s)"

section \<open>The findings ledger\<close>

record stored_finding =
  sf_id :: string
  sf_prior :: prior_finding

record settled_finding =
  sd_id :: string
  sd_file :: string
  sd_title :: string
  sd_status :: string
  sd_round :: int
  sd_reason :: string

record open_ledger =
  ol_rows :: "stored_finding list"
  ol_truncated :: int

definition empty_open_ledger :: open_ledger where
  "empty_open_ledger = \<lparr>ol_rows = [], ol_truncated = 0\<rparr>"

definition new_finding_row ::
  "string \<Rightarrow> int \<Rightarrow> lane \<Rightarrow> int \<Rightarrow> string \<Rightarrow> agentic_finding \<Rightarrow> finding_row" where
  "new_finding_row i t l rnd head f =
     \<lparr>fr_id = i, fr_lane = l, fr_round = rnd, fr_head = head, fr_file = clip (af_file f),
      fr_line = af_line f, fr_severity = clip (af_severity f), fr_category = clip (af_category f),
      fr_title = clip (af_title f), fr_body = clip (af_body f), fr_evidence = clip (af_evidence f),
      fr_status = ''open'', fr_reason = '''', fr_reopened = 0, fr_created = t, fr_updated = t\<rparr>"

fun insert_findings :: "lane \<Rightarrow> int \<Rightarrow> string \<Rightarrow> agentic_finding list \<Rightarrow> store \<Rightarrow> store" where
  "insert_findings l rnd head [] s = s"
| "insert_findings l rnd head (f # fs) s =
     insert_findings l rnd head fs
       (s\<lparr>st_findings := st_findings s @ [new_finding_row (st_uuid s (st_next s)) (now s) l rnd head f],
          st_next := Suc (st_next s)\<rparr>)"

definition record_findings ::
  "lane \<Rightarrow> int \<Rightarrow> string \<Rightarrow> agentic_finding list \<Rightarrow> store \<Rightarrow> nat \<times> store" where
  "record_findings l rnd head fs =
     best_effort ''record_findings'' 0
       (\<lambda>s. if fs = [] then pure_result 0 s
            else db_best_effort (\<lambda>s. (length fs, insert_findings l rnd head fs s)) s)"

definition open_window :: "lane \<Rightarrow> store \<Rightarrow> finding_row list" where
  "open_window l s =
     sort_key (\<lambda>r. (fr_round r, fr_created r, fr_id r))
       (filter (\<lambda>r. fr_lane r = l \<and> fr_status r = ''open''
                    \<and> fr_updated r > now s - days_us RETENTION_DAYS) (st_findings s))"

definition prior_of_row :: "finding_row \<Rightarrow> prior_finding" where
  "prior_of_row r =
     \<lparr>pf_file = fr_file r, pf_title = fr_title r, pf_body = fr_body r, pf_line = fr_line r,
      pf_severity = fr_severity r, pf_category = fr_category r, pf_round = fr_round r,
      pf_evidence = fr_evidence r\<rparr>"

definition read_limit :: "int \<Rightarrow> int \<Rightarrow> nat" where
  "read_limit limit cap = nat (min (max 1 limit) cap)"

definition read_open :: "lane \<Rightarrow> int \<Rightarrow> store \<Rightarrow> open_ledger" where
  "read_open l limit s =
     (let window = open_window l s;
          rows = take (read_limit limit MAX_OPEN_FINDINGS) window;
          stored = map (\<lambda>r. \<lparr>sf_id = fr_id r, sf_prior = prior_of_row r\<rparr>) rows;
          total = (if rows \<noteq> [] then int (length window) else 0)
      in \<lparr>ol_rows = stored, ol_truncated = max 0 (total - int (length stored))\<rparr>)"

definition open_findings :: "lane \<Rightarrow> int \<Rightarrow> store \<Rightarrow> open_ledger \<times> store" where
  "open_findings l limit =
     best_effort ''open_findings'' empty_open_ledger
       (db_best_effort (\<lambda>s. (read_open l limit s, s)))"

text \<open>\<open>coalesce(max(round), 0) + 1\<close> over the rows of both ledgers, in every state.\<close>

definition lane_rounds :: "lane \<Rightarrow> store \<Rightarrow> int list" where
  "lane_rounds l s =
     map fr_round (filter (\<lambda>r. fr_lane r = l) (st_findings s))
     @ map cr_round (filter (\<lambda>r. cr_lane r = l) (st_coverage s))"

definition next_round :: "lane \<Rightarrow> store \<Rightarrow> int \<times> store" where
  "next_round l =
     best_effort ''next_round'' 1
       (db_best_effort
         (\<lambda>s. ((case lane_rounds l s of [] \<Rightarrow> 0 | x # xs \<Rightarrow> fold max xs x) + 1, s)))"

text \<open>An \<open>UPDATE ... WHERE p\<close>: its effect on the table, and its row count.\<close>

definition update_where ::
  "(finding_row \<Rightarrow> bool) \<Rightarrow> (finding_row \<Rightarrow> finding_row) \<Rightarrow> store \<Rightarrow> nat \<times> store" where
  "update_where p f s =
     (length (filter p (st_findings s)),
      s\<lparr>st_findings := map (\<lambda>r. if p r then f r else r) (st_findings s)\<rparr>)"

definition transition_hits :: "lane \<Rightarrow> string \<Rightarrow> finding_row \<Rightarrow> bool" where
  "transition_hits l i r = (same_id (fr_id r) i \<and> fr_status r = ''open'' \<and> fr_lane r = l)"

definition transition ::
  "lane \<Rightarrow> string \<Rightarrow> string \<Rightarrow> string \<Rightarrow> store \<Rightarrow> bool \<times> store" where
  "transition l i status reason =
     best_effort ''transition'' False
       (\<lambda>s. if status \<notin> set FINDING_STATUSES \<or> \<not> is_uuid i then pure_result False s
            else db_best_effort
              (\<lambda>s. let (n, s') = update_where (transition_hits l i)
                     (\<lambda>r. r\<lparr>fr_status := status, fr_reason := clip reason, fr_updated := now s\<rparr>) s
                   in (n \<noteq> 0, s')) s)"

definition settled_window :: "lane \<Rightarrow> store \<Rightarrow> finding_row list" where
  "settled_window l s =
     rev (sort_key (\<lambda>r. (fr_updated r, fr_id r))
       (filter (\<lambda>r. fr_lane r = l \<and> fr_status r \<in> set REOPENABLE_STATUSES
                    \<and> fr_updated r > now s - days_us RETENTION_DAYS) (st_findings s)))"

definition settled_findings :: "lane \<Rightarrow> int \<Rightarrow> store \<Rightarrow> settled_finding list \<times> store" where
  "settled_findings l limit =
     best_effort ''settled_findings'' []
       (db_best_effort
         (\<lambda>s. (map (\<lambda>r. \<lparr>sd_id = fr_id r, sd_file = fr_file r, sd_title = fr_title r,
                          sd_status = fr_status r, sd_round = fr_round r, sd_reason = fr_reason r\<rparr>)
                 (take (read_limit limit MAX_SETTLED_FINDINGS) (settled_window l s)), s)))"

definition reopen_hits :: "lane \<Rightarrow> string \<Rightarrow> finding_row \<Rightarrow> bool" where
  "reopen_hits l i r =
     (same_id (fr_id r) i \<and> fr_status r \<in> set REOPENABLE_STATUSES \<and> fr_lane r = l)"

definition reopen :: "lane \<Rightarrow> string \<Rightarrow> string \<Rightarrow> store \<Rightarrow> bool \<times> store" where
  "reopen l i reason =
     best_effort ''reopen'' False
       (\<lambda>s. if \<not> is_uuid i then pure_result False s
            else db_best_effort
              (\<lambda>s. let (n, s') = update_where (reopen_hits l i)
                     (\<lambda>r. r\<lparr>fr_status := ''open'', fr_reason := clip reason,
                             fr_reopened := fr_reopened r + 1, fr_updated := now s\<rparr>) s
                   in (n \<noteq> 0, s')) s)"

definition touch_hits :: "lane \<Rightarrow> string list \<Rightarrow> finding_row \<Rightarrow> bool" where
  "touch_hits l ids r =
     ((\<exists>i \<in> set ids. same_id (fr_id r) i) \<and> fr_status r = ''open'' \<and> fr_lane r = l)"

definition touch_findings :: "lane \<Rightarrow> strings \<Rightarrow> store \<Rightarrow> nat \<times> store" where
  "touch_findings l ids =
     best_effort ''touch_findings'' 0
       (\<lambda>s. case ids of
              BareStr _ \<Rightarrow> (None, s)
            | StrSeq is \<Rightarrow>
                let is' = filter is_uuid is
                in if is' = [] then pure_result 0 s
                   else db_best_effort
                     (\<lambda>s. update_where (touch_hits l is') (\<lambda>r. r\<lparr>fr_updated := now s\<rparr>) s) s)"

section \<open>The coverage ledger\<close>

definition new_coverage_row ::
  "string \<Rightarrow> int \<Rightarrow> lane \<Rightarrow> int \<Rightarrow> string \<Rightarrow> examined_region \<Rightarrow> coverage_row" where
  "new_coverage_row i t l rnd head e =
     \<lparr>cr_id = i, cr_lane = l, cr_round = rnd, cr_head = head, cr_file = clip (er_file e),
      cr_region = clip (er_region e), cr_checked = clip (er_checked e),
      cr_conclusion = clip (er_conclusion e), cr_evidence = clip (er_evidence e),
      cr_expired = None, cr_created = t\<rparr>"

fun insert_coverage :: "lane \<Rightarrow> int \<Rightarrow> string \<Rightarrow> examined_region list \<Rightarrow> store \<Rightarrow> store" where
  "insert_coverage l rnd head [] s = s"
| "insert_coverage l rnd head (e # es) s =
     insert_coverage l rnd head es
       (s\<lparr>st_coverage := st_coverage s @ [new_coverage_row (st_uuid s (st_next s)) (now s) l rnd head e],
          st_next := Suc (st_next s)\<rparr>)"

definition record_coverage ::
  "lane \<Rightarrow> int \<Rightarrow> string \<Rightarrow> examined_region list \<Rightarrow> store \<Rightarrow> nat \<times> store" where
  "record_coverage l rnd head es =
     best_effort ''record_coverage'' 0
       (\<lambda>s. if es = [] then pure_result 0 s
            else db_best_effort (\<lambda>s. (length es, insert_coverage l rnd head es s)) s)"

definition live_window :: "lane \<Rightarrow> store \<Rightarrow> coverage_row list" where
  "live_window l s =
     rev (sort_key (\<lambda>r. (cr_round r, cr_created r, cr_id r))
       (filter (\<lambda>r. cr_lane r = l \<and> cr_expired r = None
                    \<and> cr_created r > now s - days_us RETENTION_DAYS) (st_coverage s)))"

definition coverage_of_row :: "coverage_row \<Rightarrow> prior_coverage" where
  "coverage_of_row r =
     \<lparr>pc_file = cr_file r, pc_checked = cr_checked r, pc_conclusion = cr_conclusion r,
      pc_evidence = cr_evidence r, pc_region = cr_region r, pc_round = cr_round r\<rparr>"

definition live_coverage :: "lane \<Rightarrow> int \<Rightarrow> store \<Rightarrow> prior_coverage list \<times> store" where
  "live_coverage l limit =
     best_effort ''live_coverage'' []
       (db_best_effort
         (\<lambda>s. (map coverage_of_row (take (read_limit limit MAX_LIVE_COVERAGE) (live_window l s)), s)))"

definition expire_where :: "(coverage_row \<Rightarrow> bool) \<Rightarrow> store \<Rightarrow> nat \<times> store" where
  "expire_where p s =
     (length (filter p (st_coverage s)),
      s\<lparr>st_coverage := map (\<lambda>r. if p r then r\<lparr>cr_expired := Some (now s)\<rparr> else r) (st_coverage s)\<rparr>)"

definition expire_hits :: "lane \<Rightarrow> string list option \<Rightarrow> coverage_row \<Rightarrow> bool" where
  "expire_hits l files r =
     (cr_lane r = l \<and> cr_expired r = None
      \<and> (case files of None \<Rightarrow> True | Some fs \<Rightarrow> cr_file r \<in> clip ` set fs))"

text \<open>\<open>files=None\<close> expires the lane wholesale; an empty sequence expires nothing.\<close>

definition expire_coverage :: "lane \<Rightarrow> strings option \<Rightarrow> store \<Rightarrow> nat \<times> store" where
  "expire_coverage l files =
     best_effort ''expire_coverage'' 0
       (\<lambda>s. case files of
              None \<Rightarrow> db_best_effort (expire_where (expire_hits l None)) s
            | Some (BareStr _) \<Rightarrow> (None, s)
            | Some (StrSeq fs) \<Rightarrow>
                if fs = [] then pure_result 0 s
                else db_best_effort (expire_where (expire_hits l (Some fs))) s)"

section \<open>What each operation does to the tables\<close>

text \<open>
  The effects an operation can have on the findings table, named once: closing, re-raising or
  touching rows, and appending this round's rows.
\<close>

definition closes :: "lane \<Rightarrow> string \<Rightarrow> string \<Rightarrow> finding_row list \<Rightarrow> finding_row list \<Rightarrow> bool" where
  "closes l i status rs rs' \<longleftrightarrow>
     (\<exists>reason t. rs' = map (\<lambda>r. if transition_hits l i r
        then r\<lparr>fr_status := status, fr_reason := reason, fr_updated := t\<rparr> else r) rs)"

definition raises :: "lane \<Rightarrow> string \<Rightarrow> finding_row list \<Rightarrow> finding_row list \<Rightarrow> bool" where
  "raises l i rs rs' \<longleftrightarrow>
     (\<exists>reason t. rs' = map (\<lambda>r. if reopen_hits l i r
        then r\<lparr>fr_status := ''open'', fr_reason := reason, fr_reopened := fr_reopened r + 1,
                fr_updated := t\<rparr> else r) rs)"

definition touches :: "lane \<Rightarrow> finding_row list \<Rightarrow> finding_row list \<Rightarrow> bool" where
  "touches l rs rs' \<longleftrightarrow>
     (\<exists>p t. rs' = map (\<lambda>r. if fr_lane r = l \<and> p r then r\<lparr>fr_updated := t\<rparr> else r) rs)"

definition appends ::
  "lane \<Rightarrow> int \<Rightarrow> string \<Rightarrow> agentic_finding list \<Rightarrow> finding_row list \<Rightarrow> finding_row list \<Rightarrow> bool" where
  "appends l rnd head fs rs rs' \<longleftrightarrow>
     (\<exists>news. rs' = rs @ news \<and>
        list_all2 (\<lambda>f r. \<exists>i t. r = new_finding_row i t l rnd head f) fs news)"

lemma closesI:
  "closes l i status rs (map (\<lambda>r. if transition_hits l i r
     then r\<lparr>fr_status := status, fr_reason := reason, fr_updated := t\<rparr> else r) rs)"
  unfolding closes_def by (intro exI) (rule refl)

lemma raisesI:
  "raises l i rs (map (\<lambda>r. if reopen_hits l i r
     then r\<lparr>fr_status := ''open'', fr_reason := reason, fr_reopened := fr_reopened r + 1,
             fr_updated := t\<rparr> else r) rs)"
  unfolding raises_def by (intro exI) (rule refl)

lemma touchesI:
  "touches l rs (map (\<lambda>r. if fr_lane r = l \<and> p r then r\<lparr>fr_updated := t\<rparr> else r) rs)"
  unfolding touches_def by (intro exI) (rule refl)

definition store_up :: "store \<Rightarrow> bool" where
  "store_up s \<longleftrightarrow> st_enabled s \<and> (\<forall>n. st_answers s n)"

text \<open>The parts of the state an operation never changes.\<close>

definition same_world :: "store \<Rightarrow> store \<Rightarrow> bool" where
  "same_world s s' \<longleftrightarrow> st_enabled s' = st_enabled s \<and> st_answers s' = st_answers s"

lemma same_world_up: "same_world s s' \<Longrightarrow> store_up s \<Longrightarrow> store_up s'"
  by (simp add: same_world_def store_up_def)

definition same_tables :: "store \<Rightarrow> store \<Rightarrow> bool" where
  "same_tables s s' \<longleftrightarrow>
     same_world s s' \<and> st_findings s' = st_findings s \<and> st_coverage s' = st_coverage s"

text \<open>
  Every guarded operation either returns the neutral value and leaves the tables alone, or its
  body ran; on a store that is up, it ran.
\<close>

lemma best_effort_cases:
  assumes "best_effort name d fn s = (a, s')"
  obtains (neutral) "a = d" "st_enabled s" "\<exists>s1. fn s = (None, s1)
      \<and> s' = s1\<lparr>st_failed := st_failed s1 @ [name]\<rparr>"
    | (off) "a = d" "\<not> st_enabled s" "s' = s"
    | (ran) "st_enabled s" "fn s = (Some a, s')"
  using assms by (auto simp: best_effort_def split: if_splits prod.splits option.splits)

lemma db_best_effort_cases:
  assumes "db_best_effort q s = (r, s')"
  obtains (failed) "r = None" "\<not> st_answers s (st_calls s)" "s' = s\<lparr>st_calls := Suc (st_calls s)\<rparr>"
    | (answered) a s1 where "st_answers s (st_calls s)" "q s = (a, s1)" "r = Some a"
        "s' = s1\<lparr>st_calls := Suc (st_calls s)\<rparr>"
  using assms by (auto simp: db_best_effort_def split: if_splits prod.splits)

lemma guarded_db:
  assumes "best_effort name d (db_best_effort q) s = (a, s')"
    and "\<And>a s1. q s = (a, s1) \<Longrightarrow> same_world s s1"
  shows "same_world s s' \<and>
    (a = d \<and> same_tables s s' \<and> \<not> store_up s
     \<or> (\<exists>s1. q s = (a, s1) \<and> st_findings s' = st_findings s1 \<and> st_coverage s' = st_coverage s1))"
  using assms(1)
proof (cases rule: best_effort_cases)
  case neutral
  then obtain s1 where s1: "db_best_effort q s = (None, s1)"
    "s' = s1\<lparr>st_failed := st_failed s1 @ [name]\<rparr>" by blast
  from s1(1) have "s1 = s\<lparr>st_calls := Suc (st_calls s)\<rparr> \<and> \<not> st_answers s (st_calls s)"
    by (cases rule: db_best_effort_cases) simp_all
  with neutral(1) s1(2) show ?thesis
    by (auto simp: same_world_def same_tables_def store_up_def)
next
  case off
  then show ?thesis by (auto simp: same_world_def same_tables_def store_up_def)
next
  case ran
  from ran(2) obtain s1 where "q s = (a, s1)" "s' = s1\<lparr>st_calls := Suc (st_calls s)\<rparr>"
    by (cases rule: db_best_effort_cases) auto
  moreover from this(1) have "same_world s s1" by (rule assms(2))
  ultimately show ?thesis by (auto simp: same_world_def)
qed

text \<open>A read changes no table.\<close>

lemma guarded_read:
  assumes "best_effort name d (db_best_effort (\<lambda>s. (f s, s))) s = (a, s')"
  shows "same_tables s s' \<and> (a = d \<or> a = f s) \<and> (store_up s \<longrightarrow> a = f s)"
  using guarded_db [OF assms]
  by (auto simp: same_world_def same_tables_def)

text \<open>A write that its own guard may skip.\<close>

lemma guarded_write:
  assumes "best_effort name d (\<lambda>s. if skip then pure_result d s else db_best_effort q s) s = (a, s')"
    and "\<And>a s1. q s = (a, s1) \<Longrightarrow> same_world s s1"
  shows "same_world s s' \<and>
    (a = d \<and> same_tables s s' \<and> (skip \<or> \<not> store_up s)
     \<or> (\<not> skip \<and> (\<exists>s1. q s = (a, s1) \<and> st_findings s' = st_findings s1
                     \<and> st_coverage s' = st_coverage s1)))"
proof (cases skip)
  case True
  with assms(1) have "a = d \<and> s' = s"
    by (auto simp: best_effort_def pure_result_def split: if_splits)
  with True show ?thesis by (simp add: same_world_def same_tables_def)
next
  case False
  with assms(1) have "best_effort name d (db_best_effort q) s = (a, s')"
    by (simp add: best_effort_def)
  from guarded_db [OF this] assms(2) False show ?thesis by blast
qed

lemma update_where_hits:
  "update_where p f s = (n, s1) \<Longrightarrow> (n \<noteq> 0 \<longleftrightarrow> (\<exists>r \<in> set (st_findings s). p r)) \<and> same_world s s1
     \<and> st_coverage s1 = st_coverage s
     \<and> st_findings s1 = map (\<lambda>r. if p r then f r else r) (st_findings s)"
  by (auto simp: update_where_def same_world_def filter_empty_conv)

lemma map_if_none: "\<forall>r \<in> set rs. \<not> p r \<Longrightarrow> map (\<lambda>r. if p r then f r else r) rs = rs"
  by (induction rs) auto

lemma transition_effect:
  assumes "transition l i status reason s = (b, s')"
  shows "same_world s s' \<and> st_coverage s' = st_coverage s \<and>
    (if b then status \<in> set FINDING_STATUSES \<and> (\<exists>r \<in> set (st_findings s). transition_hits l i r)
            \<and> closes l i status (st_findings s) (st_findings s')
     else st_findings s' = st_findings s)"
proof -
  define q where "q = (\<lambda>s. let (n, s') = update_where (transition_hits l i)
      (\<lambda>r. r\<lparr>fr_status := status, fr_reason := clip reason, fr_updated := now s\<rparr>) s in (n \<noteq> 0, s'))"
  have q: "same_world s s1 \<and> st_coverage s1 = st_coverage s
      \<and> (c \<longleftrightarrow> (\<exists>r \<in> set (st_findings s). transition_hits l i r))
      \<and> closes l i status (st_findings s) (st_findings s1)
      \<and> (\<not> c \<longrightarrow> st_findings s1 = st_findings s)"
    if "q s = (c, s1)" for c s1
  proof -
    from that obtain n where n: "update_where (transition_hits l i)
      (\<lambda>r. r\<lparr>fr_status := status, fr_reason := clip reason, fr_updated := now s\<rparr>) s = (n, s1)"
      "c = (n \<noteq> 0)" unfolding q_def by (auto split: prod.splits)
    from update_where_hits [OF n(1)] n(2) show ?thesis
      by (auto simp: closesI intro: map_if_none)
  qed
  have "best_effort ''transition'' False
      (\<lambda>s. if status \<notin> set FINDING_STATUSES \<or> \<not> is_uuid i then pure_result False s
           else db_best_effort q s) s = (b, s')"
    using assms unfolding transition_def q_def .
  from guarded_write [OF this] q show ?thesis
    by (cases b) (auto simp: same_tables_def)
qed

lemma reopen_effect:
  assumes "reopen l i reason s = (b, s')"
  shows "same_world s s' \<and> st_coverage s' = st_coverage s \<and>
    (if b then (\<exists>r \<in> set (st_findings s). reopen_hits l i r)
            \<and> raises l i (st_findings s) (st_findings s')
     else st_findings s' = st_findings s)"
proof -
  define q where "q = (\<lambda>s. let (n, s') = update_where (reopen_hits l i)
      (\<lambda>r. r\<lparr>fr_status := ''open'', fr_reason := clip reason, fr_reopened := fr_reopened r + 1,
              fr_updated := now s\<rparr>) s in (n \<noteq> 0, s'))"
  have q: "same_world s s1 \<and> st_coverage s1 = st_coverage s
      \<and> (c \<longleftrightarrow> (\<exists>r \<in> set (st_findings s). reopen_hits l i r))
      \<and> raises l i (st_findings s) (st_findings s1)
      \<and> (\<not> c \<longrightarrow> st_findings s1 = st_findings s)"
    if "q s = (c, s1)" for c s1
  proof -
    from that obtain n where n: "update_where (reopen_hits l i)
      (\<lambda>r. r\<lparr>fr_status := ''open'', fr_reason := clip reason, fr_reopened := fr_reopened r + 1,
              fr_updated := now s\<rparr>) s = (n, s1)"
      "c = (n \<noteq> 0)" unfolding q_def by (auto split: prod.splits)
    from update_where_hits [OF n(1)] n(2) show ?thesis
      by (auto simp: raisesI intro: map_if_none)
  qed
  have "best_effort ''reopen'' False
      (\<lambda>s. if \<not> is_uuid i then pure_result False s else db_best_effort q s) s = (b, s')"
    using assms unfolding reopen_def q_def .
  from guarded_write [OF this] q show ?thesis
    by (cases b) (auto simp: same_tables_def)
qed


lemma touch_effect:
  assumes "touch_findings l (StrSeq ids) s = (n, s')"
  shows "same_world s s' \<and> st_coverage s' = st_coverage s
    \<and> (st_findings s' = st_findings s \<or> touches l (st_findings s) (st_findings s'))"
proof -
  define q where "q = (\<lambda>s. update_where (touch_hits l (filter is_uuid ids))
      (\<lambda>r. r\<lparr>fr_updated := now s\<rparr>) s)"
  have q: "same_world s s1 \<and> st_coverage s1 = st_coverage s
      \<and> touches l (st_findings s) (st_findings s1)" if "q s = (c, s1)" for c s1
  proof -
    have "st_findings s1 = map (\<lambda>r. if fr_lane r = l \<and> touch_hits l (filter is_uuid ids) r
        then r\<lparr>fr_updated := now s\<rparr> else r) (st_findings s)"
      using update_where_hits [OF that [unfolded q_def]] by (auto simp: touch_hits_def)
    then show ?thesis
      using update_where_hits [OF that [unfolded q_def]] by (simp only: touchesI)
  qed
  have "best_effort ''touch_findings'' 0
      (\<lambda>s. if filter is_uuid ids = [] then pure_result 0 s else db_best_effort q s) s = (n, s')"
    using assms unfolding touch_findings_def q_def by (simp add: Let_def)
  from guarded_write [OF this] q show ?thesis
    by (auto simp: same_tables_def)
qed

lemma insert_findings_effect:
  "st_findings (insert_findings l rnd head fs s) =
     st_findings s @ map (\<lambda>(k, f). new_finding_row (st_uuid s (st_next s + k)) (now s) l rnd head f)
       (enumerate 0 fs)
   \<and> same_world s (insert_findings l rnd head fs s)
   \<and> st_coverage (insert_findings l rnd head fs s) = st_coverage s"
proof -
  have shift: "enumerate (Suc n) fs = map (\<lambda>(k, f). (Suc k, f)) (enumerate n fs)"
    for n and fs :: "agentic_finding list"
    by (induction fs arbitrary: n) (simp_all add: enumerate_simps)
  show ?thesis
    by (induction fs arbitrary: s)
      (simp_all add: enumerate_simps same_world_def now_def shift comp_def case_prod_beta)
qed

lemma list_all2_map_enumerate:
  "list_all2 (\<lambda>f r. \<exists>i t. r = new_finding_row i t l rnd head f) fs
     (map (\<lambda>(k, f). new_finding_row (g k) t l rnd head f) (enumerate n fs))"
  by (induction fs arbitrary: n) (auto simp: enumerate_simps)

lemma record_effect:
  assumes "record_findings l rnd head fs s = (n, s')"
  shows "same_world s s' \<and> st_coverage s' = st_coverage s
    \<and> (n = 0 \<and> st_findings s' = st_findings s \<and> (store_up s \<longrightarrow> fs = [])
       \<or> n = length fs \<and> appends l rnd head fs (st_findings s) (st_findings s'))"
proof -
  have "best_effort ''record_findings'' 0 (\<lambda>s. if fs = [] then pure_result 0 s
      else db_best_effort (\<lambda>s. (length fs, insert_findings l rnd head fs s)) s) s = (n, s')"
    using assms unfolding record_findings_def .
  from guarded_write [OF this] insert_findings_effect [of l rnd head fs s] show ?thesis
    by (auto simp: same_tables_def appends_def list_all2_map_enumerate)
qed

definition expires :: "lane \<Rightarrow> coverage_row list \<Rightarrow> coverage_row list \<Rightarrow> bool" where
  "expires l rs rs' \<longleftrightarrow>
     (\<exists>p t. rs' = map (\<lambda>r. if cr_lane r = l \<and> cr_expired r = None \<and> p r
                        then r\<lparr>cr_expired := Some t\<rparr> else r) rs)"

definition covers ::
  "lane \<Rightarrow> int \<Rightarrow> string \<Rightarrow> examined_region list \<Rightarrow> coverage_row list \<Rightarrow> coverage_row list \<Rightarrow> bool" where
  "covers l rnd head es rs rs' \<longleftrightarrow>
     (\<exists>news. rs' = rs @ news \<and>
        list_all2 (\<lambda>e r. \<exists>i t. r = new_coverage_row i t l rnd head e) es news)"

lemma expires_refl: "expires l rs rs"
  unfolding expires_def by (rule exI [of _ "\<lambda>_. False"]) simp

lemma expire_where_effect:
  assumes "expire_where (expire_hits l files) s = (n, s')"
  shows "same_world s s' \<and> st_findings s' = st_findings s
    \<and> expires l (st_coverage s) (st_coverage s')
    \<and> n = length (filter (expire_hits l files) (st_coverage s))
    \<and> (\<forall>r \<in> set (st_coverage s'). \<not> expire_hits l files r)"
proof -
  let ?p = "\<lambda>r. case files of None \<Rightarrow> True | Some fs \<Rightarrow> cr_file r \<in> clip ` set fs"
  have s': "s' = s\<lparr>st_coverage := map (\<lambda>r. if expire_hits l files r
      then r\<lparr>cr_expired := Some (now s)\<rparr> else r) (st_coverage s)\<rparr>"
    and n: "n = length (filter (expire_hits l files) (st_coverage s))"
    using assms by (simp_all add: expire_where_def)
  have "st_coverage s' = map (\<lambda>r. if cr_lane r = l \<and> cr_expired r = None \<and> ?p r
      then r\<lparr>cr_expired := Some (now s)\<rparr> else r) (st_coverage s)"
    unfolding s' expire_hits_def by simp
  then have "expires l (st_coverage s) (st_coverage s')"
    unfolding expires_def by (rule exI [of _ "now s", THEN exI [of _ ?p]])
  moreover have "\<not> expire_hits l files (r\<lparr>cr_expired := Some (now s)\<rparr>)" for r
    by (simp add: expire_hits_def)
  then have "\<forall>r \<in> set (st_coverage s'). \<not> expire_hits l files r"
    unfolding s' by (simp add: ball_Un)
  moreover have "same_world s s'" "st_findings s' = st_findings s"
    unfolding s' same_world_def by simp_all
  ultimately show ?thesis
    using n by blast
qed

lemma expire_effect:
  assumes "expire_coverage l (Some (StrSeq fs)) s = (n, s')"
  shows "same_world s s' \<and> st_findings s' = st_findings s
    \<and> expires l (st_coverage s) (st_coverage s')
    \<and> (store_up s \<longrightarrow> (\<forall>r \<in> set (st_coverage s'). \<not> expire_hits l (Some fs) r))"
proof -
  let ?q = "expire_where (expire_hits l (Some fs))"
  have b: "best_effort ''expire_coverage'' 0 (\<lambda>s. if fs = [] then pure_result 0 s
      else db_best_effort ?q s) s = (n, s')"
    using assms unfolding expire_coverage_def by simp
  have w: "\<And>a s1. ?q s = (a, s1) \<Longrightarrow> same_world s s1"
    by (drule expire_where_effect) (elim conjE)
  have g: "same_world s s' \<and> (n = 0 \<and> same_tables s s' \<and> (fs = [] \<or> \<not> store_up s)
       \<or> fs \<noteq> [] \<and> (\<exists>s1. ?q s = (n, s1) \<and> st_findings s' = st_findings s1
              \<and> st_coverage s' = st_coverage s1))"
    by (rule guarded_write [OF b]) (rule w)
  then have "same_world s s'" by (rule conjunct1)
  from conjunct2 [OF g] show ?thesis
  proof (elim disjE conjE exE)
    assume "same_tables s s'" "fs = []"
    then show ?thesis by (simp add: same_tables_def expires_refl expire_hits_def)
  next
    assume "same_tables s s'" "\<not> store_up s"
    then show ?thesis by (simp add: same_tables_def expires_refl)
  next
    fix s1 assume "?q s = (n, s1)" "st_findings s' = st_findings s1" "st_coverage s' = st_coverage s1"
    with expire_where_effect [OF this(1)] \<open>same_world s s'\<close> show ?thesis by simp
  qed
qed

lemma insert_coverage_effect:
  "\<exists>news. st_coverage (insert_coverage l rnd head es s) = st_coverage s @ news
     \<and> list_all2 (\<lambda>e r. \<exists>i t. r = new_coverage_row i t l rnd head e) es news
   \<and> same_world s (insert_coverage l rnd head es s)
   \<and> st_findings (insert_coverage l rnd head es s) = st_findings s"
proof (induction es arbitrary: s)
  case (Cons e es)
  let ?r = "new_coverage_row (st_uuid s (st_next s)) (now s) l rnd head e"
  from Cons.IH [of "s\<lparr>st_coverage := st_coverage s @ [?r], st_next := Suc (st_next s)\<rparr>"]
  obtain news where
    "st_coverage (insert_coverage l rnd head (e # es) s) = st_coverage s @ ?r # news"
    "list_all2 (\<lambda>e r. \<exists>i t. r = new_coverage_row i t l rnd head e) es news"
    "same_world s (insert_coverage l rnd head (e # es) s)"
    "st_findings (insert_coverage l rnd head (e # es) s) = st_findings s"
    by (auto simp: same_world_def)
  then show ?case by (intro exI [of _ "?r # news"]) auto
qed (simp add: same_world_def)

lemma record_coverage_effect:
  assumes "record_coverage l rnd head es s = (n, s')"
  shows "same_world s s' \<and> st_findings s' = st_findings s
    \<and> (n = 0 \<and> st_coverage s' = st_coverage s
       \<or> n = length es \<and> covers l rnd head es (st_coverage s) (st_coverage s'))"
proof -
  have "best_effort ''record_coverage'' 0 (\<lambda>s. if es = [] then pure_result 0 s
      else db_best_effort (\<lambda>s. (length es, insert_coverage l rnd head es s)) s) s = (n, s')"
    using assms unfolding record_coverage_def .
  from guarded_write [OF this] insert_coverage_effect [of l rnd head es s] show ?thesis
    by (auto simp: same_tables_def covers_def)
qed

text \<open>The rows a read returns are rows of the table, in the state the statement selects.\<close>

lemma in_open_window:
  "r \<in> set (open_window l s) \<longleftrightarrow> r \<in> set (st_findings s) \<and> fr_lane r = l \<and> fr_status r = ''open''
     \<and> fr_updated r > now s - days_us RETENTION_DAYS"
  by (auto simp: open_window_def)

lemma open_effect:
  assumes "open_findings l limit s = (ol, s')"
  shows "same_tables s s' \<and>
    (\<exists>rows. ol_rows ol = map (\<lambda>r. \<lparr>sf_id = fr_id r, sf_prior = prior_of_row r\<rparr>) rows
       \<and> set rows \<subseteq> {r \<in> set (st_findings s). fr_lane r = l \<and> fr_status r = ''open''}
       \<and> (distinct (st_findings s) \<longrightarrow> distinct rows)
       \<and> 0 \<le> ol_truncated ol)"
proof -
  have r: "same_tables s s'" "ol = empty_open_ledger \<or> ol = read_open l limit s"
    using guarded_read [OF assms [unfolded open_findings_def]] by simp_all
  let ?rows = "take (read_limit limit MAX_OPEN_FINDINGS) (open_window l s)"
  have sub: "set ?rows \<subseteq> {r \<in> set (st_findings s). fr_lane r = l \<and> fr_status r = ''open''}"
    by (auto simp: in_open_window dest: in_set_takeD)
  have dis: "distinct (st_findings s) \<longrightarrow> distinct ?rows"
    by (simp add: open_window_def)
  from r(2) show ?thesis
  proof
    assume "ol = empty_open_ledger"
    with r show ?thesis by (intro conjI exI [of _ "[]"]) (simp_all add: empty_open_ledger_def)
  next
    assume "ol = read_open l limit s"
    with r sub dis show ?thesis
      by (intro conjI exI [of _ ?rows]) (simp_all add: read_open_def Let_def)
  qed
qed

lemma settled_effect:
  assumes "settled_findings l limit s = (rows, s')"
  shows "same_tables s s' \<and>
    (\<forall>x \<in> set rows. \<exists>r \<in> set (st_findings s). sd_id x = fr_id r \<and> sd_file x = fr_file r
       \<and> sd_title x = fr_title r \<and> fr_lane r = l \<and> fr_status r \<in> set REOPENABLE_STATUSES)"
proof -
  note r = guarded_read [OF assms [unfolded settled_findings_def]]
  have mem: "r \<in> set (st_findings s) \<and> fr_lane r = l \<and> fr_status r \<in> set REOPENABLE_STATUSES"
    if "r \<in> set (take k (settled_window l s))" for r k
    using in_set_takeD [OF that] by (simp add: settled_window_def)
  have "\<exists>r \<in> set (st_findings s). sd_id x = fr_id r \<and> sd_file x = fr_file r
       \<and> sd_title x = fr_title r \<and> fr_lane r = l \<and> fr_status r \<in> set REOPENABLE_STATUSES"
    if "x \<in> set rows" for x
  proof -
    from r that obtain r0 where "r0 \<in> set (take (read_limit limit MAX_SETTLED_FINDINGS) (settled_window l s))"
      "x = \<lparr>sd_id = fr_id r0, sd_file = fr_file r0, sd_title = fr_title r0,
            sd_status = fr_status r0, sd_round = fr_round r0, sd_reason = fr_reason r0\<rparr>" by auto
    with mem show ?thesis by (intro bexI [of _ r0]) auto
  qed
  with r show ?thesis by blast
qed

lemma live_effect: "live_coverage l limit s = (cs, s') \<Longrightarrow> same_tables s s'"
  unfolding live_coverage_def by (drule guarded_read) (elim conjE)

lemma next_round_effect: "next_round l s = (k, s') \<Longrightarrow> same_tables s s'"
  unfolding next_round_def by (drule guarded_read) (elim conjE)

end
