(* ===== verification/Review_Lifecycle.thy ===== *)
theory Review_Lifecycle
  imports Review_State
begin

text \<open>
  The life of the rows of \<open>sidecar/review_state.py\<close>. The operations of the module are the steps
  of a relation on the store; what every sequence of them keeps is proved by rule induction:
  statuses stay in the vocabulary, a stale finding and an expired coverage row are final, and no
  row ever disappears or changes its finding. The properties of the single operations follow.
\<close>

section \<open>The steps of the store\<close>

inductive store_step :: "store \<Rightarrow> store \<Rightarrow> bool" where
  recorded: "record_findings l rnd head fs s = (n, s') \<Longrightarrow> store_step s s'"
| moved: "transition l i status reason s = (b, s') \<Longrightarrow> store_step s s'"
| raised: "reopen l i reason s = (b, s') \<Longrightarrow> store_step s s'"
| touched: "touch_findings l ids s = (n, s') \<Longrightarrow> store_step s s'"
| covered: "record_coverage l rnd head es s = (n, s') \<Longrightarrow> store_step s s'"
| expired: "expire_coverage l files s = (n, s') \<Longrightarrow> store_step s s'"
| read_open: "open_findings l limit s = (ol, s') \<Longrightarrow> store_step s s'"
| read_settled: "settled_findings l limit s = (rows, s') \<Longrightarrow> store_step s s'"
| read_live: "live_coverage l limit s = (cs, s') \<Longrightarrow> store_step s s'"
| read_round: "next_round l s = (k, s') \<Longrightarrow> store_step s s'"

inductive_cases store_stepE: "store_step s s'"

inductive store_reach :: "store \<Rightarrow> store \<Rightarrow> bool" where
  start: "store_reach s s"
| step: "store_reach s t \<Longrightarrow> store_step t u \<Longrightarrow> store_reach s u"

text \<open>A row's life: the finding is kept, an absorbing status is kept with the whole row, and any
  new status is one of the four words. A coverage row's expiry is set once.\<close>

definition row_life :: "finding_row \<Rightarrow> finding_row \<Rightarrow> bool" where
  "row_life r r' \<longleftrightarrow>
     fr_id r' = fr_id r \<and> fr_lane r' = fr_lane r \<and> fr_round r' = fr_round r
     \<and> fr_file r' = fr_file r \<and> fr_line r' = fr_line r \<and> fr_title r' = fr_title r
     \<and> fr_body r' = fr_body r \<and> fr_evidence r' = fr_evidence r \<and> fr_created r' = fr_created r
     \<and> fr_reopened r \<le> fr_reopened r'
     \<and> (fr_status r \<notin> {''open'', ''fixed'', ''rejected''} \<longrightarrow> r' = r)
     \<and> (fr_status r' = fr_status r \<or> fr_status r' \<in> set FINDING_STATUSES)
     \<and> (fr_status r \<in> set REOPENABLE_STATUSES \<longrightarrow> fr_status r' \<noteq> fr_status r
          \<longrightarrow> fr_reopened r < fr_reopened r')"

definition cover_life :: "coverage_row \<Rightarrow> coverage_row \<Rightarrow> bool" where
  "cover_life r r' \<longleftrightarrow>
     r' = r\<lparr>cr_expired := cr_expired r'\<rparr> \<and> (cr_expired r \<noteq> None \<longrightarrow> r' = r)"

text \<open>A table's life: its rows live on in place, and rows that enter are open and were never
  raised again.\<close>

definition table_life :: "finding_row list \<Rightarrow> finding_row list \<Rightarrow> bool" where
  "table_life rs rs' \<longleftrightarrow> (\<exists>mid news. rs' = mid @ news \<and> list_all2 row_life rs mid
     \<and> (\<forall>r \<in> set news. fr_status r = ''open'' \<and> fr_reopened r = 0))"

definition cover_table_life :: "coverage_row list \<Rightarrow> coverage_row list \<Rightarrow> bool" where
  "cover_table_life rs rs' \<longleftrightarrow> (\<exists>mid news. rs' = mid @ news \<and> list_all2 cover_life rs mid
     \<and> (\<forall>r \<in> set news. cr_expired r = None))"

lemma row_life_refl: "row_life r r"
  by (simp add: row_life_def)

lemma cover_life_refl: "cover_life r r"
  by (simp add: cover_life_def)

lemma table_life_map: "(\<And>r. r \<in> set rs \<Longrightarrow> row_life r (f r)) \<Longrightarrow> table_life rs (map f rs)"
  unfolding table_life_def
  by (intro exI [of _ "map f rs"] exI [of _ "[]"]) (simp add: list_all2_conv_all_nth)

lemma table_life_refl: "table_life rs rs"
  using table_life_map [of rs "\<lambda>r. r"] row_life_refl by simp

lemma cover_table_life_refl: "cover_table_life rs rs"
  unfolding cover_table_life_def
  by (intro exI [of _ rs] exI [of _ "[]"]) (simp add: list.rel_refl cover_life_refl)

lemma statuses_in [simp]: "''open'' \<in> set FINDING_STATUSES"
  by (simp add: FINDING_STATUSES_def)

lemma closes_life: "closes l i st rs rs' \<Longrightarrow> st \<in> set FINDING_STATUSES \<Longrightarrow> table_life rs rs'"
  unfolding closes_def
  by (auto intro!: table_life_map simp: row_life_def transition_hits_def REOPENABLE_STATUSES_def)

lemma raises_life: "raises l i rs rs' \<Longrightarrow> table_life rs rs'"
  unfolding raises_def
  by (auto intro!: table_life_map simp: row_life_def reopen_hits_def REOPENABLE_STATUSES_def)

lemma touched_life:
  "\<exists>t. rs' = map (\<lambda>r. if touch_hits l ids r then r\<lparr>fr_updated := t\<rparr> else r) rs \<Longrightarrow> table_life rs rs'"
  by (auto intro!: table_life_map simp: row_life_def touch_hits_def)

lemma appends_life: "appends l rnd head fs rs rs' \<Longrightarrow> table_life rs rs'"
  unfolding appends_def table_life_def
proof (elim exE conjE)
  fix news assume a: "rs' = rs @ news"
    "list_all2 (\<lambda>f r. \<exists>i t. r = new_finding_row i t l rnd head f) fs news"
  from a(2) have "\<forall>r \<in> set news. fr_status r = ''open'' \<and> fr_reopened r = 0"
    by (induction rule: list_all2_induct) (auto simp: new_finding_row_def)
  with a(1) show "\<exists>mid news. rs' = mid @ news \<and> list_all2 row_life rs mid
      \<and> (\<forall>r \<in> set news. fr_status r = ''open'' \<and> fr_reopened r = 0)"
    by (intro exI [of _ rs] exI [of _ news]) (simp add: list.rel_refl row_life_refl)
qed

lemma expires_life: "expires l rs rs' \<Longrightarrow> cover_table_life rs rs'"
  unfolding expires_def cover_table_life_def
  by (elim exE, intro exI [of _ rs'] exI [of _ "[]"])
    (auto simp: list_all2_conv_all_nth cover_life_def)

lemma covers_life: "covers l rnd head es rs rs' \<Longrightarrow> cover_table_life rs rs'"
  unfolding covers_def cover_table_life_def
proof (elim exE conjE)
  fix news assume a: "rs' = rs @ news"
    "list_all2 (\<lambda>e r. \<exists>i t. r = new_coverage_row i t l rnd head e) es news"
  from a(2) have "\<forall>r \<in> set news. cr_expired r = None"
    by (induction rule: list_all2_induct) (auto simp: new_coverage_row_def)
  with a(1) show "\<exists>mid news. rs' = mid @ news \<and> list_all2 cover_life rs mid
      \<and> (\<forall>r \<in> set news. cr_expired r = None)"
    by (intro exI [of _ rs] exI [of _ news]) (simp add: list.rel_refl cover_life_refl)
qed

text \<open>The two operations that also accept a bare string, and its refusal.\<close>

lemma bare_string:
  "best_effort name d (\<lambda>s. (None, s)) s = (a, s') \<Longrightarrow> same_tables s s'"
  by (auto simp: best_effort_def same_tables_def same_world_def split: if_splits)

lemma touch_rows:
  assumes "touch_findings l ids s = (n, s')"
  shows "st_coverage s' = st_coverage s \<and> (st_findings s' = st_findings s \<or>
    (\<exists>ks t. st_findings s' =
       map (\<lambda>r. if touch_hits l ks r then r\<lparr>fr_updated := t\<rparr> else r) (st_findings s)))"
proof (cases ids)
  case (BareStr b)
  with assms have "best_effort ''touch_findings'' 0 (\<lambda>s. (None, s)) s = (n, s')"
    by (simp add: touch_findings_def)
  from bare_string [OF this] show ?thesis by (simp add: same_tables_def)
next
  case (StrSeq xs)
  let ?ks = "filter is_uuid xs"
  let ?q = "\<lambda>s. update_where (touch_hits l ?ks) (\<lambda>r. r\<lparr>fr_updated := now s\<rparr>) s"
  have b: "best_effort ''touch_findings'' 0
      (\<lambda>s. if ?ks = [] then pure_result 0 s else db_best_effort ?q s) s = (n, s')"
    using assms StrSeq by (simp add: touch_findings_def Let_def)
  have w: "\<And>a s1. ?q s = (a, s1) \<Longrightarrow> same_world s s1"
    by (drule update_where_hits) (elim conjE)
  have "same_world s s' \<and> (n = 0 \<and> same_tables s s' \<and> (?ks = [] \<or> \<not> store_up s)
      \<or> ?ks \<noteq> [] \<and> (\<exists>s1. ?q s = (n, s1) \<and> st_findings s' = st_findings s1
             \<and> st_coverage s' = st_coverage s1))"
    by (rule guarded_write [OF b]) (rule w)
  then consider "same_tables s s'" | s1 where "?q s = (n, s1)" "st_findings s' = st_findings s1"
      "st_coverage s' = st_coverage s1"
    by blast
  then show ?thesis
    by cases (auto simp: same_tables_def dest!: update_where_hits)
qed

lemma expire_rows:
  assumes "expire_coverage l files s = (n, s')"
  shows "st_findings s' = st_findings s \<and> expires l (st_coverage s) (st_coverage s')"
proof (cases files)
  case None
  with assms have "best_effort ''expire_coverage'' 0
      (db_best_effort (expire_where (expire_hits l None))) s = (n, s')"
    by (simp add: expire_coverage_def)
  moreover have "\<And>a s1. expire_where (expire_hits l None) s = (a, s1) \<Longrightarrow> same_world s s1"
    by (drule expire_where_effect) (elim conjE)
  ultimately consider "same_tables s s'"
    | s1 where "expire_where (expire_hits l None) s = (n, s1)" "st_findings s' = st_findings s1"
        "st_coverage s' = st_coverage s1"
    using guarded_db [of "''expire_coverage''" 0 "expire_where (expire_hits l None)" s n s'] by blast
  then show ?thesis
  proof cases
    case 1
    then show ?thesis by (simp add: same_tables_def expires_refl)
  next
    case 2
    with expire_where_effect [OF 2(1)] show ?thesis by simp
  qed
next
  case (Some fs)
  show ?thesis
  proof (cases fs)
    case (BareStr b)
    with assms Some have "best_effort ''expire_coverage'' 0 (\<lambda>s. (None, s)) s = (n, s')"
      by (simp add: expire_coverage_def)
    from bare_string [OF this] show ?thesis by (simp add: same_tables_def expires_refl)
  next
    case (StrSeq gs)
    with assms Some expire_effect [of l gs s n s'] show ?thesis by simp
  qed
qed

section \<open>What every step keeps\<close>

lemma step_life:
  assumes "store_step s s'"
  shows "table_life (st_findings s) (st_findings s') \<and> cover_table_life (st_coverage s) (st_coverage s')"
  using assms
proof (cases rule: store_step.cases)
  case (recorded l rnd head fs n)
  from record_effect [OF recorded] show ?thesis
    by (auto simp: table_life_refl cover_table_life_refl intro: appends_life)
next
  case (moved l i status reason b)
  from transition_effect [OF moved] show ?thesis
    by (auto simp: table_life_refl cover_table_life_refl intro: closes_life split: if_splits)
next
  case (raised l i reason b)
  from reopen_effect [OF raised] show ?thesis
    by (auto simp: table_life_refl cover_table_life_refl intro: raises_life split: if_splits)
next
  case (touched l ids n)
  from touch_rows [OF touched] show ?thesis
    by (metis table_life_refl cover_table_life_refl touched_life)
next
  case (covered l rnd head es n)
  from record_coverage_effect [OF covered] show ?thesis
    by (auto simp: table_life_refl cover_table_life_refl intro: covers_life)
next
  case (expired l files n)
  from expire_rows [OF expired] show ?thesis
    by (auto simp: table_life_refl intro: expires_life)
next
  case (read_open l limit ol)
  from open_effect [OF read_open] show ?thesis
    by (simp add: same_tables_def table_life_refl cover_table_life_refl)
next
  case (read_settled l limit rows)
  from settled_effect [OF read_settled] show ?thesis
    by (simp add: same_tables_def table_life_refl cover_table_life_refl)
next
  case (read_live l limit cs)
  from live_effect [OF read_live] show ?thesis
    by (simp add: same_tables_def table_life_refl cover_table_life_refl)
next
  case (read_round l k)
  from next_round_effect [OF read_round] show ?thesis
    by (simp add: same_tables_def table_life_refl cover_table_life_refl)
qed

lemma table_life_nth:
  assumes "table_life rs rs'" "i < length rs"
  shows "i < length rs' \<and> row_life (rs ! i) (rs' ! i)"
  using assms unfolding table_life_def by (auto simp: list_all2_conv_all_nth nth_append)

lemma cover_table_life_nth:
  assumes "cover_table_life rs rs'" "i < length rs"
  shows "i < length rs' \<and> cover_life (rs ! i) (rs' ! i)"
  using assms unfolding cover_table_life_def by (auto simp: list_all2_conv_all_nth nth_append)

lemma table_life_vocabulary:
  assumes "table_life rs rs'" "\<forall>r \<in> set rs. fr_status r \<in> set FINDING_STATUSES"
  shows "\<forall>r \<in> set rs'. fr_status r \<in> set FINDING_STATUSES"
proof -
  from assms(1) obtain mid news where m: "rs' = mid @ news" "list_all2 row_life rs mid"
    "\<forall>r \<in> set news. fr_status r = ''open'' \<and> fr_reopened r = 0"
    unfolding table_life_def by blast
  from m(2) assms(2) have "\<forall>r \<in> set mid. fr_status r \<in> set FINDING_STATUSES"
    by (induction rule: list_all2_induct) (auto simp: row_life_def)
  with m(1,3) show ?thesis by auto
qed

section \<open>A sample store\<close>

text \<open>
  Two open findings and a settled one in one lane, and a row of another seat. Properties with a
  hypothesis are applied to it.
\<close>

definition sample_lane :: lane where "sample_lane = (''o/r'', 7, '''')"

definition sample_id :: "char \<Rightarrow> string" where "sample_id c = replicate 32 c"

definition sample_row :: "char \<Rightarrow> lane \<Rightarrow> string \<Rightarrow> string \<Rightarrow> finding_row" where
  "sample_row c l file status =
     \<lparr>fr_id = sample_id c, fr_lane = l, fr_round = 1, fr_head = ''abc'', fr_file = file,
      fr_line = Some 3, fr_severity = ''high'', fr_category = ''bug'', fr_title = ''Leak'',
      fr_body = ''b'', fr_evidence = ''e'', fr_status = status, fr_reason = '''', fr_reopened = 0,
      fr_created = 0, fr_updated = 0\<rparr>"

definition sample_store :: store where
  "sample_store =
     \<lparr>st_enabled = True, st_answers = (\<lambda>_. True), st_clock = (\<lambda>n. int n),
      st_uuid = (\<lambda>n. sample_id (if n = 0 then CHR ''f'' else CHR ''0'')), st_calls = 0, st_next = 0,
      st_findings = [sample_row (CHR ''a'') sample_lane ''a.py'' ''open'',
                     sample_row (CHR ''b'') sample_lane ''gone.py'' ''open'',
                     sample_row (CHR ''c'') sample_lane ''c.py'' ''rejected'',
                     sample_row (CHR ''e'') (''o/r'', 7, ''b'') ''a.py'' ''open''],
      st_coverage = [], st_failed = []\<rparr>"

lemma sample_up: "store_up sample_store"
  by (simp add: store_up_def sample_store_def)

definition sample_step :: "bool \<times> store" where
  "sample_step = transition sample_lane (sample_id (CHR ''a'')) ''stale'' ''gone'' sample_store"

definition sample_again :: "bool \<times> store" where
  "sample_again = reopen sample_lane (sample_id (CHR ''a'')) ''back'' (snd sample_step)"

lemma sample_reach: "store_reach sample_store (snd sample_step)"
  by (rule store_reach.step [OF store_reach.start])
    (rule store_step.moved, unfold sample_step_def, rule surjective_pairing)

lemma sample_reach_again: "store_reach (snd sample_step) (snd sample_again)"
  by (rule store_reach.step [OF store_reach.start])
    (rule store_step.raised, unfold sample_again_def, rule surjective_pairing)

lemma sample_step_rows: "map fr_status (st_findings (snd sample_step)) = [''stale'', ''open'', ''rejected'', ''open'']"
  by code_simp

section \<open>Properties of the store\<close>

text \<open>C40: every status a sequence of operations can write is in the module's vocabulary: from
  tables whose statuses are open, fixed, rejected or stale, only such tables are reached.\<close>

theorem statuses_stay_in_vocabulary:
  assumes "store_reach s s'" "\<forall>r \<in> set (st_findings s). fr_status r \<in> set FINDING_STATUSES"
  shows "\<forall>r \<in> set (st_findings s'). fr_status r \<in> set FINDING_STATUSES"
  using assms
proof (induction rule: store_reach.induct)
  case (step s t u)
  with step_life [OF step(2)] table_life_vocabulary show ?case by blast
qed

theorem statuses_stay_in_vocabulary_witness:
  "list_all (\<lambda>r. fr_status r \<in> set FINDING_STATUSES) (st_findings (snd sample_step))"
  unfolding list_all_iff by (rule statuses_stay_in_vocabulary [OF sample_reach])
    (simp add: sample_store_def sample_row_def FINDING_STATUSES_def)

text \<open>Rows are permanent. Through any sequence of operations a findings row keeps its place,
  its id, lane, round and text, and its count of re-raises never drops.\<close>

theorem rows_are_permanent:
  assumes "store_reach s s'" "i < length (st_findings s)"
  shows "i < length (st_findings s')
    \<and> fr_id (st_findings s' ! i) = fr_id (st_findings s ! i)
    \<and> fr_lane (st_findings s' ! i) = fr_lane (st_findings s ! i)
    \<and> fr_round (st_findings s' ! i) = fr_round (st_findings s ! i)
    \<and> fr_file (st_findings s' ! i) = fr_file (st_findings s ! i)
    \<and> fr_title (st_findings s' ! i) = fr_title (st_findings s ! i)
    \<and> fr_body (st_findings s' ! i) = fr_body (st_findings s ! i)
    \<and> fr_reopened (st_findings s ! i) \<le> fr_reopened (st_findings s' ! i)"
  using assms
proof (induction rule: store_reach.induct)
  case (step s t u)
  then have "i < length (st_findings t)" by blast
  with step_life [OF step(2)] have "i < length (st_findings u) \<and> row_life (st_findings t ! i) (st_findings u ! i)"
    by (blast dest: table_life_nth)
  with step show ?case by (auto simp: row_life_def)
qed simp

theorem rows_are_permanent_witness: "fr_file (st_findings (snd sample_step) ! 1) = ''gone.py''"
  using rows_are_permanent [OF sample_reach, of 1] by (simp add: sample_store_def sample_row_def)

text \<open>\<open>stale\<close> is final and so is an expiry: a stale findings row and an expired coverage row
  are exactly the same rows after any sequence of operations.\<close>

theorem stale_and_expired_are_final:
  assumes "store_reach s s'"
  shows "(\<forall>i < length (st_findings s). fr_status (st_findings s ! i) = ''stale''
            \<longrightarrow> st_findings s' ! i = st_findings s ! i)
       \<and> (\<forall>i < length (st_coverage s). cr_expired (st_coverage s ! i) \<noteq> None
            \<longrightarrow> st_coverage s' ! i = st_coverage s ! i)"
proof -
  have "(i < length (st_findings s) \<longrightarrow> i < length (st_findings s') \<and>
           (fr_status (st_findings s ! i) = ''stale'' \<longrightarrow> st_findings s' ! i = st_findings s ! i))
      \<and> (i < length (st_coverage s) \<longrightarrow> i < length (st_coverage s') \<and>
           (cr_expired (st_coverage s ! i) \<noteq> None \<longrightarrow> st_coverage s' ! i = st_coverage s ! i))" for i
    using assms
  proof (induction rule: store_reach.induct)
    case (step s t u)
    with step_life [OF step(2)] show ?case
      by (auto simp: row_life_def cover_life_def dest!: table_life_nth [where i = i] cover_table_life_nth [where i = i])
  qed simp
  then show ?thesis by blast
qed

theorem stale_and_expired_are_final_witness:
  "st_findings (snd sample_again) ! 0 = st_findings (snd sample_step) ! 0"
proof -
  have "0 < length (st_findings (snd sample_step)) \<and> fr_status (st_findings (snd sample_step) ! 0) = ''stale''"
    using sample_step_rows by (cases "st_findings (snd sample_step)") simp_all
  then show ?thesis using stale_and_expired_are_final [OF sample_reach_again] by blast
qed

text \<open>On a store that answers, \<open>next_round\<close> is strictly above every round already recorded for
  the lane in either ledger, and is 1 only when nothing was.\<close>

theorem next_round_is_fresh:
  assumes "store_up s" "next_round l s = (k, s')"
  shows "(\<forall>r \<in> set (st_findings s). fr_lane r = l \<longrightarrow> fr_round r < k)
    \<and> (\<forall>r \<in> set (st_coverage s). cr_lane r = l \<longrightarrow> cr_round r < k)
    \<and> (k = 1 \<or> k - 1 \<in> set (lane_rounds l s))"
proof -
  have k: "k = (case lane_rounds l s of [] \<Rightarrow> 0 | x # xs \<Rightarrow> fold max xs x) + 1"
    using guarded_read [OF assms(2) [unfolded next_round_def]] assms(1) by simp
  have mx: "fold max xs x = Max (set (x # xs))" for xs and x :: int
    by (rule Max.set_eq_fold [symmetric])
  show ?thesis
  proof (cases "lane_rounds l s")
    case Nil
    then show ?thesis using k by (auto simp: lane_rounds_def filter_empty_conv)
  next
    case (Cons x xs)
    then have "k = Max (set (lane_rounds l s)) + 1" using k mx by simp
    moreover have "Max (set (lane_rounds l s)) \<in> set (lane_rounds l s)"
      using Cons by (intro Max_in) simp_all
    moreover have "n \<le> Max (set (lane_rounds l s))" if "n \<in> set (lane_rounds l s)" for n
      using that by simp
    ultimately have "(\<forall>n \<in> set (lane_rounds l s). n < k) \<and> k - 1 \<in> set (lane_rounds l s)"
      by (metis add_diff_cancel_right' zle_add1_eq_le)
    then show ?thesis by (simp add: lane_rounds_def ball_Un)
  qed
qed

theorem next_round_is_fresh_witness:
  "list_all (\<lambda>r. fr_round r < fst (next_round sample_lane sample_store))
     (filter (\<lambda>r. fr_lane r = sample_lane) (st_findings sample_store))"
  using next_round_is_fresh [OF sample_up surjective_pairing [of "next_round sample_lane sample_store"]]
  by (simp add: list_all_iff)

text \<open>What a read leaves out is counted. On a store that answers, \<open>open_findings\<close> returns the
  oldest rows of the lane's open window, at least one and at most 200 of them, and the rows
  returned plus the rows reported as truncated are the whole window.\<close>

theorem open_findings_accounts:
  assumes "store_up s" "open_findings l limit s = (ol, s')"
  shows "map sf_id (ol_rows ol) = map fr_id (take (length (ol_rows ol)) (open_window l s))
    \<and> int (length (ol_rows ol)) + ol_truncated ol = int (length (open_window l s))
    \<and> length (ol_rows ol) \<le> nat MAX_OPEN_FINDINGS
    \<and> (open_window l s \<noteq> [] \<longrightarrow> ol_rows ol \<noteq> [])
    \<and> sorted (map (\<lambda>r. (fr_round r, fr_created r, fr_id r)) (open_window l s))"
proof -
  have ol: "ol = read_open l limit s"
    using guarded_read [OF assms(2) [unfolded open_findings_def]] assms(1) by simp
  have pos: "0 < read_limit limit MAX_OPEN_FINDINGS" "read_limit limit MAX_OPEN_FINDINGS \<le> nat MAX_OPEN_FINDINGS"
    by (simp_all add: read_limit_def MAX_OPEN_FINDINGS_def)
  have srt: "sorted (map (\<lambda>r. (fr_round r, fr_created r, fr_id r)) (open_window l s))"
    by (simp add: open_window_def)
  have len: "length (ol_rows ol) = min (length (open_window l s)) (read_limit limit MAX_OPEN_FINDINGS)"
    by (simp add: ol read_open_def Let_def)
  moreover have "map sf_id (ol_rows ol) = map fr_id (take (length (ol_rows ol)) (open_window l s))"
    unfolding len by (simp add: ol read_open_def Let_def comp_def min_def)
  moreover have "int (length (ol_rows ol)) + ol_truncated ol = int (length (open_window l s))"
    using pos(1) by (auto simp: ol read_open_def Let_def)
  moreover have "open_window l s \<noteq> [] \<longrightarrow> ol_rows ol \<noteq> []"
    using len pos(1) by (metis length_greater_0_conv min_less_iff_conj)
  ultimately show ?thesis
    using pos srt by (simp add: min.coboundedI2)
qed

theorem open_findings_accounts_witness:
  "int (length (ol_rows (fst (open_findings sample_lane 1 sample_store))))
     + ol_truncated (fst (open_findings sample_lane 1 sample_store))
   = int (length (open_window sample_lane sample_store))"
  using open_findings_accounts [OF sample_up surjective_pairing] by blast

lemma outage_guard:
  assumes "\<not> st_enabled s \<or> \<not> st_answers s (st_calls s)"
    and "f s = (Some d, s) \<or> f s = (None, s) \<or> (\<exists>q. f s = db_best_effort q s)"
  shows "fst (best_effort name d f s) = d \<and> same_tables s (snd (best_effort name d f s))"
proof (cases "st_enabled s")
  case True
  with assms(1) have "db_best_effort q s = (None, s\<lparr>st_calls := Suc (st_calls s)\<rparr>)" for q :: "store \<Rightarrow> 'a \<times> store"
    by (simp add: db_best_effort_def)
  with assms(2) True show ?thesis
    by (auto simp: best_effort_def same_tables_def same_world_def)
qed (simp add: best_effort_def same_tables_def same_world_def)

lemma outage_writes:
  assumes "\<not> st_enabled s \<or> \<not> st_answers s (st_calls s)"
  shows "fst (record_findings l rnd head fs s) = 0 \<and> same_tables s (snd (record_findings l rnd head fs s))"
    "fst (transition l i status reason s) = False \<and> same_tables s (snd (transition l i status reason s))"
    "fst (reopen l i reason s) = False \<and> same_tables s (snd (reopen l i reason s))"
    "fst (touch_findings l ids s) = 0 \<and> same_tables s (snd (touch_findings l ids s))"
    "fst (record_coverage l rnd head es s) = 0 \<and> same_tables s (snd (record_coverage l rnd head es s))"
    "fst (expire_coverage l files s) = 0 \<and> same_tables s (snd (expire_coverage l files s))"
  unfolding record_findings_def transition_def reopen_def touch_findings_def record_coverage_def
    expire_coverage_def
  by (rule outage_guard [OF assms],
      (auto simp: pure_result_def Let_def split: strings.splits option.splits) [1])+

lemma outage_reads:
  assumes "\<not> st_enabled s \<or> \<not> st_answers s (st_calls s)"
  shows "fst (open_findings l limit s) = empty_open_ledger \<and> same_tables s (snd (open_findings l limit s))"
    "fst (settled_findings l limit s) = [] \<and> same_tables s (snd (settled_findings l limit s))"
    "fst (live_coverage l limit s) = [] \<and> same_tables s (snd (live_coverage l limit s))"
    "fst (next_round l s) = 1 \<and> same_tables s (snd (next_round l s))"
  unfolding open_findings_def settled_findings_def live_coverage_def next_round_def
  by (rule outage_guard [OF assms], (blast) [1])+



text \<open>A transition succeeds exactly when the store answers, the status is in the vocabulary, the
  id reads as a UUID and an open row of that lane carries it; then exactly those rows take the
  status and the reason cut to 4000 characters, and otherwise no row changes.\<close>

theorem transition_outcome:
  assumes "transition l i status reason s = (b, s')"
  shows "(b \<longleftrightarrow> st_enabled s \<and> status \<in> set FINDING_STATUSES \<and> is_uuid i \<and> st_answers s (st_calls s)
            \<and> (\<exists>r \<in> set (st_findings s). same_id (fr_id r) i \<and> fr_status r = ''open'' \<and> fr_lane r = l))
    \<and> st_findings s' = (if b then map (\<lambda>r. if same_id (fr_id r) i \<and> fr_status r = ''open'' \<and> fr_lane r = l
           then r\<lparr>fr_status := status, fr_reason := take 4000 reason, fr_updated := st_clock s (st_calls s)\<rparr>
           else r) (st_findings s) else st_findings s)
    \<and> st_coverage s' = st_coverage s"
proof -
  let ?f = "\<lambda>r. r\<lparr>fr_status := status, fr_reason := clip reason, fr_updated := now s\<rparr>"
  obtain n s1 where u: "update_where (transition_hits l i) ?f s = (n, s1)" by fastforce
  from assms u have "(b, s') = (if \<not> st_enabled s then (False, s)
      else if status \<notin> set FINDING_STATUSES \<or> \<not> is_uuid i then (False, s)
      else if st_answers s (st_calls s) then (n \<noteq> 0, s1\<lparr>st_calls := Suc (st_calls s)\<rparr>)
      else (False, s\<lparr>st_calls := Suc (st_calls s), st_failed := st_failed s @ [''transition'']\<rparr>))"
    by (auto simp: transition_def best_effort_def db_best_effort_def pure_result_def)
  with update_where_hits [OF u] map_if_none [of "st_findings s" "transition_hits l i" ?f] show ?thesis
    by (auto simp: transition_hits_def now_def clip_def MAX_TEXT_def split: if_splits)
qed

theorem transition_outcome_witness:
  "fr_reason (st_findings (snd sample_step) ! 0) = ''gone''"
proof -
  have b: "fst sample_step" by code_simp
  have s: "same_id (fr_id (st_findings sample_store ! 0)) (sample_id (CHR ''a''))" by code_simp
  have "transition sample_lane (sample_id (CHR ''a'')) ''stale'' ''gone'' sample_store
      = (fst sample_step, snd sample_step)" by (simp add: sample_step_def)
  from transition_outcome [OF this] b s show ?thesis
    by (simp add: sample_store_def sample_row_def)
qed

end
