(* ===== verification/Ledger.thy ===== *)
theory Ledger
  imports Review_State
begin

text \<open>
  \<open>sidecar/reviewer/ledger.py\<close>: the policy that turns ledger rows into one round's behaviour.
  \<open>carry_in\<close> loads a seat's state and renders it; \<open>settle\<close> applies the round's verdicts and
  records what it published. Both reach the store through the functions of
  \<open>sidecar/review_state_client.py\<close>, here the record \<open>ledger_ops\<close>, so the policy is stated for any
  transport; \<open>local_ops\<close> is the transport that calls \<open>review_state\<close> directly. The locale
  \<open>ledger_store\<close> of the theory \<open>Ledger_Store\<close> is what the policy relies on, interpreted there
  for \<open>local_ops\<close>.
\<close>

section \<open>The store as a round sees it\<close>

record 's ledger_ops =
  lo_expire_coverage :: "lane \<Rightarrow> strings \<Rightarrow> 's \<Rightarrow> nat \<times> 's"
  lo_open_findings :: "lane \<Rightarrow> 's \<Rightarrow> open_ledger \<times> 's"
  lo_live_coverage :: "lane \<Rightarrow> 's \<Rightarrow> prior_coverage list \<times> 's"
  lo_settled_findings :: "lane \<Rightarrow> 's \<Rightarrow> settled_finding list \<times> 's"
  lo_next_round :: "lane \<Rightarrow> 's \<Rightarrow> int \<times> 's"
  lo_transition :: "lane \<Rightarrow> string \<Rightarrow> string \<Rightarrow> string \<Rightarrow> 's \<Rightarrow> bool \<times> 's"
  lo_reopen :: "lane \<Rightarrow> string \<Rightarrow> string \<Rightarrow> 's \<Rightarrow> bool \<times> 's"
  lo_touch_findings :: "lane \<Rightarrow> string list \<Rightarrow> 's \<Rightarrow> nat \<times> 's"
  lo_record_findings :: "lane \<Rightarrow> int \<Rightarrow> string \<Rightarrow> agentic_finding list \<Rightarrow> 's \<Rightarrow> nat \<times> 's"
  lo_record_coverage :: "lane \<Rightarrow> int \<Rightarrow> string \<Rightarrow> examined_region list \<Rightarrow> 's \<Rightarrow> nat \<times> 's"

text \<open>The client refuses a bare string before it chooses a transport, and its guard turns the
  refusal into the neutral value.\<close>

definition local_expire_coverage :: "lane \<Rightarrow> strings \<Rightarrow> store \<Rightarrow> nat \<times> store" where
  "local_expire_coverage l files s =
     (case files of
        BareStr _ \<Rightarrow> (0, s\<lparr>st_failed := st_failed s @ [''expire_coverage'']\<rparr>)
      | StrSeq fs \<Rightarrow> expire_coverage l (Some (StrSeq fs)) s)"

definition local_ops :: "store ledger_ops" where
  "local_ops =
     \<lparr>lo_expire_coverage = local_expire_coverage,
      lo_open_findings = (\<lambda>l. open_findings l MAX_OPEN_FINDINGS),
      lo_live_coverage = (\<lambda>l. live_coverage l MAX_LIVE_COVERAGE),
      lo_settled_findings = (\<lambda>l. settled_findings l MAX_SETTLED_FINDINGS),
      lo_next_round = next_round,
      lo_transition = transition,
      lo_reopen = reopen,
      lo_touch_findings = (\<lambda>l ids. touch_findings l (StrSeq ids)),
      lo_record_findings = record_findings,
      lo_record_coverage = record_coverage\<rparr>"

section \<open>The checkout\<close>

text \<open>
  A \<open>pathlib\<close> path is whether it is absolute and its components. The file system of the runner
  is a parameter: whether a path is a directory, what \<open>os.path.realpath\<close> makes of it (\<open>None\<close> when
  it raises) and how \<open>os.lstat\<close> answers.
\<close>

type_synonym path = "bool \<times> string list"

datatype lstat_result = LPresent | LNotFound | LError

record tree_fs =
  fs_is_dir :: "path \<Rightarrow> bool"
  fs_realpath :: "path \<Rightarrow> string option"
  fs_lstat :: "path \<Rightarrow> lstat_result"

definition is_component :: "string \<Rightarrow> bool" where
  "is_component c = (c \<noteq> '''' \<and> c \<noteq> ''.'')"

definition isabs :: "string \<Rightarrow> bool" where
  "isabs s = startswith s ''/''"

definition py_path :: "string \<Rightarrow> path" where
  "py_path s = (isabs s, filter is_component (split_char (CHR ''/'') s))"

definition path_join :: "path \<Rightarrow> string \<Rightarrow> path" where
  "path_join p s = (if isabs s then py_path s else (fst p, snd p @ snd (py_path s)))"

definition path_parent :: "path \<Rightarrow> path" where
  "path_parent p = (fst p, butlast (snd p))"

text \<open>\<open>os.path.normpath\<close> of a relative path; the accumulator is the new components reversed.\<close>

fun norm_comps :: "string list \<Rightarrow> string list \<Rightarrow> string list" where
  "norm_comps acc [] = rev acc"
| "norm_comps acc (c # cs) =
     (if \<not> is_component c then norm_comps acc cs
      else if c \<noteq> ''..'' \<or> acc = [] \<or> hd acc = ''..'' then norm_comps (c # acc) cs
      else norm_comps (tl acc) cs)"

definition normpath :: "string \<Rightarrow> string" where
  "normpath s =
     (let p = join ''/'' (norm_comps [] (split_char (CHR ''/'') s))
      in if p = '''' then ''.'' else p)"

definition within_checkout :: "path \<Rightarrow> string \<Rightarrow> path option" where
  "within_checkout root rel =
     (if rel = '''' \<or> isabs rel \<or> CHR 0x00 \<in> set rel then None
      else let normalized = normpath rel
           in if normalized = ''..'' \<or> startswith normalized ''../'' \<or> startswith normalized [CHR ''.'', CHR ''.'', CHR 0x5C]
              then None else Some (path_join root normalized))"

definition is_gone :: "tree_fs \<Rightarrow> path \<Rightarrow> string \<Rightarrow> string \<Rightarrow> bool" where
  "is_gone fs root real_root rel =
     (case within_checkout root rel of
        None \<Rightarrow> False
      | Some target \<Rightarrow>
          (case fs_realpath fs (path_parent target) of
             None \<Rightarrow> False
           | Some parent \<Rightarrow>
               if parent \<noteq> real_root \<and> \<not> startswith parent (real_root @ ''/'') then False
               else fs_lstat fs target = LNotFound))"

definition tree_root :: "tree_fs \<Rightarrow> string \<Rightarrow> (path \<times> string) option" where
  "tree_root fs checkout_root =
     (if checkout_root = '''' then None
      else let root = py_path checkout_root
           in if \<not> fs_is_dir fs root then None
              else map_option (\<lambda>real. (root, real)) (fs_realpath fs root))"

section \<open>Carrying state in\<close>

record carried_state =
  cs_state :: prior_state
  cs_rows :: "(string, string) dict"
  cs_round :: int
  cs_truncated :: int
  cs_coverage :: int
  cs_expired :: nat

text \<open>\<open>_retire_missing\<close>: the loop over the stored rows under a usable checkout root.\<close>

fun retire_loop ::
  "'s ledger_ops \<Rightarrow> lane \<Rightarrow> (string \<Rightarrow> bool) \<Rightarrow> string \<Rightarrow> stored_finding list \<Rightarrow> 's
     \<Rightarrow> stored_finding list \<times> 's" where
  "retire_loop ops l gone head [] s = ([], s)"
| "retire_loop ops l gone head (r # rs) s =
     (if gone (pf_file (sf_prior r))
      then (let (_, s') = lo_transition ops l (sf_id r) ''stale''
                  (''file absent from the tree at '' @ head) s
            in retire_loop ops l gone head rs s')
      else (let (live, s') = retire_loop ops l gone head rs s in (r # live, s')))"

definition retire_missing ::
  "'s ledger_ops \<Rightarrow> tree_fs \<Rightarrow> lane \<Rightarrow> stored_finding list \<Rightarrow> string \<Rightarrow> string \<Rightarrow> 's
     \<Rightarrow> stored_finding list \<times> 's" where
  "retire_missing ops fs l stored checkout_root head s =
     (case tree_root fs checkout_root of
        None \<Rightarrow> (stored, s)
      | Some (root, real_root) \<Rightarrow> retire_loop ops l (is_gone fs root real_root) head stored s)"

definition expiry_targets :: "strings \<Rightarrow> strings" where
  "expiry_targets files =
     (case files of BareStr b \<Rightarrow> BareStr b | StrSeq fs \<Rightarrow> StrSeq (sorted_list_of_set (set fs)))"

text \<open>\<open>_keyed\<close>: the one field that is a matching key is stripped on the way in.\<close>

definition keyed :: "examined_region list \<Rightarrow> examined_region list" where
  "keyed examined =
     map (\<lambda>e. if er_file e \<noteq> strip (er_file e) then e\<lparr>er_file := strip (er_file e)\<rparr> else e) examined"

text \<open>\<open>EXAMINED_REQUIRED_FIELDS\<close> are file, checked, conclusion and evidence.\<close>

definition retraceable :: "prior_coverage \<Rightarrow> bool" where
  "retraceable c =
     (strip (pc_file c) \<noteq> '''' \<and> strip (pc_checked c) \<noteq> '''' \<and> strip (pc_conclusion c) \<noteq> ''''
      \<and> strip (pc_evidence c) \<noteq> '''')"

definition carried_coverage ::
  "'s ledger_ops \<Rightarrow> tree_fs \<Rightarrow> lane \<Rightarrow> string \<Rightarrow> 's \<Rightarrow> (prior_coverage list \<times> nat \<times> nat) \<times> 's" where
  "carried_coverage ops fs l checkout_root s =
     (let (rows, s1) = lo_live_coverage ops l s;
          kept = filter retraceable rows;
          hollow = length rows - length kept
      in case tree_root fs checkout_root of
           None \<Rightarrow> ((kept, hollow, 0), s1)
         | Some (root, real_root) \<Rightarrow>
             let gone = sorted_list_of_set
                   (set (filter (is_gone fs root real_root) (map pc_file kept)))
             in if gone = [] then ((kept, hollow, 0), s1)
                else let (retired, s2) = lo_expire_coverage ops l (StrSeq gone) s1
                     in ((filter (\<lambda>r. pc_file r \<notin> set gone) kept, hollow, retired), s2))"

text \<open>
  The two lines \<open>carry_in\<close> may print: the read was cut (window, cut rows), and entries too
  hollow to carry were dropped (count).
\<close>

datatype carry_note = ReadCut int int | HollowDropped nat

definition carry_in ::
  "'s ledger_ops \<Rightarrow> tree_fs \<Rightarrow> lane \<Rightarrow> string \<Rightarrow> string \<Rightarrow> strings \<Rightarrow> bool \<Rightarrow> bool \<Rightarrow> 's
     \<Rightarrow> (carried_state \<times> carry_note list) \<times> 's" where
  "carry_in ops fs l checkout_root head touched coverage_ledger findings_ledger s =
     (let (expired, s1) = lo_expire_coverage ops l (expiry_targets touched) s;
          ((live, read_window, truncated), s2) =
            (if findings_ledger
             then (let (opened, sa) = lo_open_findings ops l s1;
                       (live, sb) = retire_missing ops fs l (ol_rows opened) checkout_root head sa
                   in ((live, int (length (ol_rows opened)) + ol_truncated opened,
                        ol_truncated opened), sb))
             else (([], 0, 0), s1));
          ((coverage, hollow, retired), s3) =
            (if coverage_ledger then carried_coverage ops fs l checkout_root s2
             else (([], 0, 0), s2));
          state = render_prior_state (map sf_prior live) coverage MAX_PRIOR_COVERAGE
                    MAX_PRIOR_EVIDENCE;
          rows = zip (map fst (ps_ids state)) (map sf_id live);
          (rnd, s4) = lo_next_round ops l s3;
          notes = (if truncated \<noteq> 0 then [ReadCut read_window truncated] else [])
                  @ (if hollow \<noteq> 0 then [HollowDropped hollow] else [])
      in ((\<lparr>cs_state = state, cs_rows = rows, cs_round = rnd, cs_truncated = truncated,
            cs_coverage = min (int (length coverage)) MAX_PRIOR_COVERAGE,
            cs_expired = expired + retired\<rparr>, notes), s4))"

section \<open>Settling\<close>

record settlement =
  se_closed :: nat
  se_reasserted :: nat
  se_recorded :: nat
  se_deduped :: "string list"
  se_reopened :: "string list"
  se_coverage :: nat

type_synonym anchor = "string \<times> string"

definition claim_anchor :: "string \<Rightarrow> string \<Rightarrow> anchor" where
  "claim_anchor file title = (strip file, lower (strip title))"

definition finding_claim :: "agentic_finding \<Rightarrow> anchor" where
  "finding_claim f = claim_anchor (af_file f) (af_title f)"

definition reopen_reason :: "settled_finding \<Rightarrow> int \<Rightarrow> string" where
  "reopen_reason row rnd =
     ''re-raised in round '' @ str_int rnd @ '': an independent finding contradicts ''
     @ sd_status row @ '', on a finding recorded in round '' @ str_int (sd_round row)
     @ (if strip (sd_reason row) \<noteq> ''''
        then ''; the closure stated: '' @ strip (sd_reason row) else '''')"

definition reopen_candidates ::
  "'s ledger_ops \<Rightarrow> lane \<Rightarrow> 's \<Rightarrow> (anchor, settled_finding) dict \<times> 's" where
  "reopen_candidates ops l s =
     (let (rows, s') = lo_settled_findings ops l s
      in (fold (\<lambda>r d. dict_setdefault (claim_anchor (sd_file r) (sd_title r)) r d) rows [], s'))"

text \<open>The verdict pass: \<open>touch\<close>, \<open>closed\<close> and \<open>settled\<close> as it goes.\<close>

record verdict_state =
  vs_touch :: "string list"
  vs_closed :: nat
  vs_settled :: "string set"

fun apply_verdicts ::
  "'s ledger_ops \<Rightarrow> (string, string) dict \<Rightarrow> lane \<Rightarrow> prior_finding_status list
     \<Rightarrow> verdict_state \<Rightarrow> 's \<Rightarrow> verdict_state \<times> 's" where
  "apply_verdicts ops rows l [] v s = (v, s)"
| "apply_verdicts ops rows l (e # es) v s =
     (case map_of rows (pfs_id e) of
        None \<Rightarrow> apply_verdicts ops rows l es v s
      | Some row_id \<Rightarrow>
          let reason = strip (pfs_reason e)
          in if pfs_status e = ''fixed'' \<or> (pfs_status e = ''rejected'' \<and> reason \<noteq> '''')
             then (let (b, s') = lo_transition ops l row_id (pfs_status e) reason s
                   in apply_verdicts ops rows l es
                        (v\<lparr>vs_settled := insert (pfs_id e) (vs_settled v),
                           vs_closed := vs_closed v + (if b then 1 else 0)\<rparr>) s')
             else apply_verdicts ops rows l es (v\<lparr>vs_touch := vs_touch v @ [row_id]\<rparr>) s)"

text \<open>The rows this round leaves open, keyed by claim; a later id wins a shared key.\<close>

definition still_open_rows :: "carried_state \<Rightarrow> string set \<Rightarrow> (anchor, string) dict" where
  "still_open_rows carried settled =
     fold (\<lambda>(minted, prior) d.
             case map_of (cs_rows carried) minted of
               None \<Rightarrow> d
             | Some row_id \<Rightarrow>
                 if minted \<in> settled then d
                 else dict_set (claim_anchor (pf_file prior) (pf_title prior)) row_id d)
       (ps_ids (cs_state carried)) []"

record match_state =
  ms_open :: "(anchor, string) dict"
  ms_cand :: "(anchor, settled_finding) dict"
  ms_fresh :: "(anchor, agentic_finding) dict"
  ms_touch :: "string list"
  ms_deduped :: "string list"
  ms_reopened :: "string list"

definition finding_label :: "agentic_finding \<Rightarrow> string" where
  "finding_label f = af_file f @ '': '' @ af_title f"

text \<open>One published finding: re-assertion, twin, re-raise or fresh row, in that order.\<close>

definition match_finding ::
  "'s ledger_ops \<Rightarrow> lane \<Rightarrow> int \<Rightarrow> agentic_finding \<Rightarrow> match_state \<times> 's \<Rightarrow> match_state \<times> 's" where
  "match_finding ops l rnd f ms =
     (case ms of (m, s) \<Rightarrow>
       let anchor = finding_claim f
       in case map_of (ms_open m) anchor of
            Some row_id \<Rightarrow>
              (m\<lparr>ms_deduped := ms_deduped m @ [finding_label f],
                 ms_touch := (if row_id \<in> set (ms_touch m) then ms_touch m
                              else ms_touch m @ [row_id])\<rparr>, s)
          | None \<Rightarrow>
              if anchor \<in> fst ` set (ms_fresh m)
              then (m\<lparr>ms_deduped := ms_deduped m @ [finding_label f]\<rparr>, s)
              else (case map_of (ms_cand m) anchor of
                      None \<Rightarrow> (m\<lparr>ms_fresh := dict_set anchor f (ms_fresh m)\<rparr>, s)
                    | Some row \<Rightarrow>
                        let m' = m\<lparr>ms_cand := dict_pop anchor (ms_cand m)\<rparr>;
                            (b, s') = lo_reopen ops l (sd_id row) (reopen_reason row rnd) s
                        in if b
                           then (m'\<lparr>ms_reopened := ms_reopened m @ [finding_label f],
                                    ms_open := dict_set anchor (sd_id row) (ms_open m)\<rparr>, s')
                           else (m'\<lparr>ms_fresh := dict_set anchor f (ms_fresh m)\<rparr>, s')))"

definition settle ::
  "'s ledger_ops \<Rightarrow> carried_state \<Rightarrow> lane \<Rightarrow> string \<Rightarrow> prior_finding_status list
     \<Rightarrow> agentic_finding list \<Rightarrow> examined_region list \<Rightarrow> bool \<Rightarrow> bool \<Rightarrow> 's \<Rightarrow> settlement \<times> 's" where
  "settle ops carried l head prior_status findings examined coverage_ledger findings_ledger s =
     (let verdicts = (if findings_ledger then accepted_status (cs_state carried) prior_status else []);
          (v, s1) = apply_verdicts ops (cs_rows carried) l verdicts
                      \<lparr>vs_touch = [], vs_closed = 0, vs_settled = {}\<rparr> s;
          ((touch, deduped, reopened, recorded), s2) =
            (if findings_ledger
             then (let (cand, sa) =
                         (if findings \<noteq> [] then reopen_candidates ops l s1 else ([], s1));
                       (m, sb) =
                         fold (match_finding ops l (cs_round carried)) findings
                           (\<lparr>ms_open = still_open_rows carried (vs_settled v), ms_cand = cand,
                             ms_fresh = [], ms_touch = vs_touch v, ms_deduped = [],
                             ms_reopened = []\<rparr>, sa);
                       (_, sc) = lo_touch_findings ops l (ms_touch m) sb;
                       (n, sd) = lo_record_findings ops l (cs_round carried) head
                                   (map snd (ms_fresh m)) sc
                   in ((ms_touch m, ms_deduped m, ms_reopened m, n), sd))
             else ((vs_touch v, [], [], 0), s1));
          (coverage, s3) =
            (if coverage_ledger
             then lo_record_coverage ops l (cs_round carried) head (keyed examined) s2
             else (0, s2))
      in (\<lparr>se_closed = vs_closed v, se_reasserted = length touch, se_recorded = recorded,
           se_deduped = deduped, se_reopened = reopened, se_coverage = coverage\<rparr>, s3))"

section \<open>How rows may move\<close>

text \<open>
  What a round may do to a findings row: nothing to the finding itself, nothing at all to a row
  of another lane, and its status may only be kept, become open, or become one the judgement
  \<open>J\<close> (row id, status) allows. A table grows when its rows move and rows of the lane follow.
\<close>

definition same_finding :: "finding_row \<Rightarrow> finding_row \<Rightarrow> bool" where
  "same_finding r r' \<longleftrightarrow>
     fr_id r' = fr_id r \<and> fr_lane r' = fr_lane r \<and> fr_round r' = fr_round r
     \<and> fr_head r' = fr_head r \<and> fr_file r' = fr_file r \<and> fr_line r' = fr_line r
     \<and> fr_severity r' = fr_severity r \<and> fr_category r' = fr_category r
     \<and> fr_title r' = fr_title r \<and> fr_body r' = fr_body r \<and> fr_evidence r' = fr_evidence r
     \<and> fr_created r' = fr_created r"

definition moves :: "(string \<Rightarrow> string \<Rightarrow> bool) \<Rightarrow> lane \<Rightarrow> finding_row \<Rightarrow> finding_row \<Rightarrow> bool" where
  "moves J l r r' \<longleftrightarrow>
     same_finding r r' \<and> (fr_lane r \<noteq> l \<longrightarrow> r' = r)
     \<and> (fr_status r' = fr_status r \<or> fr_status r' = ''open'' \<or> J (fr_id r) (fr_status r'))"

definition grows ::
  "(string \<Rightarrow> string \<Rightarrow> bool) \<Rightarrow> lane \<Rightarrow> finding_row list \<Rightarrow> finding_row list \<Rightarrow> bool" where
  "grows J l rs rs' \<longleftrightarrow>
     (\<exists>mid news. rs' = mid @ news \<and> list_all2 (moves J l) rs mid
        \<and> (\<forall>r \<in> set news. fr_lane r = l))"

definition cover_moves :: "lane \<Rightarrow> coverage_row \<Rightarrow> coverage_row \<Rightarrow> bool" where
  "cover_moves l r r' \<longleftrightarrow>
     (cr_lane r \<noteq> l \<or> cr_expired r \<noteq> None \<longrightarrow> r' = r) \<and> r' = r\<lparr>cr_expired := cr_expired r'\<rparr>"

definition cover_grows :: "lane \<Rightarrow> coverage_row list \<Rightarrow> coverage_row list \<Rightarrow> bool" where
  "cover_grows l rs rs' \<longleftrightarrow>
     (\<exists>mid news. rs' = mid @ news \<and> list_all2 (cover_moves l) rs mid
        \<and> (\<forall>r \<in> set news. cr_lane r = l))"

lemma moves_refl: "moves J l r r"
  by (simp add: moves_def same_finding_def)

lemma moves_trans: "moves J l a b \<Longrightarrow> moves J l b c \<Longrightarrow> moves J l a c"
  unfolding moves_def same_finding_def by metis

lemma moves_mono: "moves J l r r' \<Longrightarrow> (\<And>i st. J i st \<Longrightarrow> K i st) \<Longrightarrow> moves K l r r'"
  unfolding moves_def by blast

lemma list_all2_map_self: "(\<And>r. r \<in> set rs \<Longrightarrow> P r (f r)) \<Longrightarrow> list_all2 P rs (map f rs)"
  by (induction rs) auto

lemma growsI: "(\<And>r. r \<in> set rs \<Longrightarrow> moves J l r (f r)) \<Longrightarrow> grows J l rs (map f rs)"
  unfolding grows_def by (intro exI [of _ "map f rs"] exI [of _ "[]"])
    (simp add: list_all2_map_self)

lemma grows_refl: "grows J l rs rs"
  using growsI [of rs J l "\<lambda>r. r"] moves_refl by auto

lemma grows_mono:
  assumes "grows J l rs rs'" and "\<And>i st. J i st \<Longrightarrow> K i st"
  shows "grows K l rs rs'"
proof -
  from assms(1) obtain mid news where "rs' = mid @ news" "list_all2 (moves J l) rs mid"
    "\<forall>r \<in> set news. fr_lane r = l" unfolding grows_def by blast
  moreover have "list_all2 (moves K l) rs mid"
    using calculation(2) by (rule list_all2_mono) (rule moves_mono, assumption, rule assms(2))
  ultimately show ?thesis unfolding grows_def by blast
qed

lemma grows_trans:
  assumes "grows J l a b" "grows J l b c"
  shows "grows J l a c"
proof -
  from assms(1) obtain mid news where b: "b = mid @ news" "list_all2 (moves J l) a mid"
    "\<forall>r \<in> set news. fr_lane r = l" unfolding grows_def by blast
  from assms(2) [unfolded b(1)] obtain xs news2 where c: "c = xs @ news2"
    "list_all2 (moves J l) (mid @ news) xs" "\<forall>r \<in> set news2. fr_lane r = l"
    unfolding grows_def by blast
  from c(2) obtain mid' news' where x: "xs = mid' @ news'" "list_all2 (moves J l) mid mid'"
    "list_all2 (moves J l) news news'" by (auto simp: list_all2_append1)
  have "list_all2 (moves J l) a mid'"
    by (rule list_all2_trans [OF moves_trans b(2) x(2)])
  moreover have "\<forall>r \<in> set news'. fr_lane r = l"
    using x(3) b(3) by (induction rule: list_all2_induct) (auto simp: moves_def same_finding_def)
  ultimately show ?thesis
    using c x(1) unfolding grows_def by (intro exI [of _ mid'] exI [of _ "news' @ news2"]) auto
qed

lemma closes_grows:
  assumes "closes l i status rs rs'" and "\<And>j. same_id j i \<Longrightarrow> J j status"
  shows "grows J l rs rs'"
proof -
  from assms(1) obtain reason t where "rs' = map (\<lambda>r. if transition_hits l i r
     then r\<lparr>fr_status := status, fr_reason := reason, fr_updated := t\<rparr> else r) rs"
    unfolding closes_def by blast
  then show ?thesis
    using assms(2) by (auto intro!: growsI simp: moves_def same_finding_def transition_hits_def)
qed

lemma raises_grows: "raises l i rs rs' \<Longrightarrow> grows J l rs rs'"
  unfolding raises_def by (auto intro!: growsI simp: moves_def same_finding_def reopen_hits_def)

lemma touches_grows: "touches l rs rs' \<Longrightarrow> grows J l rs rs'"
  unfolding touches_def by (auto intro!: growsI simp: moves_def same_finding_def)

lemma appends_grows: "appends l rnd head fs rs rs' \<Longrightarrow> grows J l rs rs'"
  unfolding appends_def grows_def
proof (elim exE conjE)
  fix news assume a: "rs' = rs @ news"
    "list_all2 (\<lambda>f r. \<exists>i t. r = new_finding_row i t l rnd head f) fs news"
  from a(2) have "\<forall>r \<in> set news. fr_lane r = l"
    by (induction rule: list_all2_induct) (auto simp: new_finding_row_def)
  with a(1) show "\<exists>mid news. rs' = mid @ news \<and> list_all2 (moves J l) rs mid
      \<and> (\<forall>r \<in> set news. fr_lane r = l)"
    by (intro exI [of _ rs] exI [of _ news]) (simp add: list.rel_refl moves_refl)
qed

lemma cover_moves_refl: "cover_moves l r r"
  by (simp add: cover_moves_def)

lemma cover_moves_lane: "cover_moves l r r' \<Longrightarrow> cr_lane r' = cr_lane r"
  unfolding cover_moves_def by (cases r; cases r') auto

lemma cover_moves_other: "cover_moves l r r' \<Longrightarrow> cr_lane r \<noteq> l \<Longrightarrow> r' = r"
  unfolding cover_moves_def by blast

lemma cover_moves_trans: "cover_moves l a b \<Longrightarrow> cover_moves l b c \<Longrightarrow> cover_moves l a c"
  unfolding cover_moves_def by (cases a; cases b; cases c) auto

lemma cover_grows_refl: "cover_grows l rs rs"
  unfolding cover_grows_def
  by (intro exI [of _ rs] exI [of _ "[]"]) (simp add: list.rel_refl cover_moves_refl)

lemma cover_grows_trans:
  assumes "cover_grows l a b" "cover_grows l b c"
  shows "cover_grows l a c"
proof -
  from assms(1) obtain mid news where b: "b = mid @ news" "list_all2 (cover_moves l) a mid"
    "\<forall>r \<in> set news. cr_lane r = l" unfolding cover_grows_def by blast
  from assms(2) [unfolded b(1)] obtain xs news2 where c: "c = xs @ news2"
    "list_all2 (cover_moves l) (mid @ news) xs" "\<forall>r \<in> set news2. cr_lane r = l"
    unfolding cover_grows_def by blast
  from c(2) obtain mid' news' where x: "xs = mid' @ news'" "list_all2 (cover_moves l) mid mid'"
    "list_all2 (cover_moves l) news news'" by (auto simp: list_all2_append1)
  have "list_all2 (cover_moves l) a mid'"
    by (rule list_all2_trans [OF cover_moves_trans b(2) x(2)])
  moreover have "\<forall>r \<in> set news'. cr_lane r = l"
    using x(3) b(3) by (induction rule: list_all2_induct) (auto dest: cover_moves_lane)
  ultimately show ?thesis
    using c x(1) unfolding cover_grows_def
    by (intro exI [of _ mid'] exI [of _ "news' @ news2"]) auto
qed

lemma expires_grows: "expires l rs rs' \<Longrightarrow> cover_grows l rs rs'"
  unfolding expires_def cover_grows_def
  by (elim exE, intro exI [of _ rs'] exI [of _ "[]"])
    (auto intro!: list_all2_map_self simp: cover_moves_def)

lemma covers_grows: "covers l rnd head es rs rs' \<Longrightarrow> cover_grows l rs rs'"
  unfolding covers_def cover_grows_def
proof (elim exE conjE)
  fix news assume a: "rs' = rs @ news"
    "list_all2 (\<lambda>e r. \<exists>i t. r = new_coverage_row i t l rnd head e) es news"
  from a(2) have "\<forall>r \<in> set news. cr_lane r = l"
    by (induction rule: list_all2_induct) (auto simp: new_coverage_row_def)
  with a(1) show "\<exists>mid news. rs' = mid @ news \<and> list_all2 (cover_moves l) rs mid
      \<and> (\<forall>r \<in> set news. cr_lane r = l)"
    by (intro exI [of _ rs] exI [of _ news]) (simp add: list.rel_refl cover_moves_refl)
qed

text \<open>Growth leaves the other lanes' rows exactly as they were.\<close>

lemma grows_other_lanes:
  assumes "grows J l rs rs'" "m \<noteq> l"
  shows "filter (\<lambda>r. fr_lane r = m) rs' = filter (\<lambda>r. fr_lane r = m) rs"
proof -
  from assms(1) obtain mid news where b: "rs' = mid @ news" "list_all2 (moves J l) rs mid"
    "\<forall>r \<in> set news. fr_lane r = l" unfolding grows_def by blast
  from b(2) have "filter (\<lambda>r. fr_lane r = m) mid = filter (\<lambda>r. fr_lane r = m) rs"
    by (induction rule: list_all2_induct)
      (use assms(2) in \<open>auto simp: moves_def same_finding_def\<close>)
  with b assms(2) show ?thesis by (simp add: filter_empty_conv)
qed

lemma cover_grows_other_lanes:
  assumes "cover_grows l rs rs'" "m \<noteq> l"
  shows "filter (\<lambda>r. cr_lane r = m) rs' = filter (\<lambda>r. cr_lane r = m) rs"
proof -
  from assms(1) obtain mid news where b: "rs' = mid @ news" "list_all2 (cover_moves l) rs mid"
    "\<forall>r \<in> set news. cr_lane r = l" unfolding cover_grows_def by blast
  from b(2) have "filter (\<lambda>r. cr_lane r = m) mid = filter (\<lambda>r. cr_lane r = m) rs"
  proof (induction rule: list_all2_induct)
    case (Cons r rs r' rs')
    then show ?case
      using cover_moves_lane [OF Cons(1)] cover_moves_other [OF Cons(1)] assms(2) by auto
  qed simp
  with b assms(2) show ?thesis by (simp add: filter_empty_conv)
qed

end
