(* ===== verification/Ledger_Store.thy ===== *)
theory Ledger_Store
  imports Ledger Review_Lifecycle
begin

text \<open>
  What \<open>sidecar/reviewer/ledger.py\<close> relies on of its store, as the locale \<open>ledger_store\<close>, the
  lemmas of the round's policy proved once from it, and the interpretation on the transport
  that calls \<open>sidecar/review_state.py\<close> directly. The properties of a round follow.
\<close>

section \<open>The contract\<close>

text \<open>A store that is not \<open>up\<close> may also do what it was asked and lose the answer.\<close>

locale ledger_store =
  fixes ops :: "'s ledger_ops"
    and frows :: "'s \<Rightarrow> finding_row list"
    and crows :: "'s \<Rightarrow> coverage_row list"
    and up :: "'s \<Rightarrow> bool"
  assumes transition_law: "lo_transition ops l i st reason s = (b, s') \<Longrightarrow>
      (up s \<longrightarrow> up s') \<and> crows s' = crows s \<and>
      (if b then closes l i st (frows s) (frows s')
       else frows s' = frows s \<or> \<not> up s \<and> closes l i st (frows s) (frows s'))"
    and reopen_law: "lo_reopen ops l i reason s = (b, s') \<Longrightarrow>
      (up s \<longrightarrow> up s') \<and> crows s' = crows s \<and>
      (if b then (\<exists>r \<in> set (frows s). reopen_hits l i r) \<and> raises l i (frows s) (frows s')
       else frows s' = frows s \<or> \<not> up s \<and> raises l i (frows s) (frows s'))"
    and touch_law: "lo_touch_findings ops l ids s = (n, s') \<Longrightarrow>
      (up s \<longrightarrow> up s') \<and> crows s' = crows s \<and>
      (frows s' = frows s \<or> touches l (frows s) (frows s'))"
    and record_law: "lo_record_findings ops l rnd head fs s = (n, s') \<Longrightarrow>
      (up s \<longrightarrow> up s') \<and> crows s' = crows s \<and>
      (n = 0 \<and> frows s' = frows s \<and> (up s \<longrightarrow> fs = [])
       \<or> (up s \<longrightarrow> n = length fs) \<and> appends l rnd head fs (frows s) (frows s'))"
    and cover_law: "lo_record_coverage ops l rnd head es s = (n, s') \<Longrightarrow>
      (up s \<longrightarrow> up s') \<and> frows s' = frows s \<and>
      (n = 0 \<and> crows s' = crows s
       \<or> (up s \<longrightarrow> n = length es) \<and> covers l rnd head es (crows s) (crows s'))"
    and expire_law: "lo_expire_coverage ops l files s = (n, s') \<Longrightarrow>
      (up s \<longrightarrow> up s') \<and> frows s' = frows s \<and> expires l (crows s) (crows s') \<and>
      (\<forall>fs. files = StrSeq fs \<longrightarrow> up s
         \<longrightarrow> (\<forall>r \<in> set (crows s'). \<not> expire_hits l (Some fs) r))"
    and open_law: "lo_open_findings ops l s = (ol, s') \<Longrightarrow>
      (up s \<longrightarrow> up s') \<and> frows s' = frows s \<and> crows s' = crows s \<and>
      (\<exists>rows. ol_rows ol = map (\<lambda>r. \<lparr>sf_id = fr_id r, sf_prior = prior_of_row r\<rparr>) rows
         \<and> set rows \<subseteq> {r \<in> set (frows s). fr_lane r = l \<and> fr_status r = ''open''}
         \<and> (distinct (frows s) \<longrightarrow> distinct rows) \<and> 0 \<le> ol_truncated ol)"
    and settled_law: "lo_settled_findings ops l s = (rows, s') \<Longrightarrow>
      (up s \<longrightarrow> up s') \<and> frows s' = frows s \<and> crows s' = crows s \<and>
      (\<forall>x \<in> set rows. \<exists>r \<in> set (frows s). sd_id x = fr_id r \<and> sd_file x = fr_file r
         \<and> sd_title x = fr_title r \<and> fr_lane r = l \<and> fr_status r \<in> set REOPENABLE_STATUSES)"
    and live_law: "lo_live_coverage ops l s = (cs, s') \<Longrightarrow>
      (up s \<longrightarrow> up s') \<and> frows s' = frows s \<and> crows s' = crows s"
    and round_law: "lo_next_round ops l s = (k, s') \<Longrightarrow>
      (up s \<longrightarrow> up s') \<and> frows s' = frows s \<and> crows s' = crows s"

section \<open>Growth\<close>

text \<open>The closures a round's verdicts call for: an accepted verdict on a minted id that maps to the
  row, \<open>fixed\<close>, or \<open>rejected\<close> with a reason.\<close>

definition judged ::
  "(string, string) dict \<Rightarrow> prior_finding_status list \<Rightarrow> string \<Rightarrow> string \<Rightarrow> bool" where
  "judged rows es i st \<longleftrightarrow>
     (\<exists>e \<in> set es. \<exists>row_id. map_of rows (pfs_id e) = Some row_id \<and> same_id i row_id
        \<and> st = pfs_status e
        \<and> (st = ''fixed'' \<or> st = ''rejected'' \<and> strip (pfs_reason e) \<noteq> ''''))"

text \<open>What one step leads to: rows grow under the judgement, and a store that is up stays up.\<close>

context ledger_store
begin

definition steps :: "(string \<Rightarrow> string \<Rightarrow> bool) \<Rightarrow> lane \<Rightarrow> 's \<Rightarrow> 's \<Rightarrow> bool" where
  "steps J l s s' \<longleftrightarrow> grows J l (frows s) (frows s') \<and> cover_grows l (crows s) (crows s')
     \<and> (up s \<longrightarrow> up s')"

lemma steps_refl: "steps J l s s"
  by (simp add: steps_def grows_refl cover_grows_refl)

lemma steps_trans: "steps J l s s' \<Longrightarrow> steps J l s' s'' \<Longrightarrow> steps J l s s''"
  unfolding steps_def by (blast intro: grows_trans cover_grows_trans)

lemma steps_mono: "steps J l s s' \<Longrightarrow> (\<And>i st. J i st \<Longrightarrow> K i st) \<Longrightarrow> steps K l s s'"
  unfolding steps_def by (blast intro: grows_mono)

lemma transition_steps:
  "lo_transition ops l i st reason s = (b, s') \<Longrightarrow> (\<And>j. same_id j i \<Longrightarrow> J j st) \<Longrightarrow> steps J l s s'"
  by (drule transition_law)
    (auto simp: steps_def grows_refl cover_grows_refl intro: closes_grows split: if_splits)

lemma reopen_steps: "lo_reopen ops l i reason s = (b, s') \<Longrightarrow> steps J l s s'"
  by (drule reopen_law)
    (auto simp: steps_def grows_refl cover_grows_refl intro: raises_grows split: if_splits)

lemma touch_steps: "lo_touch_findings ops l ids s = (n, s') \<Longrightarrow> steps J l s s'"
  by (drule touch_law) (auto simp: steps_def grows_refl cover_grows_refl intro: touches_grows)

lemma record_steps: "lo_record_findings ops l rnd head fs s = (n, s') \<Longrightarrow> steps J l s s'"
  by (drule record_law) (auto simp: steps_def grows_refl cover_grows_refl intro: appends_grows)

lemma cover_steps: "lo_record_coverage ops l rnd head es s = (n, s') \<Longrightarrow> steps J l s s'"
  by (drule cover_law) (auto simp: steps_def grows_refl cover_grows_refl intro: covers_grows)

lemma expire_steps: "lo_expire_coverage ops l files s = (n, s') \<Longrightarrow> steps J l s s'"
  by (drule expire_law) (auto simp: steps_def grows_refl intro: expires_grows)

lemma read_steps:
  "lo_open_findings ops l s = (ol, s') \<Longrightarrow> steps J l s s'"
  "lo_settled_findings ops l s = (rows, s') \<Longrightarrow> steps J l s s'"
  "lo_live_coverage ops l s = (cs, s') \<Longrightarrow> steps J l s s'"
  "lo_next_round ops l s = (k, s') \<Longrightarrow> steps J l s s'"
  by (auto simp: steps_def grows_refl cover_grows_refl
      dest!: open_law settled_law live_law round_law)

lemmas op_steps = reopen_steps touch_steps record_steps cover_steps expire_steps read_steps

lemma retire_loop_steps:
  "retire_loop ops l gone head rs s = (live, s') \<Longrightarrow>
     live = filter (\<lambda>r. \<not> gone (pf_file (sf_prior r))) rs \<and>
     steps (\<lambda>i st. st = ''stale'' \<and> (\<exists>r \<in> set rs. gone (pf_file (sf_prior r)) \<and> same_id i (sf_id r)))
       l s s'"
proof (induction rs arbitrary: s live s')
  case Nil
  then show ?case by (simp add: steps_refl)
next
  case (Cons r rs)
  let ?J = "\<lambda>rs i st. st = ''stale''
      \<and> (\<exists>r \<in> set rs. gone (pf_file (sf_prior r)) \<and> same_id i (sf_id r))"
  show ?case
  proof (cases "gone (pf_file (sf_prior r))")
    case True
    obtain b s1 where t: "lo_transition ops l (sf_id r) ''stale''
        (''file absent from the tree at '' @ head) s = (b, s1)" by fastforce
    have "steps (?J (r # rs)) l s s1"
      by (rule transition_steps [OF t]) (use True in simp)
    moreover from Cons.prems True t have "retire_loop ops l gone head rs s1 = (live, s')" by simp
    from Cons.IH [OF this] have "live = filter (\<lambda>r. \<not> gone (pf_file (sf_prior r))) rs"
      "steps (?J (r # rs)) l s1 s'" by (auto elim!: steps_mono)
    ultimately show ?thesis using True by (auto intro: steps_trans)
  next
    case False
    with Cons.prems obtain live' where "retire_loop ops l gone head rs s = (live', s')"
      "live = r # live'" by (auto split: prod.splits)
    with Cons.IH [OF this(1)] False show ?thesis by (auto elim!: steps_mono)
  qed
qed

lemma apply_verdicts_steps:
  "apply_verdicts ops rows l es v s = (v', s') \<Longrightarrow> steps (judged rows es) l s s'"
proof (induction es arbitrary: v s)
  case Nil
  then show ?case by (simp add: steps_refl)
next
  case (Cons e es)
  have rest: "steps (judged rows (e # es)) l s1 s'" if "apply_verdicts ops rows l es v1 s1 = (v', s')" for v1 s1
    using Cons.IH [OF that] by (rule steps_mono) (auto simp: judged_def)
  show ?case
  proof (cases "\<exists>row_id. map_of rows (pfs_id e) = Some row_id \<and> (pfs_status e = ''fixed''
      \<or> pfs_status e = ''rejected'' \<and> strip (pfs_reason e) \<noteq> '''')")
    case True
    then obtain row_id where r: "map_of rows (pfs_id e) = Some row_id"
      "pfs_status e = ''fixed'' \<or> pfs_status e = ''rejected'' \<and> strip (pfs_reason e) \<noteq> ''''" by blast
    obtain b s1 where t: "lo_transition ops l row_id (pfs_status e) (strip (pfs_reason e)) s = (b, s1)"
      by fastforce
    have "steps (judged rows (e # es)) l s s1"
      by (rule transition_steps [OF t]) (use r in \<open>auto simp: judged_def\<close>)
    moreover have "steps (judged rows (e # es)) l s1 s'"
      by (rule rest) (use Cons.prems r t in \<open>simp add: Let_def\<close>)
    ultimately show ?thesis by (rule steps_trans)
  next
    case False
    with Cons.prems show ?thesis by (auto simp: Let_def intro: rest split: option.splits)
  qed
qed

lemma match_finding_steps:
  "match_finding ops l rnd f (m, s) = (m', s') \<Longrightarrow> steps J l s s'"
  by (auto simp: match_finding_def Let_def steps_refl intro: op_steps
      split: option.splits prod.splits if_splits)

lemma fold_match_steps:
  "fold (match_finding ops l rnd) fs (m, s) = (m', s') \<Longrightarrow> steps J l s s'"
proof (induction fs arbitrary: m s)
  case Nil
  then show ?case by (simp add: steps_refl)
next
  case (Cons f fs)
  obtain m1 s1 where 1: "match_finding ops l rnd f (m, s) = (m1, s1)" by fastforce
  with Cons.prems have "fold (match_finding ops l rnd) fs (m1, s1) = (m', s')" by simp
  from steps_trans [OF match_finding_steps [OF 1] Cons.IH [OF this]] show ?case .
qed

lemma reopen_candidates_steps:
  "reopen_candidates ops l s = (d, s') \<Longrightarrow> steps J l s s'"
  by (auto simp: reopen_candidates_def intro: op_steps split: prod.splits)

text \<open>A settled round as the sequence of its phases.\<close>

lemma settle_phases:
  assumes "settle ops carried l head prior_status findings examined cl True s = (se, s')"
  obtains v s1 cand sa m sb n1 sc n2 sd where
    "apply_verdicts ops (cs_rows carried) l (accepted_status (cs_state carried) prior_status)
       \<lparr>vs_touch = [], vs_closed = 0, vs_settled = {}\<rparr> s = (v, s1)"
    "(if findings \<noteq> [] then reopen_candidates ops l s1 else ([], s1)) = (cand, sa)"
    "fold (match_finding ops l (cs_round carried)) findings
       (\<lparr>ms_open = still_open_rows carried (vs_settled v), ms_cand = cand, ms_fresh = [],
         ms_touch = vs_touch v, ms_deduped = [], ms_reopened = []\<rparr>, sa) = (m, sb)"
    "lo_touch_findings ops l (ms_touch m) sb = (n1, sc)"
    "lo_record_findings ops l (cs_round carried) head (map snd (ms_fresh m)) sc = (n2, sd)"
    "(if cl then lo_record_coverage ops l (cs_round carried) head (keyed examined) sd
      else (0, sd)) = (se_coverage se, s')"
    "se_closed se = vs_closed v" "se_reasserted se = length (ms_touch m)" "se_recorded se = n2"
    "se_deduped se = ms_deduped m" "se_reopened se = ms_reopened m"
  using assms unfolding settle_def Let_def by (auto split: prod.splits if_splits)

lemma settle_steps:
  assumes "settle ops carried l head prior_status findings examined cl fl s = (se, s')"
  shows "steps (judged (cs_rows carried) (accepted_status (cs_state carried) prior_status)) l s s'"
proof (cases fl)
  case True
  from assms True
  have "settle ops carried l head prior_status findings examined cl True s = (se, s')" by simp
  then show ?thesis
  proof (rule settle_phases)
    fix v s1 cand sa m sb n1 sc n2 sd
    assume p: "apply_verdicts ops (cs_rows carried) l (accepted_status (cs_state carried) prior_status)
       \<lparr>vs_touch = [], vs_closed = 0, vs_settled = {}\<rparr> s = (v, s1)"
    "(if findings \<noteq> [] then reopen_candidates ops l s1 else ([], s1)) = (cand, sa)"
    "fold (match_finding ops l (cs_round carried)) findings
       (\<lparr>ms_open = still_open_rows carried (vs_settled v), ms_cand = cand, ms_fresh = [],
         ms_touch = vs_touch v, ms_deduped = [], ms_reopened = []\<rparr>, sa) = (m, sb)"
    "lo_touch_findings ops l (ms_touch m) sb = (n1, sc)"
    "lo_record_findings ops l (cs_round carried) head (map snd (ms_fresh m)) sc = (n2, sd)"
    "(if cl then lo_record_coverage ops l (cs_round carried) head (keyed examined) sd
      else (0, sd)) = (se_coverage se, s')"
    have "steps J l s1 sa" for J
      using p(2) by (auto intro: reopen_candidates_steps simp: steps_refl split: if_splits)
    moreover have "steps J l sd s'" for J
      using p(6) by (auto intro: op_steps simp: steps_refl split: if_splits)
    ultimately show ?thesis
      using apply_verdicts_steps [OF p(1)] fold_match_steps [OF p(3)] touch_steps [OF p(4)]
        record_steps [OF p(5)] by (meson steps_trans)
  qed
next
  case False
  with assms show ?thesis
    by (auto simp: settle_def Let_def steps_refl intro: op_steps split: prod.splits if_splits)
qed

end

section \<open>Claims\<close>

text \<open>
  A lane has an open row for a claim; or a settled one, with that id, that may be re-raised. A
  carried state is sound when every minted id maps to an open row of its claim, and no two ids
  to one row.
\<close>

definition open_claim :: "finding_row list \<Rightarrow> lane \<Rightarrow> anchor \<Rightarrow> bool" where
  "open_claim rs l a \<longleftrightarrow>
     (\<exists>r \<in> set rs. fr_lane r = l \<and> fr_status r = ''open'' \<and> claim_anchor (fr_file r) (fr_title r) = a)"

definition known_claim :: "finding_row list \<Rightarrow> lane \<Rightarrow> anchor \<Rightarrow> string \<Rightarrow> bool" where
  "known_claim rs l a i \<longleftrightarrow>
     (\<exists>r \<in> set rs. fr_id r = i \<and> fr_lane r = l \<and> claim_anchor (fr_file r) (fr_title r) = a
        \<and> fr_status r \<in> insert ''open'' (set REOPENABLE_STATUSES))"

definition carries :: "finding_row list \<Rightarrow> lane \<Rightarrow> carried_state \<Rightarrow> bool" where
  "carries rs l c \<longleftrightarrow>
     (\<forall>(minted, prior) \<in> set (ps_ids (cs_state c)). \<forall>i. map_of (cs_rows c) minted = Some i \<longrightarrow>
        (\<exists>r \<in> set rs. fr_id r = i \<and> fr_lane r = l \<and> fr_status r = ''open''
           \<and> fr_file r = pf_file prior \<and> fr_title r = pf_title prior))
     \<and> (\<forall>a b x y. map_of (cs_rows c) a = Some x \<longrightarrow> map_of (cs_rows c) b = Some y
          \<longrightarrow> same_id x y \<longrightarrow> a = b)"

lemma grows_row:
  assumes "grows J l rs rs'" "r \<in> set rs"
  obtains r' where "r' \<in> set rs'" "moves J l r r'"
proof -
  from assms(1) obtain mid news where "rs' = mid @ news" "list_all2 (moves J l) rs mid"
    unfolding grows_def by blast
  moreover from calculation(2) assms(2) have "\<exists>r' \<in> set mid. moves J l r r'"
    by (induction rule: list_all2_induct) auto
  ultimately show ?thesis using that by auto
qed

lemma open_claim_keep:
  assumes "grows (\<lambda>_ _. False) l rs rs'" "open_claim rs l a"
  shows "open_claim rs' l a"
proof -
  from assms(2) obtain r where r: "r \<in> set rs" "fr_lane r = l" "fr_status r = ''open''"
    "claim_anchor (fr_file r) (fr_title r) = a" unfolding open_claim_def by blast
  from grows_row [OF assms(1) r(1)] obtain r' where "r' \<in> set rs'" "moves (\<lambda>_ _. False) l r r'" .
  with r show ?thesis
    unfolding open_claim_def by (intro bexI [of _ r']) (auto simp: moves_def same_finding_def)
qed

lemma known_claim_keep:
  assumes "grows (\<lambda>_ _. False) l rs rs'" "known_claim rs l a i"
  shows "known_claim rs' l a i"
proof -
  from assms(2) obtain r where r: "r \<in> set rs" "fr_id r = i" "fr_lane r = l"
    "claim_anchor (fr_file r) (fr_title r) = a"
    "fr_status r \<in> insert ''open'' (set REOPENABLE_STATUSES)" unfolding known_claim_def by blast
  from grows_row [OF assms(1) r(1)] obtain r' where "r' \<in> set rs'" "moves (\<lambda>_ _. False) l r r'" .
  with r show ?thesis
    unfolding known_claim_def by (intro bexI [of _ r']) (auto simp: moves_def same_finding_def)
qed

lemma raises_open_claim:
  assumes "raises l i rs rs'" "known_claim rs l a i"
  shows "open_claim rs' l a"
proof -
  from assms(2) obtain r where r: "r \<in> set rs" "fr_id r = i" "fr_lane r = l"
    "claim_anchor (fr_file r) (fr_title r) = a"
    "fr_status r \<in> insert ''open'' (set REOPENABLE_STATUSES)" unfolding known_claim_def by blast
  from assms(1) obtain reason t where "rs' = map (\<lambda>r. if reopen_hits l i r
     then r\<lparr>fr_status := ''open'', fr_reason := reason, fr_reopened := fr_reopened r + 1,
             fr_updated := t\<rparr> else r) rs" unfolding raises_def by blast
  then have img: "(if reopen_hits l i r
     then r\<lparr>fr_status := ''open'', fr_reason := reason, fr_reopened := fr_reopened r + 1,
             fr_updated := t\<rparr> else r) \<in> set rs'" (is "?r \<in> _")
    using r(1) by simp
  have "fr_lane ?r = l \<and> fr_status ?r = ''open'' \<and> claim_anchor (fr_file ?r) (fr_title ?r) = a"
    using r by (auto simp: reopen_hits_def same_id_def)
  with img show ?thesis unfolding open_claim_def by blast
qed

text \<open>The rows a fold of \<open>dict.setdefault\<close> keeps are rows it was given, under their own claim.\<close>

lemma candidates_sound:
  "(a, x) \<in> set (fold (\<lambda>r d. dict_setdefault (claim_anchor (sd_file r) (sd_title r)) r d) rows d) \<Longrightarrow>
     (a, x) \<in> set d \<or> x \<in> set rows \<and> a = claim_anchor (sd_file x) (sd_title x)"
proof (induction rows arbitrary: d)
  case (Cons r rows)
  from Cons.IH [of "dict_setdefault (claim_anchor (sd_file r) (sd_title r)) r d"] Cons.prems
  show ?case by (auto simp: dict_setdefault_def split: if_splits)
qed simp

lemma still_open_sound:
  assumes "(a, i) \<in> set (still_open_rows c S)"
  obtains minted prior where "(minted, prior) \<in> set (ps_ids (cs_state c))" "minted \<notin> S"
    "map_of (cs_rows c) minted = Some i" "a = claim_anchor (pf_file prior) (pf_title prior)"
proof -
  let ?f = "\<lambda>(minted, prior) d. case map_of (cs_rows c) minted of None \<Rightarrow> d
     | Some row_id \<Rightarrow> if minted \<in> S then d
         else dict_set (claim_anchor (pf_file prior) (pf_title prior)) row_id d"
  have "(a, i) \<in> set d \<or> (\<exists>(minted, prior) \<in> set es. minted \<notin> S
      \<and> map_of (cs_rows c) minted = Some i \<and> a = claim_anchor (pf_file prior) (pf_title prior))"
    if "(a, i) \<in> set (fold ?f es d)" for es d
    using that
  proof (induction es arbitrary: d)
    case (Cons e es)
    from Cons.IH [of "?f e d"] Cons.prems show ?case
      by (auto split: option.splits if_splits dest: in_dict_set)
  qed simp
  from this [of "ps_ids (cs_state c)" "[]"] assms that show ?thesis
    unfolding still_open_rows_def by auto
qed

definition row_claim :: "finding_row \<Rightarrow> anchor" where
  "row_claim r = claim_anchor (fr_file r) (fr_title r)"

definition unclipped :: "agentic_finding \<Rightarrow> bool" where
  "unclipped f \<longleftrightarrow> length (af_file f) \<le> MAX_TEXT \<and> length (af_title f) \<le> MAX_TEXT"

lemma appends_open_claim:
  assumes "appends l rnd head fs rs rs'" "f \<in> set fs" "unclipped f"
  shows "open_claim rs' l (finding_claim f)"
proof -
  from assms(1) obtain news where n: "rs' = rs @ news"
    "list_all2 (\<lambda>f r. \<exists>i t. r = new_finding_row i t l rnd head f) fs news"
    unfolding appends_def by blast
  from n(2) assms(2) obtain i t where "new_finding_row i t l rnd head f \<in> set news"
    by (induction rule: list_all2_induct) auto
  with n(1) assms(3) show ?thesis
    unfolding open_claim_def
    by (intro bexI [of _ "new_finding_row i t l rnd head f"])
      (simp_all add: new_finding_row_def finding_claim_def unclipped_def clip_def)
qed

text \<open>
  The state of the matching loop against the table: the open rows it knows are open, the
  candidates are known rows, and its fresh findings stand under their own, so far unused, claim.
\<close>

definition match_ok :: "finding_row list \<Rightarrow> lane \<Rightarrow> match_state \<Rightarrow> bool" where
  "match_ok rs l m \<longleftrightarrow>
     (\<forall>(a, i) \<in> set (ms_open m). open_claim rs l a)
     \<and> (\<forall>(a, x) \<in> set (ms_cand m). known_claim rs l a (sd_id x))
     \<and> (\<forall>(a, f) \<in> set (ms_fresh m). finding_claim f = a)
     \<and> distinct (map fst (ms_fresh m))
     \<and> fst ` set (ms_fresh m) \<inter> fst ` set (ms_open m) = {}"

lemma match_ok_keep:
  assumes "grows (\<lambda>_ _. False) l rs rs'" "match_ok rs l m"
  shows "match_ok rs' l m"
proof -
  have "open_claim rs' l (fst e)" if "e \<in> set (ms_open m)" for e
  proof (rule open_claim_keep [OF assms(1)])
    show "open_claim rs l (fst e)"
      using assms(2) that by (simp add: match_ok_def case_prod_beta)
  qed
  moreover have "known_claim rs' l (fst e) (sd_id (snd e))" if "e \<in> set (ms_cand m)" for e
  proof (rule known_claim_keep [OF assms(1)])
    show "known_claim rs l (fst e) (sd_id (snd e))"
      using assms(2) that by (simp add: match_ok_def case_prod_beta)
  qed
  ultimately show ?thesis
    using assms(2) by (simp add: match_ok_def case_prod_beta)
qed

definition match_claims :: "match_state \<Rightarrow> anchor set" where
  "match_claims m = fst ` set (ms_open m) \<union> fst ` set (ms_fresh m)"

lemma match_ok_fresh:
  assumes "match_ok rs l m" "finding_claim f \<notin> fst ` set (ms_open m)"
  shows "match_ok rs l (m\<lparr>ms_fresh := dict_set (finding_claim f) f (ms_fresh m)\<rparr>)"
proof -
  have "\<forall>(a, g) \<in> set (dict_set (finding_claim f) f (ms_fresh m)). finding_claim g = a"
    using assms(1) in_dict_set [of _ "finding_claim f" f "ms_fresh m"]
    unfolding match_ok_def by blast
  with assms show ?thesis
    unfolding match_ok_def by (simp add: keys_dict_set distinct_dict_set)
qed

lemma match_ok_open:
  assumes "match_ok rs l m" "a \<notin> fst ` set (ms_fresh m)" "open_claim rs l a"
  shows "match_ok rs l (m\<lparr>ms_open := dict_set a i (ms_open m)\<rparr>)"
proof -
  have "\<forall>(b, j) \<in> set (dict_set a i (ms_open m)). open_claim rs l b"
    using assms in_dict_set [of _ a i "ms_open m"] unfolding match_ok_def by blast
  with assms show ?thesis
    unfolding match_ok_def by (simp add: keys_dict_set)
qed

lemma match_ok_pop: "match_ok rs l m \<Longrightarrow> match_ok rs l (m\<lparr>ms_cand := dict_pop a (ms_cand m)\<rparr>)"
  by (auto simp: match_ok_def dict_pop_def)

lemma match_ok_other:
  "match_ok rs l m \<Longrightarrow> match_ok rs l (m\<lparr>ms_deduped := d, ms_touch := t\<rparr>)"
  "match_ok rs l m \<Longrightarrow> match_ok rs l (m\<lparr>ms_deduped := d\<rparr>)"
  "match_ok rs l m \<Longrightarrow> match_ok rs l (m\<lparr>ms_reopened := d\<rparr>)"
  by (simp_all add: match_ok_def)

context ledger_store
begin

lemma match_finding_ok:
  assumes "match_finding ops l rnd f (m, s) = (m', s')" "match_ok (frows s) l m"
  shows "match_ok (frows s') l m' \<and> finding_claim f \<in> match_claims m'
    \<and> match_claims m \<subseteq> match_claims m' \<and> fst ` set (ms_open m) \<subseteq> fst ` set (ms_open m')"
proof (cases "map_of (ms_open m) (finding_claim f)")
  case (Some i)
  then have "finding_claim f \<in> fst ` set (ms_open m)"
    by (metis map_of_eq_None_iff option.distinct(1))
  with Some assms show ?thesis
    by (auto simp: match_finding_def Let_def match_ok_other match_claims_def)
next
  case None
  then have new: "finding_claim f \<notin> fst ` set (ms_open m)" by (simp add: map_of_eq_None_iff)
  show ?thesis
  proof (cases "finding_claim f \<in> fst ` set (ms_fresh m)")
    case True
    with assms None show ?thesis
      by (auto simp: match_finding_def Let_def match_ok_other match_claims_def)
  next
    case fresh: False
    show ?thesis
    proof (cases "map_of (ms_cand m) (finding_claim f)")
      case none: None
      with assms None fresh have "m' = m\<lparr>ms_fresh := dict_set (finding_claim f) f (ms_fresh m)\<rparr>" "s' = s"
        by (auto simp: match_finding_def Let_def)
      with match_ok_fresh [OF assms(2) new] show ?thesis
        by (simp add: match_claims_def keys_dict_set) blast
    next
      case (Some x)
      obtain b s1 where r: "lo_reopen ops l (sd_id x) (reopen_reason x rnd) s = (b, s1)" by fastforce
      let ?m = "m\<lparr>ms_cand := dict_pop (finding_claim f) (ms_cand m)\<rparr>"
      have ok: "match_ok (frows s1) l ?m"
        using match_ok_keep [OF _ match_ok_pop [OF assms(2)]] reopen_steps [OF r, of "\<lambda>_ _. False"]
        by (simp add: steps_def)
      show ?thesis
      proof (cases b)
        case True
        have "known_claim (frows s) l (finding_claim f) (sd_id x)"
          using assms(2) map_of_SomeD [OF Some] by (auto simp: match_ok_def)
        then have "open_claim (frows s1) l (finding_claim f)"
          using reopen_law [OF r] True by (auto intro: raises_open_claim)
        from match_ok_open [OF ok _ this] fresh
        have "match_ok (frows s1) l (?m\<lparr>ms_reopened := ms_reopened m @ [finding_label f],
            ms_open := dict_set (finding_claim f) (sd_id x) (ms_open m)\<rparr>)"
          by (simp add: match_ok_def)
        moreover have "s' = s1 \<and> m' = ?m\<lparr>ms_reopened := ms_reopened m @ [finding_label f],
            ms_open := dict_set (finding_claim f) (sd_id x) (ms_open m)\<rparr>"
          using assms(1) None fresh Some r True by (simp add: match_finding_def Let_def)
        ultimately show ?thesis
          by (simp add: match_claims_def keys_dict_set) blast
      next
        case False
        from match_ok_fresh [OF ok, of f] new
        have "match_ok (frows s1) l (?m\<lparr>ms_fresh := dict_set (finding_claim f) f (ms_fresh m)\<rparr>)"
          by simp
        moreover have "s' = s1 \<and> m' = ?m\<lparr>ms_fresh := dict_set (finding_claim f) f (ms_fresh m)\<rparr>"
          using assms(1) None fresh Some r False by (simp add: match_finding_def Let_def)
        ultimately show ?thesis
          by (simp add: match_claims_def keys_dict_set) blast
      qed
    qed
  qed
qed

lemma fold_match_ok:
  "fold (match_finding ops l rnd) fs (m, s) = (m', s') \<Longrightarrow> match_ok (frows s) l m \<Longrightarrow>
     match_ok (frows s') l m' \<and> finding_claim ` set fs \<subseteq> match_claims m'
     \<and> match_claims m \<subseteq> match_claims m' \<and> fst ` set (ms_open m) \<subseteq> fst ` set (ms_open m')"
proof (induction fs arbitrary: m s)
  case (Cons f fs)
  obtain m1 s1 where 1: "match_finding ops l rnd f (m, s) = (m1, s1)" by fastforce
  with Cons.prems have 2: "fold (match_finding ops l rnd) fs (m1, s1) = (m', s')" by simp
  from Cons.IH [OF 2] match_finding_ok [OF 1 Cons.prems(2)] show ?case
    by (simp add: subset_trans) blast
qed simp

end

section \<open>Sound carried state\<close>

definition closing :: "(string, string) dict \<Rightarrow> prior_finding_status \<Rightarrow> bool" where
  "closing rows e \<longleftrightarrow> map_of rows (pfs_id e) \<noteq> None
     \<and> (pfs_status e = ''fixed'' \<or> pfs_status e = ''rejected'' \<and> strip (pfs_reason e) \<noteq> '''')"

lemma judged_closing:
  "judged rows es i st \<longleftrightarrow> (\<exists>e \<in> set es. closing rows e \<and> st = pfs_status e
     \<and> same_id i (the (map_of rows (pfs_id e))))"
  unfolding judged_def closing_def by fastforce

lemma apply_verdicts_settled:
  "apply_verdicts ops rows l es v s = (v', s') \<Longrightarrow>
     vs_settled v' = vs_settled v \<union> pfs_id ` {e \<in> set es. closing rows e}"
proof (induction es arbitrary: v s)
  case (Cons e es)
  show ?case
  proof (cases "closing rows e")
    case True
    then obtain i where i: "map_of rows (pfs_id e) = Some i" by (auto simp: closing_def)
    obtain b s1 where "lo_transition ops l i (pfs_status e) (strip (pfs_reason e)) s = (b, s1)"
      by fastforce
    with Cons.prems i True have "apply_verdicts ops rows l es
        (v\<lparr>vs_settled := insert (pfs_id e) (vs_settled v), vs_closed := vs_closed v + (if b then 1 else 0)\<rparr>)
        s1 = (v', s')" by (simp add: Let_def closing_def)
    from Cons.IH [OF this] True show ?thesis by auto
  next
    case False
    then have "\<exists>w. vs_settled w = vs_settled v \<and> apply_verdicts ops rows l es w s = (v', s')"
      using Cons.prems by (cases "map_of rows (pfs_id e)")
        (auto simp: Let_def closing_def intro: exI [of _ v] exI [of _ "v\<lparr>vs_touch := vs_touch v @ [x]\<rparr>" for x])
    with Cons.IH False show ?thesis by fastforce
  qed
qed simp

lemma mint_ids_zip: "mint_ids fs = zip (map fst (mint_ids fs)) fs"
  by (metis minted_values zip_map_fst_snd)

lemma distinct_map_sub: "distinct (map g xs) \<Longrightarrow> set ys \<subseteq> set xs \<Longrightarrow> distinct ys \<Longrightarrow> distinct (map g ys)"
  by (auto simp: distinct_map intro: inj_on_subset)

lemma carries_zip:
  assumes "\<And>r. r \<in> set live \<Longrightarrow> \<exists>r' \<in> set rs. fr_id r' = fr_id r \<and> fr_lane r' = l \<and> fr_status r' = ''open''
      \<and> fr_file r' = fr_file r \<and> fr_title r' = fr_title r"
    and "distinct (map (\<lambda>r. uuid_key (fr_id r)) live)"
    and "ps_ids (cs_state c) = mint_ids (map prior_of_row live)"
    and "cs_rows c = zip (map fst (mint_ids (map prior_of_row live))) (map fr_id live)"
  shows "carries rs l c"
proof -
  let ?ks = "map fst (mint_ids (map prior_of_row live))"
  have ks: "distinct ?ks" "length ?ks = length live"
    by (rule distinct_minted) (simp add: minted_keys del: upt_Suc)
  have look: "\<exists>k < length live. a = ?ks ! k \<and> x = fr_id (live ! k)" if "map_of (cs_rows c) a = Some x" for a x
    using map_of_SomeD [OF that] ks(2) unfolding assms(4) by (auto simp: set_zip)
  have "\<exists>r \<in> set rs. fr_id r = i \<and> fr_lane r = l \<and> fr_status r = ''open''
           \<and> fr_file r = pf_file prior \<and> fr_title r = pf_title prior"
    if m: "(minted, prior) \<in> set (ps_ids (cs_state c))" "map_of (cs_rows c) minted = Some i" for minted prior i
  proof -
    from m(1) obtain k where k: "k < length live" "minted = ?ks ! k" "prior = prior_of_row (live ! k)"
      unfolding assms(3) by (subst (asm) mint_ids_zip) (auto simp: set_zip)
    have "map_of (zip ?ks (map fr_id live)) (?ks ! k) = Some (map fr_id live ! k)"
      using ks k(1) by (intro map_of_zip_nth) simp_all
    with m(2) k(1,2) have "i = fr_id (live ! k)" unfolding assms(4) by simp
    with assms(1) [OF nth_mem [OF k(1)]] k(3) show ?thesis by (auto simp: prior_of_row_def)
  qed
  moreover have "a = b" if "map_of (cs_rows c) a = Some x" "map_of (cs_rows c) b = Some y" "same_id x y" for a b x y
  proof -
    from look [OF that(1)] look [OF that(2)] obtain j k where
      "j < length live" "a = ?ks ! j" "x = fr_id (live ! j)" "k < length live" "b = ?ks ! k" "y = fr_id (live ! k)"
      by blast
    with that(3) assms(2) show ?thesis
      by (simp add: same_id_def distinct_conv_nth) metis
  qed
  ultimately show ?thesis unfolding carries_def by blast
qed

text \<open>The files a seat's rows are retired on: absent from a usable checkout.\<close>

definition absent :: "tree_fs \<Rightarrow> string \<Rightarrow> string \<Rightarrow> bool" where
  "absent fs checkout_root file \<longleftrightarrow>
     (case tree_root fs checkout_root of
        None \<Rightarrow> False
      | Some (root, real_root) \<Rightarrow> is_gone fs root real_root file)"

definition retired :: "tree_fs \<Rightarrow> string \<Rightarrow> lane \<Rightarrow> finding_row list \<Rightarrow> string \<Rightarrow> string \<Rightarrow> bool" where
  "retired fs checkout_root l rs i st \<longleftrightarrow> st = ''stale'' \<and>
     (\<exists>r \<in> set rs. fr_lane r = l \<and> fr_status r = ''open'' \<and> same_id i (fr_id r)
        \<and> absent fs checkout_root (fr_file r))"

context ledger_store
begin

lemma retire_missing_steps:
  assumes "retire_missing ops fs l stored checkout_root head s = (live, s')"
  shows "live = filter (\<lambda>r. \<not> absent fs checkout_root (pf_file (sf_prior r))) stored
    \<and> steps (\<lambda>i st. st = ''stale'' \<and> (\<exists>r \<in> set stored. absent fs checkout_root (pf_file (sf_prior r))
        \<and> same_id i (sf_id r))) l s s'"
proof (cases "tree_root fs checkout_root")
  case None
  with assms show ?thesis by (simp add: retire_missing_def absent_def steps_refl)
next
  case (Some p)
  then obtain root real_root where "tree_root fs checkout_root = Some (root, real_root)"
    by (cases p) simp
  with assms retire_loop_steps [of l "is_gone fs root real_root" head stored s live s'] show ?thesis
    by (simp add: retire_missing_def absent_def)
qed

lemma carried_coverage_steps:
  assumes "carried_coverage ops fs l checkout_root s = (x, s')"
  shows "steps J l s s' \<and> frows s' = frows s"
proof -
  obtain rows s1 where 1: "lo_live_coverage ops l s = (rows, s1)" by fastforce
  with assms consider "s' = s1" | gone n where "lo_expire_coverage ops l gone s1 = (n, s')"
    by (auto simp: carried_coverage_def Let_def split: prod.splits option.splits if_splits)
  then show ?thesis
    using read_steps(3) [OF 1] live_law [OF 1]
    by cases (auto intro: steps_trans expire_steps dest: expire_law)
qed

lemma carry_in_phases:
  assumes "carry_in ops fs l root head touched cl fl s = ((c, notes), s')"
  obtains n s1 opened sa live s2 cov s3 where
    "lo_expire_coverage ops l (expiry_targets touched) s = (n, s1)"
    "fl \<Longrightarrow> lo_open_findings ops l s1 = (opened, sa)"
    "fl \<Longrightarrow> retire_missing ops fs l (ol_rows opened) root head sa = (live, s2)"
    "\<not> fl \<Longrightarrow> live = [] \<and> s2 = s1"
    "(if cl then carried_coverage ops fs l root s2 else (([], 0, 0), s2)) = (cov, s3)"
    "lo_next_round ops l s3 = (cs_round c, s')"
    "cs_state c = render_prior_state (map sf_prior live) (fst cov) MAX_PRIOR_COVERAGE MAX_PRIOR_EVIDENCE"
    "cs_rows c = zip (map fst (ps_ids (cs_state c))) (map sf_id live)"
  using assms unfolding carry_in_def Let_def by (auto split: prod.splits if_splits)

lemma carry_in_steps:
  assumes "carry_in ops fs l root head touched cl fl s = ((c, notes), s')"
  shows "steps (retired fs root l (frows s)) l s s'"
proof (rule carry_in_phases [OF assms])
  fix n s1 opened sa live s2 cov s3
  assume p: "lo_expire_coverage ops l (expiry_targets touched) s = (n, s1)"
    "fl \<Longrightarrow> lo_open_findings ops l s1 = (opened, sa)"
    "fl \<Longrightarrow> retire_missing ops fs l (ol_rows opened) root head sa = (live, s2)"
    "\<not> fl \<Longrightarrow> live = [] \<and> s2 = s1"
    "(if cl then carried_coverage ops fs l root s2 else (([], 0, 0), s2)) = (cov, s3)"
    "lo_next_round ops l s3 = (cs_round c, s')"
  have "steps (retired fs root l (frows s)) l s1 s2"
  proof (cases fl)
    case True
    have "steps (retired fs root l (frows s)) l sa s2"
      using conjunct2 [OF retire_missing_steps [OF p(3) [OF True]]]
    proof (rule steps_mono)
      fix i st
      assume a: "st = ''stale'' \<and> (\<exists>r \<in> set (ol_rows opened). absent fs root (pf_file (sf_prior r))
        \<and> same_id i (sf_id r))"
      with open_law [OF p(2) [OF True]] expire_law [OF p(1)]
      show "retired fs root l (frows s) i st"
        by (force simp: retired_def prior_of_row_def)
    qed
    with read_steps(1) [OF p(2) [OF True]] show ?thesis by (rule steps_trans)
  next
    case False
    with p(4) show ?thesis by (simp add: steps_refl)
  qed
  moreover have "steps J l s2 s3" for J
    using p(5) by (auto simp: steps_refl intro: conjunct1 [OF carried_coverage_steps] split: if_splits)
  ultimately show ?thesis
    using expire_steps [OF p(1)] read_steps(4) [OF p(6)] by (meson steps_trans)
qed

text \<open>With distinct row ids, what \<open>carry_in\<close> hands on is sound for the store it leaves.\<close>

lemma carry_in_carries:
  assumes "carry_in ops fs l root head touched cl True s = ((c, notes), s')"
    and ids: "distinct (map (\<lambda>r. uuid_key (fr_id r)) (frows s))"
  shows "carries (frows s') l c"
proof (rule carry_in_phases [OF assms(1)])
  fix n s1 opened sa live s2 cov s3
  assume p: "lo_expire_coverage ops l (expiry_targets touched) s = (n, s1)"
    "True \<Longrightarrow> lo_open_findings ops l s1 = (opened, sa)"
    "True \<Longrightarrow> retire_missing ops fs l (ol_rows opened) root head sa = (live, s2)"
    "(if cl then carried_coverage ops fs l root s2 else (([], 0, 0), s2)) = (cov, s3)"
    "lo_next_round ops l s3 = (cs_round c, s')"
    "cs_state c = render_prior_state (map sf_prior live) (fst cov) MAX_PRIOR_COVERAGE MAX_PRIOR_EVIDENCE"
    "cs_rows c = zip (map fst (ps_ids (cs_state c))) (map sf_id live)"
  have f1: "frows s1 = frows s" using expire_law [OF p(1)] by simp
  from open_law [OF p(2) [OF TrueI]] ids obtain rows where rows:
    "ol_rows opened = map (\<lambda>r. \<lparr>sf_id = fr_id r, sf_prior = prior_of_row r\<rparr>) rows"
    "set rows \<subseteq> {r \<in> set (frows s). fr_lane r = l \<and> fr_status r = ''open''}"
    "distinct rows" "frows sa = frows s"
    by (auto simp: f1 distinct_map)
  let ?keep = "\<lambda>r. \<not> absent fs root (fr_file r)"
  let ?live = "filter ?keep rows"
  have live: "live = map (\<lambda>r. \<lparr>sf_id = fr_id r, sf_prior = prior_of_row r\<rparr>) ?live"
    and st: "steps (\<lambda>i st. st = ''stale'' \<and> (\<exists>r \<in> set rows. absent fs root (fr_file r)
        \<and> same_id i (fr_id r))) l sa s2"
    using retire_missing_steps [OF p(3) [OF TrueI]]
    by (simp_all add: rows(1) filter_map comp_def prior_of_row_def)
  have "frows s' = frows s2"
    using p(4) round_law [OF p(5)] carried_coverage_steps by (auto split: if_splits)
  moreover have "\<exists>r' \<in> set (frows s2). fr_id r' = fr_id r \<and> fr_lane r' = l \<and> fr_status r' = ''open''
      \<and> fr_file r' = fr_file r \<and> fr_title r' = fr_title r" if "r \<in> set ?live" for r
  proof -
    from that rows(2) have r: "r \<in> set (frows s)" "fr_lane r = l" "fr_status r = ''open''" "?keep r" "r \<in> set rows"
      by auto
    from st have "grows (\<lambda>i st. st = ''stale'' \<and> (\<exists>r \<in> set rows. absent fs root (fr_file r)
        \<and> same_id i (fr_id r))) l (frows s) (frows s2)" by (simp add: steps_def rows(4))
    then obtain r' where r': "r' \<in> set (frows s2)" "moves (\<lambda>i st. st = ''stale''
        \<and> (\<exists>r \<in> set rows. absent fs root (fr_file r) \<and> same_id i (fr_id r))) l r r'"
      using r(1) by (rule grows_row)
    have "\<not> same_id (fr_id r) (fr_id q)" if "q \<in> set rows" "absent fs root (fr_file q)" for q
    proof
      assume "same_id (fr_id r) (fr_id q)"
      moreover from that(1) rows(2) have "q \<in> set (frows s)" by auto
      ultimately have "r = q"
        using ids r(1) by (simp add: same_id_def distinct_map inj_on_def)
      with that(2) r(4) show False by simp
    qed
    with r r' show ?thesis
      by (intro bexI [of _ r']) (auto simp: moves_def same_finding_def)
  qed
  moreover have "distinct (map (\<lambda>r. uuid_key (fr_id r)) ?live)"
    by (rule distinct_map_sub [OF ids]) (use rows in auto)
  moreover have "map sf_prior live = map prior_of_row ?live" "map sf_id live = map fr_id ?live"
    unfolding live by simp_all
  ultimately show ?thesis
    using p(6,7) by (intro carries_zip [of ?live]) (simp_all add: render_ids)
qed

lemma verdicts_still_open:
  assumes "apply_verdicts ops (cs_rows c) l es v s = (v', s')" "carries (frows s) l c"
    and "(a, i) \<in> set (still_open_rows c (vs_settled v'))"
  shows "open_claim (frows s') l a"
proof (rule still_open_sound [OF assms(3)])
  fix minted prior
  assume m: "(minted, prior) \<in> set (ps_ids (cs_state c))" "minted \<notin> vs_settled v'"
    "map_of (cs_rows c) minted = Some i" "a = claim_anchor (pf_file prior) (pf_title prior)"
  with assms(2) obtain r where r: "r \<in> set (frows s)" "fr_id r = i" "fr_lane r = l"
    "fr_status r = ''open''" "fr_file r = pf_file prior" "fr_title r = pf_title prior"
    unfolding carries_def by blast
  from apply_verdicts_steps [OF assms(1)]
  have "grows (judged (cs_rows c) es) l (frows s) (frows s')" by (simp add: steps_def)
  then obtain r' where r': "r' \<in> set (frows s')" "moves (judged (cs_rows c) es) l r r'"
    using r(1) by (rule grows_row)
  have "\<not> judged (cs_rows c) es i st" for st
  proof
    assume "judged (cs_rows c) es i st"
    then obtain e where e: "e \<in> set es" "closing (cs_rows c) e" "same_id i (the (map_of (cs_rows c) (pfs_id e)))"
      unfolding judged_closing by blast
    then obtain y where "map_of (cs_rows c) (pfs_id e) = Some y" by (auto simp: closing_def)
    with e(3) m(3) assms(2) have "minted = pfs_id e" unfolding carries_def by auto
    with e m(2) apply_verdicts_settled [OF assms(1)] show False by blast
  qed
  with r r' m(4) show ?thesis
    unfolding open_claim_def by (intro bexI [of _ r']) (auto simp: moves_def same_finding_def)
qed

lemma candidates_known:
  assumes "reopen_candidates ops l s = (cand, s')" "(a, x) \<in> set cand"
  shows "known_claim (frows s') l a (sd_id x)"
proof -
  from assms(1) obtain rows where 1: "lo_settled_findings ops l s = (rows, s')"
    "cand = fold (\<lambda>r d. dict_setdefault (claim_anchor (sd_file r) (sd_title r)) r d) rows []"
    by (auto simp: reopen_candidates_def split: prod.splits)
  from assms(2) candidates_sound [of a x rows "[]"]
  have x: "x \<in> set rows" "a = claim_anchor (sd_file x) (sd_title x)" unfolding 1(2) by auto
  from settled_law [OF 1(1)] x(1) obtain r where "r \<in> set (frows s')" "sd_id x = fr_id r"
    "sd_file x = fr_file r" "sd_title x = fr_title r" "fr_lane r = l"
    "fr_status r \<in> set REOPENABLE_STATUSES" by fastforce
  with x(2) show ?thesis unfolding known_claim_def by auto
qed

lemma same_length:
  "lo_transition ops l i st reason s = (b, s') \<Longrightarrow> length (frows s') = length (frows s)"
  "lo_reopen ops l i reason s = (b, s') \<Longrightarrow> length (frows s') = length (frows s)"
  "lo_touch_findings ops l ids s = (n, s') \<Longrightarrow> length (frows s') = length (frows s)"
  by (auto dest!: transition_law reopen_law touch_law
      simp: closes_def raises_def touches_def split: if_splits)

lemma apply_verdicts_length:
  "apply_verdicts ops rows l es v s = (v', s') \<Longrightarrow> length (frows s') = length (frows s)"
proof (induction es arbitrary: v s)
  case (Cons e es)
  from Cons.prems Cons.IH show ?case
    by (auto simp: Let_def dest: same_length(1) split: option.splits prod.splits if_splits)
qed simp

lemma fold_match_fresh:
  "fold (match_finding ops l rnd) fs (m, s) = (m', s') \<Longrightarrow>
     snd ` set (ms_fresh m') \<subseteq> snd ` set (ms_fresh m) \<union> set fs"
proof (induction fs arbitrary: m s)
  case (Cons f fs)
  obtain m1 s1 where 1: "match_finding ops l rnd f (m, s) = (m1, s1)" by fastforce
  then have "ms_fresh m1 = ms_fresh m \<or> ms_fresh m1 = dict_set (finding_claim f) f (ms_fresh m)"
    by (auto simp: match_finding_def Let_def split: option.splits prod.splits if_splits)
  then have "snd ` set (ms_fresh m1) \<subseteq> insert f (snd ` set (ms_fresh m))"
    by (auto dest!: in_dict_set)
  moreover from Cons.prems 1 have "fold (match_finding ops l rnd) fs (m1, s1) = (m', s')" by simp
  from Cons.IH [OF this] have "snd ` set (ms_fresh m') \<subseteq> snd ` set (ms_fresh m1) \<union> set fs" .
  ultimately show ?case by (simp only: list.set) blast
qed simp

lemma fold_match_length:
  "fold (match_finding ops l rnd) fs (m, s) = (m', s') \<Longrightarrow> length (frows s') = length (frows s)"
proof (induction fs arbitrary: m s)
  case (Cons f fs)
  obtain m1 s1 where 1: "match_finding ops l rnd f (m, s) = (m1, s1)" by fastforce
  then have "length (frows s1) = length (frows s)"
    by (auto simp: match_finding_def Let_def dest: same_length(2)
        split: option.splits prod.splits if_splits)
  with Cons 1 show ?case by simp
qed simp

text \<open>The matching loop of a round that settles sound state ends sound, with every claim known.\<close>

lemma settle_match:
  assumes "settle ops c l head ps findings examined cl True s = (se, s')" "carries (frows s) l c"
  obtains m sb sc n n2 sd where
    "match_ok (frows sb) l m" "finding_claim ` set findings \<subseteq> match_claims m"
    "fst ` set (still_open_rows c (pfs_id ` {e \<in> set (accepted_status (cs_state c) ps).
       closing (cs_rows c) e})) \<subseteq> fst ` set (ms_open m)"
    "snd ` set (ms_fresh m) \<subseteq> set findings"
    "length (frows sb) = length (frows s)" "up s \<longrightarrow> up sb"
    "lo_touch_findings ops l (ms_touch m) sb = (n, sc)"
    "lo_record_findings ops l (cs_round c) head (map snd (ms_fresh m)) sc = (n2, sd)"
    "frows s' = frows sd"
proof (rule settle_phases [OF assms(1)])
  fix v s1 cand sa m sb n1 sc n2 sd
  assume p: "apply_verdicts ops (cs_rows c) l (accepted_status (cs_state c) ps)
       \<lparr>vs_touch = [], vs_closed = 0, vs_settled = {}\<rparr> s = (v, s1)"
    "(if findings \<noteq> [] then reopen_candidates ops l s1 else ([], s1)) = (cand, sa)"
    "fold (match_finding ops l (cs_round c)) findings
       (\<lparr>ms_open = still_open_rows c (vs_settled v), ms_cand = cand, ms_fresh = [],
         ms_touch = vs_touch v, ms_deduped = [], ms_reopened = []\<rparr>, sa) = (m, sb)"
    "lo_touch_findings ops l (ms_touch m) sb = (n1, sc)"
    "lo_record_findings ops l (cs_round c) head (map snd (ms_fresh m)) sc = (n2, sd)"
    "(if cl then lo_record_coverage ops l (cs_round c) head (keyed examined) sd
      else (0, sd)) = (se_coverage se, s')"
  let ?m0 = "\<lparr>ms_open = still_open_rows c (vs_settled v), ms_cand = cand, ms_fresh = [],
         ms_touch = vs_touch v, ms_deduped = [], ms_reopened = []\<rparr>"
  have sa: "frows sa = frows s1" "up s1 \<longrightarrow> up sa"
    using p(2) by (auto simp: reopen_candidates_def dest: settled_law split: if_splits prod.splits)
  have op: "open_claim (frows sa) l (fst e)" if "e \<in> set (still_open_rows c (vs_settled v))" for e
    using verdicts_still_open [OF p(1) assms(2), of "fst e" "snd e"] that by (simp add: sa)
  have ca: "known_claim (frows sa) l (fst e) (sd_id (snd e))" if "e \<in> set cand" for e
    using p(2) that candidates_known [of l s1 cand sa "fst e" "snd e"] by (auto split: if_splits)
  from op ca have ok: "match_ok (frows sa) l ?m0"
    by (simp add: match_ok_def case_prod_beta)
  have "vs_settled v = pfs_id ` {e \<in> set (accepted_status (cs_state c) ps). closing (cs_rows c) e}"
    using apply_verdicts_settled [OF p(1)] by simp
  moreover have "frows s' = frows sd" using p(6) by (auto dest: cover_law split: if_splits)
  moreover have "up s \<longrightarrow> up sb"
    using apply_verdicts_steps [OF p(1)] fold_match_steps [OF p(3), of "\<lambda>_ _. False"] sa(2)
    by (simp add: steps_def)
  moreover have "length (frows sb) = length (frows s)"
    using apply_verdicts_length [OF p(1)] fold_match_length [OF p(3)] sa(1) by simp
  ultimately show thesis
    using fold_match_ok [OF p(3) ok] fold_match_fresh [OF p(3)] p(4,5)
    by (intro that [of sb m]) simp_all
qed

lemma settle_keeps_claims:
  assumes "settle ops c l head ps findings examined cl True s = (se, s')" "carries (frows s) l c"
    and "up s" "f \<in> set findings" "\<forall>g \<in> set findings. unclipped g"
  shows "open_claim (frows s') l (finding_claim f)"
proof (rule settle_match [OF assms(1,2)])
  fix m sb sc n n2 sd
  assume p: "match_ok (frows sb) l m" "finding_claim ` set findings \<subseteq> match_claims m"
    "snd ` set (ms_fresh m) \<subseteq> set findings" "up s \<longrightarrow> up sb"
    "lo_touch_findings ops l (ms_touch m) sb = (n, sc)"
    "lo_record_findings ops l (cs_round c) head (map snd (ms_fresh m)) sc = (n2, sd)"
    "frows s' = frows sd"
  have up: "up sc" using assms(3) p(4) touch_law [OF p(5)] by blast
  have keep: "open_claim (frows sd) l a" if "open_claim (frows sb) l a" for a
  proof -
    have "grows (\<lambda>_ _. False) l (frows sb) (frows sc)" "grows (\<lambda>_ _. False) l (frows sc) (frows sd)"
      using touch_steps [OF p(5)] record_steps [OF p(6)] by (simp_all add: steps_def)
    then show ?thesis using that open_claim_keep by blast
  qed
  from p(2) assms(4) consider i where "(finding_claim f, i) \<in> set (ms_open m)"
    | g where "(finding_claim f, g) \<in> set (ms_fresh m)" unfolding match_claims_def by force
  then show ?thesis
  proof cases
    case 1
    with p(1) have "open_claim (frows sb) l (finding_claim f)"
      unfolding match_ok_def by (metis (no_types, lifting) case_prodD)
    with keep p(7) show ?thesis by simp
  next
    case 2
    then have g: "g \<in> set (map snd (ms_fresh m))" by force
    moreover have "finding_claim g = finding_claim f" using 2 p(1) by (auto simp: match_ok_def)
    moreover have "unclipped g" using g p(3) assms(5) by auto
    moreover have "appends l (cs_round c) head (map snd (ms_fresh m)) (frows sc) (frows sd)"
      using record_law [OF p(6)] up g by auto
    ultimately show ?thesis using appends_open_claim p(7) by metis
  qed
qed

text \<open>What a round appends: at most one row for a claim, and none for a claim it left open.\<close>

lemma settle_news:
  assumes "settle ops c l head ps findings examined cl True s = (se, s')" "carries (frows s) l c"
    and "\<forall>g \<in> set findings. unclipped g"
  shows "distinct (map row_claim (drop (length (frows s)) (frows s')))
    \<and> row_claim ` set (drop (length (frows s)) (frows s')) \<inter> fst ` set (still_open_rows c
           (pfs_id ` {e \<in> set (accepted_status (cs_state c) ps). closing (cs_rows c) e})) = {}"
proof (rule settle_match [OF assms(1,2)])
  fix m sb sc n n2 sd
  let ?still = "fst ` set (still_open_rows c
           (pfs_id ` {e \<in> set (accepted_status (cs_state c) ps). closing (cs_rows c) e}))"
  assume p: "match_ok (frows sb) l m" "?still \<subseteq> fst ` set (ms_open m)"
    "snd ` set (ms_fresh m) \<subseteq> set findings" "length (frows sb) = length (frows s)"
    "lo_touch_findings ops l (ms_touch m) sb = (n, sc)"
    "lo_record_findings ops l (cs_round c) head (map snd (ms_fresh m)) sc = (n2, sd)"
    "frows s' = frows sd"
  let ?news = "drop (length (frows s)) (frows s')"
  have len: "length (frows sc) = length (frows s)"
    using same_length(3) [OF p(5)] p(4) by simp
  have eq: "?news = [] \<or> map row_claim ?news = map fst (ms_fresh m)"
  proof -
    have fr: "map finding_claim (map snd (ms_fresh m)) = map fst (ms_fresh m)"
      using p(1) by (auto simp: match_ok_def)
    have "map row_claim news = map finding_claim fs" if "list_all2 (\<lambda>f r. \<exists>i t. r = new_finding_row i t l rnd head f) fs news"
      "\<forall>g \<in> set fs. unclipped g" for fs news rnd
      using that by (induction rule: list_all2_induct)
        (auto simp: row_claim_def new_finding_row_def unclipped_def clip_def finding_claim_def)
    moreover have "\<forall>g \<in> set (map snd (ms_fresh m)). unclipped g" using p(3) assms(3) by auto
    ultimately show ?thesis
      using record_law [OF p(6)] len p(7) fr unfolding appends_def by auto
  qed
  from eq p(1) have "distinct (map row_claim ?news)" by (auto simp: match_ok_def)
  moreover
  from eq have sub: "row_claim ` set ?news \<subseteq> fst ` set (ms_fresh m)"
    by (metis empty_iff empty_set image_empty image_set order_refl subsetI)
  have "fst ` set (ms_fresh m) \<inter> fst ` set (ms_open m) = {}"
    using p(1) by (simp add: match_ok_def)
  from disjoint_mono [OF sub this p(2)] have "row_claim ` set ?news \<inter> ?still = {}" .
  ultimately show ?thesis by (rule conjI)
qed

end

section \<open>The direct transport keeps the contract\<close>

lemma local_expire_effect:
  assumes "local_expire_coverage l files s = (n, s')"
  shows "same_world s s' \<and> st_findings s' = st_findings s
    \<and> expires l (st_coverage s) (st_coverage s')
    \<and> (\<forall>fs. files = StrSeq fs \<longrightarrow> store_up s
         \<longrightarrow> (\<forall>r \<in> set (st_coverage s'). \<not> expire_hits l (Some fs) r))"
proof (cases files)
  case (BareStr b)
  with assms show ?thesis by (auto simp: local_expire_coverage_def same_world_def expires_refl)
next
  case (StrSeq fs)
  with assms have "expire_coverage l (Some (StrSeq fs)) s = (n, s')"
    by (simp add: local_expire_coverage_def)
  from expire_effect [OF this] StrSeq show ?thesis by simp
qed

interpretation pg: ledger_store local_ops st_findings st_coverage store_up
proof
  fix l i st reason s b s'
  assume "lo_transition local_ops l i st reason s = (b, s')"
  then have "transition l i st reason s = (b, s')" by (simp add: local_ops_def)
  from transition_effect [OF this]
  show "(store_up s \<longrightarrow> store_up s') \<and> st_coverage s' = st_coverage s \<and>
      (if b then closes l i st (st_findings s) (st_findings s')
       else st_findings s' = st_findings s \<or> \<not> store_up s \<and> closes l i st (st_findings s) (st_findings s'))"
    by (auto intro: same_world_up split: if_splits)
next
  fix l i reason s b s'
  assume "lo_reopen local_ops l i reason s = (b, s')"
  then have "reopen l i reason s = (b, s')" by (simp add: local_ops_def)
  from reopen_effect [OF this]
  show "(store_up s \<longrightarrow> store_up s') \<and> st_coverage s' = st_coverage s \<and>
      (if b then (\<exists>r \<in> set (st_findings s). reopen_hits l i r)
         \<and> raises l i (st_findings s) (st_findings s')
       else st_findings s' = st_findings s \<or> \<not> store_up s \<and> raises l i (st_findings s) (st_findings s'))"
    by (auto intro: same_world_up split: if_splits)
next
  fix l ids s n s'
  assume "lo_touch_findings local_ops l ids s = (n, s')"
  then have "touch_findings l (StrSeq ids) s = (n, s')" by (simp add: local_ops_def)
  from touch_effect [OF this]
  show "(store_up s \<longrightarrow> store_up s') \<and> st_coverage s' = st_coverage s \<and>
      (st_findings s' = st_findings s \<or> touches l (st_findings s) (st_findings s'))"
    by (auto intro: same_world_up)
next
  fix l rnd head fs s n s'
  assume "lo_record_findings local_ops l rnd head fs s = (n, s')"
  then have "record_findings l rnd head fs s = (n, s')" by (simp add: local_ops_def)
  from record_effect [OF this]
  show "(store_up s \<longrightarrow> store_up s') \<and> st_coverage s' = st_coverage s \<and>
      (n = 0 \<and> st_findings s' = st_findings s \<and> (store_up s \<longrightarrow> fs = [])
       \<or> (store_up s \<longrightarrow> n = length fs) \<and> appends l rnd head fs (st_findings s) (st_findings s'))"
    using same_world_up by blast
next
  fix l rnd head es s n s'
  assume "lo_record_coverage local_ops l rnd head es s = (n, s')"
  then have "record_coverage l rnd head es s = (n, s')" by (simp add: local_ops_def)
  from record_coverage_effect [OF this]
  show "(store_up s \<longrightarrow> store_up s') \<and> st_findings s' = st_findings s \<and>
      (n = 0 \<and> st_coverage s' = st_coverage s
       \<or> (store_up s \<longrightarrow> n = length es) \<and> covers l rnd head es (st_coverage s) (st_coverage s'))"
    using same_world_up by blast
next
  fix l files s n s'
  assume "lo_expire_coverage local_ops l files s = (n, s')"
  then have "local_expire_coverage l files s = (n, s')" by (simp add: local_ops_def)
  from local_expire_effect [OF this]
  show "(store_up s \<longrightarrow> store_up s') \<and> st_findings s' = st_findings s \<and>
      expires l (st_coverage s) (st_coverage s') \<and>
      (\<forall>fs. files = StrSeq fs \<longrightarrow> store_up s
         \<longrightarrow> (\<forall>r \<in> set (st_coverage s'). \<not> expire_hits l (Some fs) r))"
    using same_world_up by blast
next
  fix l s ol s'
  assume "lo_open_findings local_ops l s = (ol, s')"
  then have "open_findings l MAX_OPEN_FINDINGS s = (ol, s')" by (simp add: local_ops_def)
  from open_effect [OF this]
  show "(store_up s \<longrightarrow> store_up s') \<and> st_findings s' = st_findings s \<and> st_coverage s' = st_coverage s \<and>
      (\<exists>rows. ol_rows ol = map (\<lambda>r. \<lparr>sf_id = fr_id r, sf_prior = prior_of_row r\<rparr>) rows
         \<and> set rows \<subseteq> {r \<in> set (st_findings s). fr_lane r = l \<and> fr_status r = ''open''}
         \<and> (distinct (st_findings s) \<longrightarrow> distinct rows) \<and> 0 \<le> ol_truncated ol)"
    using same_world_up [of s s'] by (simp add: same_tables_def)
next
  fix l s rows s'
  assume "lo_settled_findings local_ops l s = (rows, s')"
  then have "settled_findings l MAX_SETTLED_FINDINGS s = (rows, s')" by (simp add: local_ops_def)
  from settled_effect [OF this]
  show "(store_up s \<longrightarrow> store_up s') \<and> st_findings s' = st_findings s \<and> st_coverage s' = st_coverage s \<and>
      (\<forall>x \<in> set rows. \<exists>r \<in> set (st_findings s). sd_id x = fr_id r \<and> sd_file x = fr_file r
         \<and> sd_title x = fr_title r \<and> fr_lane r = l \<and> fr_status r \<in> set REOPENABLE_STATUSES)"
    using same_world_up [of s s'] by (simp add: same_tables_def)
next
  fix l s cs s'
  assume "lo_live_coverage local_ops l s = (cs, s')"
  then have "live_coverage l MAX_LIVE_COVERAGE s = (cs, s')" by (simp add: local_ops_def)
  from live_effect [OF this]
  show "(store_up s \<longrightarrow> store_up s') \<and> st_findings s' = st_findings s \<and> st_coverage s' = st_coverage s"
    using same_world_up [of s s'] by (simp add: same_tables_def)
next
  fix l s k s'
  assume "lo_next_round local_ops l s = (k, s')"
  then have "next_round l s = (k, s')" by (simp add: local_ops_def)
  from next_round_effect [OF this]
  show "(store_up s \<longrightarrow> store_up s') \<and> st_findings s' = st_findings s \<and> st_coverage s' = st_coverage s"
    using same_world_up [of s s'] by (simp add: same_tables_def)
qed

section \<open>A concrete round\<close>

text \<open>
  A checkout without the file of the sample store's second finding, and the state of the lane as
  loaded from it. The properties below are applied to these.
\<close>

definition sample_fs :: tree_fs where
  "sample_fs =
     \<lparr>fs_is_dir = (\<lambda>_. True), fs_realpath = (\<lambda>_. Some ''/w''),
      fs_lstat = (\<lambda>p. if last (snd p) = ''gone.py'' then LNotFound else LPresent)\<rparr>"

definition sample_finding :: "string \<Rightarrow> agentic_finding" where
  "sample_finding file =
     \<lparr>af_file = file, af_line = None, af_end_line = None, af_severity = ''high'',
      af_category = ''bug'', af_title = ''Leak'', af_body = ''b'', af_evidence = ''e'',
      af_confidence = ''high''\<rparr>"

definition sample_carry :: "(carried_state \<times> carry_note list) \<times> store" where
  "sample_carry = carry_in local_ops sample_fs sample_lane ''/w'' ''h2'' (StrSeq []) False True sample_store"

definition sample_after :: store where
  "sample_after = sample_store
     \<lparr>st_calls := 3,
      st_findings :=
        [sample_row (CHR ''a'') sample_lane ''a.py'' ''open'',
         (sample_row (CHR ''b'') sample_lane ''gone.py'' ''stale'')
           \<lparr>fr_reason := ''file absent from the tree at h2'', fr_updated := 1\<rparr>,
         sample_row (CHR ''c'') sample_lane ''c.py'' ''rejected'',
         sample_row (CHR ''e'') (''o/r'', 7, ''b'') ''a.py'' ''open'']\<rparr>"

definition sample_carried :: carried_state where
  "sample_carried =
     \<lparr>cs_state = render_prior_state [prior_of_row (sample_row (CHR ''a'') sample_lane ''a.py'' ''open'')]
                   [] MAX_PRIOR_COVERAGE MAX_PRIOR_EVIDENCE,
      cs_rows = [(''p1'', sample_id (CHR ''a''))], cs_round = 2, cs_truncated = 0, cs_coverage = 0,
      cs_expired = 0\<rparr>"

definition sample_findings :: "agentic_finding list" where
  "sample_findings = [sample_finding ''c.py'', sample_finding ''new.py'']"

definition sample_status :: "prior_finding_status list" where
  "sample_status = [\<lparr>pfs_id = ''p1'', pfs_status = ''fixed'', pfs_reason = ''''\<rparr>]"

definition sample_round :: "settlement \<times> store" where
  "sample_round = settle local_ops (fst (fst sample_carry)) sample_lane ''h2'' sample_status
     sample_findings [] False True (snd sample_carry)"

definition sample_settle :: "settlement \<times> store" where
  "sample_settle = settle local_ops sample_carried sample_lane ''h2'' sample_status
     sample_findings [] False True sample_after"

lemma sample_carry_eq:
  "carry_in local_ops sample_fs sample_lane ''/w'' ''h2'' (StrSeq []) False True sample_store =
     ((fst (fst sample_carry), snd (fst sample_carry)), snd sample_carry)"
  by (simp add: sample_carry_def)

lemma sample_round_eq:
  "settle local_ops (fst (fst sample_carry)) sample_lane ''h2'' sample_status sample_findings []
     False True (snd sample_carry) = (fst sample_round, snd sample_round)"
  by (simp add: sample_round_def)

lemma sample_settle_eq:
  "settle local_ops sample_carried sample_lane ''h2'' sample_status sample_findings [] False True
     sample_after = (fst sample_settle, snd sample_settle)"
  by (simp add: sample_settle_def)

lemma sample_ids: "distinct (map (\<lambda>r. uuid_key (fr_id r)) (st_findings sample_store))"
  by code_simp

lemma sample_unclipped: "\<forall>g \<in> set sample_findings. unclipped g"
  by (simp add: sample_findings_def sample_finding_def unclipped_def MAX_TEXT_def)

lemma sample_carry_status: "fr_status (st_findings (snd sample_carry) ! 1) = ''stale''"
  by code_simp

lemma sample_settle_status:
  "map fr_status (st_findings (snd sample_settle)) = [''fixed'', ''stale'', ''open'', ''open'', ''open'']"
  by code_simp

section \<open>Properties of a round\<close>

lemma grows_nth:
  assumes "grows J l rs rs'" "i < length rs"
  shows "moves J l (rs ! i) (rs' ! i)"
  using assms unfolding grows_def by (auto simp: list_all2_conv_all_nth nth_append)

text \<open>C1: whatever the model says, \<open>settle\<close> takes a row out of \<open>open\<close> (or changes its status at
  all, other than back to \<open>open\<close>) only in the seat's own lane and only by a verdict of this round
  on an id minted for this prompt that maps to that row: \<open>fixed\<close>, or \<open>rejected\<close> with a reason.\<close>

theorem settle_closes_by_verdict:
  assumes "settle local_ops c l head ps findings examined cl fl s = (se, s')"
    and "i < length (st_findings s)"
    and "fr_status (st_findings s' ! i) \<noteq> fr_status (st_findings s ! i)"
  shows "fr_lane (st_findings s ! i) = l \<and>
    (fr_status (st_findings s' ! i) = ''open'' \<or>
     (\<exists>e \<in> set ps. \<exists>row_id.
        pfs_id e \<in> fst ` set (ps_ids (cs_state c)) \<and> map_of (cs_rows c) (pfs_id e) = Some row_id
        \<and> same_id (fr_id (st_findings s ! i)) row_id
        \<and> fr_status (st_findings s' ! i) = pfs_status e
        \<and> (pfs_status e = ''fixed'' \<or> pfs_status e = ''rejected'' \<and> strip (pfs_reason e) \<noteq> '''')))"
proof -
  have m: "moves (judged (cs_rows c) (accepted_status (cs_state c) ps)) l
      (st_findings s ! i) (st_findings s' ! i)"
    using pg.settle_steps [OF assms(1)] assms(2) unfolding pg.steps_def by (blast intro: grows_nth)
  then show ?thesis
    using assms(3) accepted_loop_sound unfolding moves_def judged_def accepted_status_def by metis
qed

theorem settle_closes_by_verdict_witness:
  "fr_lane (st_findings sample_after ! 0) = sample_lane
   \<and> (\<exists>e \<in> set sample_status. pfs_status e = ''fixed'')"
proof -
  have "fr_status (st_findings (snd sample_settle) ! 0) = ''fixed''"
    using sample_settle_status by (cases "st_findings (snd sample_settle)") simp_all
  moreover have "fr_status (st_findings sample_after ! 0) = ''open''" "0 < length (st_findings sample_after)"
    by (simp_all add: sample_after_def sample_row_def)
  ultimately show ?thesis
    using settle_closes_by_verdict [OF sample_settle_eq, of 0] by auto
qed

text \<open>A round never touches another seat, pull request or repository: after \<open>carry_in\<close> and
  \<open>settle\<close> on one lane, the findings and coverage rows of every other lane are exactly what they
  were, whatever the model reported and whether or not the database answered.\<close>

theorem round_other_lanes:
  assumes "carry_in local_ops fs l root head touched cl fl s = ((c, notes), s1)"
    and "settle local_ops c l head' ps findings examined cl' fl' s1 = (se, s2)"
    and "m \<noteq> l"
  shows "filter (\<lambda>r. fr_lane r = m) (st_findings s2) = filter (\<lambda>r. fr_lane r = m) (st_findings s)
    \<and> filter (\<lambda>r. cr_lane r = m) (st_coverage s2) = filter (\<lambda>r. cr_lane r = m) (st_coverage s)"
proof -
  note both = pg.carry_in_steps [OF assms(1), unfolded pg.steps_def]
    pg.settle_steps [OF assms(2), unfolded pg.steps_def]
  from both have "filter (\<lambda>r. fr_lane r = m) (st_findings s2) = filter (\<lambda>r. fr_lane r = m) (st_findings s)"
    by (elim conjE) (simp only: grows_other_lanes [OF _ assms(3)])
  moreover from both
  have "filter (\<lambda>r. cr_lane r = m) (st_coverage s2) = filter (\<lambda>r. cr_lane r = m) (st_coverage s)"
    by (elim conjE) (simp only: cover_grows_other_lanes [OF _ assms(3)])
  ultimately show ?thesis ..
qed

theorem round_other_lanes_witness:
  "filter (\<lambda>r. fr_lane r = (''o/r'', 7, ''b'')) (st_findings (snd sample_round)) =
     [sample_row (CHR ''e'') (''o/r'', 7, ''b'') ''a.py'' ''open'']"
  using round_other_lanes [OF sample_carry_eq sample_round_eq, of "(''o/r'', 7, ''b'')"]
  by (simp add: sample_lane_def sample_store_def sample_row_def)



text \<open>A round records a claim at most once: the rows \<open>settle\<close> appends have distinct claims,
  and none repeats the claim of a finding carried in that the round's verdicts left open.\<close>

theorem round_records_once:
  assumes "carry_in local_ops fs l root head touched cl True s = ((c, notes), s1)"
    and "settle local_ops c l head' ps findings examined cl' True s1 = (se, s2)"
    and "distinct (map (\<lambda>r. uuid_key (fr_id r)) (st_findings s))"
    and "\<forall>g \<in> set findings. unclipped g"
  shows "distinct (map row_claim (drop (length (st_findings s1)) (st_findings s2)))
    \<and> row_claim ` set (drop (length (st_findings s1)) (st_findings s2)) \<inter>
        fst ` set (still_open_rows c
          (pfs_id ` {e \<in> set (accepted_status (cs_state c) ps). closing (cs_rows c) e})) = {}"
  by (rule pg.settle_news [OF assms(2) pg.carry_in_carries [OF assms(1,3)] assms(4)])

theorem round_records_once_witness:
  "distinct (map row_claim
     (drop (length (st_findings (snd sample_carry))) (st_findings (snd sample_round))))"
  using round_records_once [OF sample_carry_eq sample_round_eq sample_ids sample_unclipped] by simp

text \<open>Loading a lane closes a row only as \<open>stale\<close>, and only when a row of that lane and id names
  a file that is absent from a usable checkout; a missing or unreadable checkout closes nothing.\<close>

theorem carry_in_retires_absent:
  assumes "carry_in local_ops fs l root head touched cl fl s = ((c, notes), s')"
    and "i < length (st_findings s)"
    and "fr_status (st_findings s ! i) = ''open''" "fr_status (st_findings s' ! i) \<noteq> ''open''"
  shows "fr_lane (st_findings s ! i) = l \<and> fr_status (st_findings s' ! i) = ''stale'' \<and>
    (\<exists>r \<in> set (st_findings s). \<exists>base real_base. fr_lane r = l
       \<and> same_id (fr_id (st_findings s ! i)) (fr_id r)
       \<and> tree_root fs root = Some (base, real_base) \<and> is_gone fs base real_base (fr_file r))"
proof -
  have "moves (retired fs root l (st_findings s)) l (st_findings s ! i) (st_findings s' ! i)"
    using pg.carry_in_steps [OF assms(1)] assms(2) unfolding pg.steps_def by (blast intro: grows_nth)
  with assms(3,4) show ?thesis
    by (auto simp: moves_def retired_def absent_def split: option.splits)
qed

theorem carry_in_retires_absent_witness:
  "fr_lane (st_findings sample_store ! 1) = sample_lane
   \<and> fr_status (st_findings (snd sample_carry) ! 1) = ''stale''"
  using carry_in_retires_absent [OF sample_carry_eq, of 1] sample_carry_status
  by (simp add: sample_store_def sample_row_def)

end
