(* ===== verification/Pool.thy ===== *)
theory Pool
  imports Fuko_Prelude "HOL-Library.Multiset"
begin

text \<open>
  The configuration a review runs from and the pool it selects: \<open>sidecar/fukoconfig.py\<close> (the
  entries of \<open>.fuko.toml\<close>, their defaults and validators), \<open>sidecar/presets.py\<close> (the provider
  presets), \<open>sidecar/pool.py\<close> (resolution of the deprecated sections, roles, failover order) and
  \<open>sidecar/sizing.py\<close>. Type checking of the TOML document by pydantic is not modelled: a document
  is a value of the record, and what the code's own validators refuse is a \<open>config_error\<close>.
\<close>

section \<open>Configuration records\<close>

datatype auth_mode = AuthAuto | AuthApiKey | AuthSubscription
datatype role = Active | Backup | Trial

text \<open>The value of a role as the configuration spells it.\<close>

definition role_name :: "role \<Rightarrow> string" where
  "role_name r = (case r of Active \<Rightarrow> ''active'' | Backup \<Rightarrow> ''backup'' | Trial \<Rightarrow> ''trial'')"

text \<open>\<open>ModelConfig\<close>, \<open>CompareModel\<close> and \<open>ReviewModel\<close> extend each other, as the classes do.\<close>

record model_config =
  mc_provider :: string
  mc_name :: string
  mc_base_url :: "string option"
  mc_max_context :: "int option"
  mc_max_model_tokens :: "int option"
  mc_auth :: auth_mode
  mc_extra_instructions :: "string option"
  mc_coverage_ledger :: bool
  mc_findings_ledger :: bool
  mc_tool_timeout :: "int option"
  mc_max_turns :: "int option"

record compare_model = model_config +
  cm_token_env :: "string option"

record review_model = compare_model +
  rm_role :: role
  rm_backend :: "string option"
  rm_promoted :: bool

definition default_model :: model_config where
  "default_model =
     \<lparr>mc_provider = ''ollama'', mc_name = ''qwen2.5-coder'', mc_base_url = None,
      mc_max_context = None, mc_max_model_tokens = None, mc_auth = AuthAuto,
      mc_extra_instructions = None, mc_coverage_ledger = False, mc_findings_ledger = True,
      mc_tool_timeout = None, mc_max_turns = None\<rparr>"

text \<open>\<open>rc_model_written\<close> is \<open>"model" in review.model_fields_set\<close>.\<close>

record review_config =
  rc_backend :: string
  rc_models :: "review_model list"
  rc_model :: model_config
  rc_model_written :: bool
  rc_providers :: "model_config list"
  rc_compare :: "compare_model list"
  rc_strategy :: string
  rc_cooldown_seconds :: int
  rc_tools :: "string list"
  rc_image :: "string option"
  rc_docker_extra_args :: "string list"
  rc_tool_timeout :: int
  rc_max_turns :: "int option"
  rc_optional_tools :: "string list"
  rc_job_budget_minutes :: "int option"

definition default_review :: review_config where
  "default_review =
     \<lparr>rc_backend = ''pr-agent'', rc_models = [], rc_model = default_model, rc_model_written = False,
      rc_providers = [], rc_compare = [], rc_strategy = ''failover'', rc_cooldown_seconds = 300,
      rc_tools = [''review'', ''improve''], rc_image = None, rc_docker_extra_args = [],
      rc_tool_timeout = 900, rc_max_turns = None, rc_optional_tools = [],
      rc_job_budget_minutes = None\<rparr>"

record object_store_config =
  os_backend :: string
  os_bucket :: "string option"
  os_key :: "string option"
  os_endpoint_url :: "string option"
  os_creds_env_prefix :: string

record knowledge_config =
  kc_store :: string
  kc_url_env :: string
  kc_object_store :: "object_store_config option"

record fuko_config =
  fc_review :: review_config
  fc_knowledge :: knowledge_config

definition default_knowledge :: knowledge_config where
  "default_knowledge =
     \<lparr>kc_store = ''postgres'', kc_url_env = ''FUKO_DATABASE_URL'', kc_object_store = None\<rparr>"

section \<open>Validation\<close>

datatype config_error =
    NonPositiveEntry string
  | NoActive
  | UnknownBackends "string list"
  | UnknownStrategy string
  | NonPositiveCooldown
  | NonPositiveTurns
  | EmbeddingMoved

definition positive :: "int option \<Rightarrow> bool" where
  "positive v = (case v of None \<Rightarrow> True | Some n \<Rightarrow> n > 0)"

definition entry_errors :: "('a) model_config_scheme \<Rightarrow> config_error list" where
  "entry_errors m =
     (if positive (mc_max_context m) then [] else [NonPositiveEntry ''max_context''])
     @ (if positive (mc_max_model_tokens m) then [] else [NonPositiveEntry ''max_model_tokens''])
     @ (if positive (mc_tool_timeout m) then [] else [NonPositiveEntry ''tool_timeout''])
     @ (if positive (mc_max_turns m) then [] else [NonPositiveEntry ''max_turns''])"

definition needs_an_active :: "review_model list \<Rightarrow> config_error list" where
  "needs_an_active ms = (if ms \<noteq> [] \<and> \<not> (\<exists>m \<in> set ms. rm_role m = Active) then [NoActive] else [])"

text \<open>The field validators; the one on \<open>models\<close> runs on entries that are valid themselves.\<close>

definition field_errors :: "review_config \<Rightarrow> config_error list" where
  "field_errors rc =
     (let es = concat (map entry_errors (rc_models rc))
      in if es \<noteq> [] then es else needs_an_active (rc_models rc))
     @ entry_errors (rc_model rc)
     @ concat (map entry_errors (rc_providers rc))
     @ concat (map entry_errors (rc_compare rc))
     @ (if rc_strategy rc \<in> {''failover''} then [] else [UnknownStrategy (rc_strategy rc)])
     @ (if rc_cooldown_seconds rc > 0 then [] else [NonPositiveCooldown])
     @ (if positive (rc_max_turns rc) then [] else [NonPositiveTurns])"

text \<open>\<open>_known_backends\<close>: the names used anywhere against the drivers that are registered.\<close>

definition named_backends :: "review_config \<Rightarrow> string list" where
  "named_backends rc = rc_backend rc # List.map_filter rm_backend (rc_models rc)"

definition unknown_backends :: "string list \<Rightarrow> review_config \<Rightarrow> string list" where
  "unknown_backends known rc =
     sorted_list_of_set (set (filter (\<lambda>n. n \<notin> set known) (named_backends rc)))"

definition validate_review ::
  "string list \<Rightarrow> review_config \<Rightarrow> config_error list + review_config" where
  "validate_review known rc =
     (if field_errors rc \<noteq> [] then Inl (field_errors rc)
      else if unknown_backends known rc \<noteq> [] then Inl [UnknownBackends (unknown_backends known rc)]
      else Inr rc)"

text \<open>A configuration file: absent, or a document, with or without an \<open>[embedding]\<close> section.\<close>

datatype config_file = Absent | Document bool fuko_config

definition load_config ::
  "string list \<Rightarrow> config_file \<Rightarrow> config_error list + fuko_config" where
  "load_config known file =
     (case file of
        Absent \<Rightarrow> Inr \<lparr>fc_review = default_review, fc_knowledge = default_knowledge\<rparr>
      | Document embedding doc \<Rightarrow>
          if embedding then Inl [EmbeddingMoved]
          else (case validate_review known (fc_review doc) of
                  Inl es \<Rightarrow> Inl es
                | Inr rc \<Rightarrow> Inr (doc\<lparr>fc_review := rc\<rparr>)))"

section \<open>Provider presets\<close>

datatype quirk = QInt int | QStr string

record provider_preset =
  pp_litellm_prefix :: string
  pp_base_url :: "string option"
  pp_key_env :: "string option"
  pp_quirks :: "(string, quirk) dict"
  pp_requires_base_url :: bool

definition preset :: "string \<Rightarrow> string option \<Rightarrow> string option \<Rightarrow> (string, quirk) dict \<Rightarrow> bool \<Rightarrow> provider_preset" where
  "preset prefix base key quirks required =
     \<lparr>pp_litellm_prefix = prefix, pp_base_url = base, pp_key_env = key, pp_quirks = quirks,
      pp_requires_base_url = required\<rparr>"

definition token_quirks :: "int \<Rightarrow> int \<Rightarrow> int \<Rightarrow> (string, quirk) dict" where
  "token_quirks window budget timeout =
     [(''custom_model_max_tokens'', QInt window), (''max_model_tokens'', QInt budget),
      (''ai_timeout'', QInt timeout)]"

definition PRESETS :: "(string, provider_preset) dict" where
  "PRESETS =
     [(''zai-coding'', preset ''openai/'' (Some ''https://api.z.ai/api/coding/paas/v4'')
         (Some ''ZAI_KEY'') (token_quirks 1000000 512000 300) False),
      (''ollama'', preset ''ollama/'' (Some ''http://localhost:11434'') None [] False),
      (''ollama-cloud'', preset ''openai/'' (Some ''https://ollama.com/v1'')
         (Some ''OLLAMA_API_KEY'') (token_quirks 976000 512000 300) False),
      (''lemonade'', preset ''openai/'' (Some ''http://localhost:8000/api/v1'')
         (Some ''LEMONADE_API_KEY'') (token_quirks 262144 131072 540) False),
      (''openrouter'', preset ''openai/'' (Some ''https://openrouter.ai/api/v1'')
         (Some ''OPENROUTER_KEY'') (token_quirks 1048576 512000 300) False),
      (''prodia'', preset ''openai/'' None (Some ''PRODIA_KEY'')
         (token_quirks 1048576 512000 300) True),
      (''openai'', preset ''openai/'' None (Some ''OPENAI_KEY'') [] False),
      (''anthropic'', preset ''anthropic/'' None (Some ''ANTHROPIC_KEY'') [] False),
      (''qwen-anthropic'', preset ''anthropic/''
         (Some ''https://token-plan.ap-southeast-1.maas.aliyuncs.com/apps/anthropic'')
         (Some ''QWEN_TOKEN_PLAN_KEY'') [(''small_model'', QStr ''qwen3.6-flash'')] False),
      (''zai-anthropic'', preset ''anthropic/'' (Some ''https://api.z.ai/api/anthropic'')
         (Some ''ZAI_KEY'') [(''small_model'', QStr ''glm-4.5-air'')] False),
      (''codex-proxy'', preset ''anthropic/'' (Some ''http://127.0.0.1:18765'')
         (Some ''CODEX_PROXY_KEY'') [(''small_model'', QStr ''gpt-5.6-luna'')] True),
      (''kimi-code'', preset ''anthropic/'' (Some ''https://api.kimi.ai/coding'')
         (Some ''KIMI_CODE_KEY'') [] False),
      (''anthropic-compatible'', preset ''anthropic/'' None (Some ''ANTHROPIC_COMPAT_KEY'') [] True)]"

definition get_preset :: "string \<Rightarrow> string + provider_preset" where
  "get_preset name =
     (case map_of PRESETS name of
        Some p \<Rightarrow> Inr p
      | None \<Rightarrow> Inl (''unknown model provider '' @ [CHR 0x27] @ name @ [CHR 0x27]
                    @ ''; known presets: '' @ join '', '' (sort (map fst PRESETS))))"

section \<open>The pool\<close>

text \<open>\<open>ReviewModel(**m.model_dump(), role=...)\<close> on an entry of a deprecated section.\<close>

definition review_entry :: "('a) model_config_scheme \<Rightarrow> string option \<Rightarrow> role \<Rightarrow> review_model" where
  "review_entry m token_env r =
     \<lparr>mc_provider = mc_provider m, mc_name = mc_name m, mc_base_url = mc_base_url m,
      mc_max_context = mc_max_context m, mc_max_model_tokens = mc_max_model_tokens m,
      mc_auth = mc_auth m, mc_extra_instructions = mc_extra_instructions m,
      mc_coverage_ledger = mc_coverage_ledger m, mc_findings_ledger = mc_findings_ledger m,
      mc_tool_timeout = mc_tool_timeout m, mc_max_turns = mc_max_turns m,
      cm_token_env = token_env, rm_role = r, rm_backend = None, rm_promoted = False\<rparr>"

definition resolve_models :: "review_config \<Rightarrow> review_model list" where
  "resolve_models rc =
     (if rc_models rc \<noteq> [] then rc_models rc
      else if rc_compare rc \<noteq> [] then map (\<lambda>m. review_entry m (cm_token_env m) Active) (rc_compare rc)
      else if rc_providers rc \<noteq> []
        then map (\<lambda>(i, m). review_entry m None (if i = 0 then Active else Backup))
               (enumerate 0 (rc_providers rc))
      else [review_entry (rc_model rc) None Active])"

definition partition_roles ::
  "review_model list \<Rightarrow> review_model list \<times> review_model list \<times> review_model list" where
  "partition_roles ms =
     (filter (\<lambda>m. rm_role m = Active) ms, filter (\<lambda>m. rm_role m = Backup) ms,
      filter (\<lambda>m. rm_role m = Trial) ms)"

definition fits :: "int option \<Rightarrow> ('a) model_config_scheme \<Rightarrow> bool" where
  "fits required m =
     (case required of
        None \<Rightarrow> True
      | Some n \<Rightarrow> (case mc_max_context m of None \<Rightarrow> True | Some w \<Rightarrow> w \<ge> n))"

definition rank :: "string set \<Rightarrow> int option \<Rightarrow> ('a) model_config_scheme \<Rightarrow> nat \<times> nat" where
  "rank cooled required m =
     (if fits required m then 0 else 1, if mc_provider m \<notin> cooled then 0 else 1)"

definition order_pool ::
  "('a) model_config_scheme list \<Rightarrow> string set \<Rightarrow> int option \<Rightarrow> ('a) model_config_scheme list" where
  "order_pool pool cooled required = sort_key (rank cooled required) pool"

section \<open>Sizing\<close>

definition RESERVE_TOKENS :: int where "RESERVE_TOKENS = 8000"

definition estimate_tokens :: "int \<Rightarrow> int" where
  "estimate_tokens char_count = char_count div 4"

definition required_context :: "int \<Rightarrow> int \<Rightarrow> int \<Rightarrow> int" where
  "required_context diff_chars knowledge_chars reserve_tokens =
     estimate_tokens (diff_chars + knowledge_chars) + reserve_tokens"

section \<open>Properties\<close>

text \<open>The failover order is a stable reordering of the pool: nothing is added or lost, fit comes
  before cooldown, a provider that is available and fits is never after one that is not, and
  inside a tier the configured priority is kept.\<close>

theorem order_pool_ranks:
  "mset (order_pool pool cooled required) = mset pool
   \<and> sorted (map (rank cooled required) (order_pool pool cooled required))
   \<and> filter (\<lambda>m. rank cooled required m = k) (order_pool pool cooled required) =
       filter (\<lambda>m. rank cooled required m = k) pool"
  by (simp add: order_pool_def sort_key_stable)

lemma validated:
  assumes "validate_review known rc = Inr rc'"
  shows "rc' = rc \<and> field_errors rc = [] \<and> unknown_backends known rc = []"
  using assms by (auto simp: validate_review_def split: if_splits)

lemma active_entry:
  assumes "field_errors rc = []"
  shows "\<exists>m \<in> set (resolve_models rc). rm_role m = Active"
proof (cases "rc_models rc = []")
  case True
  then show ?thesis
    by (cases "rc_compare rc"; cases "rc_providers rc")
      (simp_all add: resolve_models_def review_entry_def enumerate_simps)
next
  case False
  with assms have "needs_an_active (rc_models rc) = []"
    by (auto simp: field_errors_def Let_def split: if_splits)
  with False show ?thesis
    by (auto simp: needs_an_active_def resolve_models_def split: if_splits)
qed

text \<open>A configuration that loads can review: whichever section its models came from, at least one
  entry is active, the three roles split the list without loss, and every driver it names is
  registered.\<close>

theorem loaded_config_has_reviewer:
  assumes "load_config known file = Inr cfg"
    and "partition_roles (resolve_models (fc_review cfg)) = (actives, backups, trials)"
    and "''pr-agent'' \<in> set known"
  shows "actives \<noteq> []
    \<and> mset (resolve_models (fc_review cfg)) = mset actives + mset backups + mset trials
    \<and> set (named_backends (fc_review cfg)) \<subseteq> set known"
proof -
  have f: "field_errors (fc_review cfg) = [] \<and> set (named_backends (fc_review cfg)) \<subseteq> set known"
  proof (cases "file")
    case Absent
    then have "fc_review cfg = default_review" using assms(1) by (auto simp: load_config_def)
    with assms(3) show ?thesis
      by (simp add: default_review_def default_model_def field_errors_def entry_errors_def positive_def
          needs_an_active_def named_backends_def map_filter_simps)
  next
    case (Document e doc)
    with assms(1) obtain rc where rc: "validate_review known (fc_review doc) = Inr rc"
      "cfg = doc\<lparr>fc_review := rc\<rparr>" by (auto simp: load_config_def split: if_splits sum.splits)
    from validated [OF rc(1)] have "field_errors (fc_review cfg) = []"
      "unknown_backends known (fc_review cfg) = []" by (simp_all add: rc(2))
    then show ?thesis
      by (auto simp: unknown_backends_def filter_empty_conv)
  qed
  have "mset ms = mset (filter (\<lambda>m. rm_role m = Active) ms)
      + mset (filter (\<lambda>m. rm_role m = Backup) ms) + mset (filter (\<lambda>m. rm_role m = Trial) ms)"
    for ms :: "review_model list"
  proof (induction ms)
    case (Cons m ms)
    then show ?case by (cases "rm_role m") simp_all
  qed simp
  with active_entry [of "fc_review cfg"] f assms(2) show ?thesis
    by (auto simp: partition_roles_def filter_empty_conv)
qed

theorem loaded_config_has_reviewer_witness:
  "filter (\<lambda>m. rm_role m = Active) (resolve_models default_review) \<noteq> []"
proof -
  have "load_config [''pr-agent''] Absent = Inr \<lparr>fc_review = default_review, fc_knowledge = default_knowledge\<rparr>"
    by (simp add: load_config_def)
  from loaded_config_has_reviewer [OF this] show ?thesis by (simp add: partition_roles_def)
qed

end
