(* ===== verification/Runner_Plan.thy ===== *)
theory Runner_Plan
  imports Pool Complex_Main "HOL-Library.Sublist"
begin

text \<open>
  The pure half of \<open>sidecar/runner.py\<close>: which ledger lane each branch occupies, what a round
  costs when its branches run one after another, which backups an escalated round promotes,
  whether the branches can run under identities of their own, and which entries share a branch's
  pool. The process environment is a map from names to values (an unset name reads as empty);
  the actor a token authenticates as is asked of the GitHub API, a parameter. Minutes are
  rationals; the code divides seconds by 60.0.
\<close>

section \<open>Labels, slots and seats\<close>

definition entry_label :: "('a) model_config_scheme \<Rightarrow> string" where
  "entry_label m = mc_provider m @ ''/'' @ mc_name m"

definition SLOT_PREFIX :: string where "SLOT_PREFIX = ''FUKO_GITHUB_TOKEN_''"

definition slot_of :: "('a) compare_model_scheme \<Rightarrow> string option" where
  "slot_of m =
     (let token_env = (case cm_token_env m of None \<Rightarrow> '''' | Some e \<Rightarrow> e)
      in if \<not> startswith token_env SLOT_PREFIX then None
         else let slot = lower (drop (length SLOT_PREFIX) token_env)
              in if slot = '''' then None else Some slot)"

text \<open>
  \<open>while seat in taken: seat = f"{seat}#{index}"\<close>. Every pass makes the name longer, so fewer and
  fewer of the taken names are as long as it; that number is the measure.
\<close>

lemma free_seat_measure:
  assumes "seat \<in> set taken"
  shows "card {x \<in> set taken. length (seat @ ''#'' @ str_int i) \<le> length x}
       < card {x \<in> set taken. length seat \<le> length x}"
proof (rule psubset_card_mono)
  show "finite {x \<in> set taken. length seat \<le> length x}" by simp
  let ?A = "{x \<in> set taken. length (seat @ ''#'' @ str_int i) \<le> length x}"
  have "seat \<notin> ?A" by simp
  moreover have "seat \<in> {x \<in> set taken. length seat \<le> length x}" using assms by simp
  moreover have "?A \<subseteq> {x \<in> set taken. length seat \<le> length x}" by auto
  ultimately show "?A \<subset> {x \<in> set taken. length seat \<le> length x}" by blast
qed

function free_seat :: "string list \<Rightarrow> int \<Rightarrow> string \<Rightarrow> string" where
  "free_seat taken index seat =
     (if seat \<in> set taken then free_seat taken index (seat @ ''#'' @ str_int index) else seat)"
  by pat_completeness auto
termination
  by (relation "measure (\<lambda>(taken, index, seat). card {x \<in> set taken. length seat \<le> length x})")
    (use free_seat_measure in auto)

declare free_seat.simps [simp del]

fun seats_loop ::
  "string option list \<Rightarrow> int \<Rightarrow> string list \<Rightarrow> ('a) compare_model_scheme list \<Rightarrow> string list" where
  "seats_loop slots index taken [] = []"
| "seats_loop slots index taken (entry # rest) =
     (let seat = (case slot_of entry of
                    Some slot \<Rightarrow> if count_list slots (Some slot) = 1 then slot else entry_label entry
                  | None \<Rightarrow> entry_label entry);
          free = free_seat taken index seat
      in free # seats_loop slots (index + 1) (taken @ [free]) rest)"

definition branch_seats :: "('a) compare_model_scheme list \<Rightarrow> string list" where
  "branch_seats reviewers = seats_loop (map slot_of reviewers) 0 [] reviewers"

section \<open>The cost of a sequential round\<close>

definition sequential_cost_minutes :: "int \<Rightarrow> int \<Rightarrow> int \<Rightarrow> rat" where
  "sequential_cost_minutes branches tools tool_timeout =
     rat_of_int (branches * tools * tool_timeout) / 60"

text \<open>\<open>getattr(e, "tool_timeout", None) or review.tool_timeout\<close>.\<close>

definition entry_timeout :: "review_config \<Rightarrow> ('a) model_config_scheme \<Rightarrow> int" where
  "entry_timeout rc e =
     (case mc_tool_timeout e of None \<Rightarrow> rc_tool_timeout rc
      | Some t \<Rightarrow> if t = 0 then rc_tool_timeout rc else t)"

definition fleet_sequential_cost_minutes ::
  "('a) model_config_scheme list \<Rightarrow> int \<Rightarrow> review_config \<Rightarrow> rat" where
  "fleet_sequential_cost_minutes entries tools rc =
     rat_of_int (sum_list (map (\<lambda>e. tools * entry_timeout rc e) entries)) / 60"

section \<open>Escalation\<close>

type_synonym process_env = "string \<Rightarrow> string option"

definition getenv :: "process_env \<Rightarrow> string \<Rightarrow> string" where
  "getenv env name = (case env name of None \<Rightarrow> '''' | Some v \<Rightarrow> v)"

definition has_identity :: "process_env \<Rightarrow> ('a) compare_model_scheme \<Rightarrow> bool" where
  "has_identity env entry =
     (case cm_token_env entry of None \<Rightarrow> False
      | Some name \<Rightarrow> name \<noteq> '''' \<and> getenv env name \<noteq> '''')"

text \<open>\<open>entry.backend or review.backend\<close>: an empty name reads as unset here.\<close>

definition backend_of :: "review_config \<Rightarrow> ('a) review_model_scheme \<Rightarrow> string" where
  "backend_of rc e =
     (case rm_backend e of None \<Rightarrow> rc_backend rc | Some b \<Rightarrow> if b = '''' then rc_backend rc else b)"

text \<open>Why a promotion was declined, with what the printed reason names.\<close>

datatype skip_reason =
    NoIdentity string
  | BackendMismatch string string "string list"
  | OverBudget string rat int

text \<open>\<open>len(review.tools) or 1\<close>.\<close>

definition tool_count :: "review_config \<Rightarrow> int" where
  "tool_count rc = (if rc_tools rc = [] then 1 else int (length (rc_tools rc)))"

definition round_backends ::
  "review_config \<Rightarrow> review_model list \<Rightarrow> review_model list \<Rightarrow> string set" where
  "round_backends rc existing promote =
     (let active = set (map (backend_of rc) existing)
      in if active \<noteq> {} then active else set (map (backend_of rc) promote))"

definition promoted_entry :: "review_model \<Rightarrow> review_model" where
  "promoted_entry e = e\<lparr>rm_role := Active, rm_promoted := True\<rparr>"

fun escalation_loop ::
  "process_env \<Rightarrow> review_config \<Rightarrow> bool \<Rightarrow> review_model list
     \<Rightarrow> review_model list \<Rightarrow> review_model list \<Rightarrow> skip_reason list
     \<Rightarrow> review_model list \<times> skip_reason list" where
  "escalation_loop env rc concurrent existing [] promote reasons = (promote, reasons)"
| "escalation_loop env rc concurrent existing (entry # rest) promote reasons =
     (let rb = round_backends rc existing promote;
          cost = fleet_sequential_cost_minutes (existing @ promote @ [entry]) (tool_count rc) rc
      in if concurrent \<and> \<not> has_identity env entry
         then escalation_loop env rc concurrent existing rest promote
                (reasons @ [NoIdentity (entry_label entry)])
         else if rb \<noteq> {} \<and> (card rb \<noteq> 1 \<or> backend_of rc entry \<notin> rb)
         then escalation_loop env rc concurrent existing rest promote
                (reasons @ [BackendMismatch (entry_label entry) (backend_of rc entry)
                              (sorted_list_of_set rb)])
         else (case rc_job_budget_minutes rc of
                 None \<Rightarrow> escalation_loop env rc concurrent existing rest
                           (promote @ [promoted_entry entry]) reasons
               | Some budget \<Rightarrow>
                   if cost > rat_of_int budget
                   then escalation_loop env rc concurrent existing rest promote
                          (reasons @ [OverBudget (entry_label entry) cost budget])
                   else escalation_loop env rc concurrent existing rest
                          (promote @ [promoted_entry entry]) reasons))"

definition plan_escalation ::
  "process_env \<Rightarrow> review_model list \<Rightarrow> review_model list \<Rightarrow> review_config \<Rightarrow> bool
     \<Rightarrow> review_model list \<times> skip_reason list" where
  "plan_escalation env existing backups rc concurrent =
     escalation_loop env rc concurrent existing backups [] []"

section \<open>Branch identities\<close>

fun identities_loop ::
  "process_env \<Rightarrow> (string \<Rightarrow> string option) \<Rightarrow> review_model list
     \<Rightarrow> (string list \<times> string list) option" where
  "identities_loop env actor_of [] = Some ([], [])"
| "identities_loop env actor_of (entry # rest) =
     (case cm_token_env entry of
        None \<Rightarrow> None
      | Some name \<Rightarrow>
          if name = '''' \<or> getenv env name = '''' then None
          else (case actor_of (getenv env name) of
                  None \<Rightarrow> None
                | Some actor \<Rightarrow>
                    (case identities_loop env actor_of rest of
                       None \<Rightarrow> None
                     | Some (tokens, actors) \<Rightarrow> Some (getenv env name # tokens, actor # actors))))"

definition resolve_branch_identities ::
  "process_env \<Rightarrow> (string \<Rightarrow> string option) \<Rightarrow> review_model list \<Rightarrow> string list option" where
  "resolve_branch_identities env actor_of actives =
     (case identities_loop env actor_of actives of
        None \<Rightarrow> None
      | Some (tokens, actors) \<Rightarrow> if card (set actors) \<noteq> length actors then None else Some tokens)"

section \<open>One branch's pool\<close>

definition ledger_owner :: "review_model list \<Rightarrow> review_model option" where
  "ledger_owner pool =
     (case pool of [] \<Rightarrow> None | head # _ \<Rightarrow> if rm_role head = Backup then None else Some head)"

text \<open>\<open>entry is branch\<close> compares objects; an entry equal to the branch has its flags already, so the
  copy that carries them over is the same entry.\<close>

definition with_branch_ledger :: "review_model \<Rightarrow> review_model option \<Rightarrow> review_model" where
  "with_branch_ledger entry branch =
     (case branch of
        None \<Rightarrow> entry
      | Some b \<Rightarrow> entry\<lparr>mc_coverage_ledger := mc_coverage_ledger b,
                        mc_findings_ledger := mc_findings_ledger b\<rparr>)"

definition compatible_backups ::
  "review_model \<Rightarrow> review_model list \<Rightarrow> review_config \<Rightarrow> review_model list" where
  "compatible_backups entry backups rc =
     filter (\<lambda>b. backend_of rc b = backend_of rc entry) backups"

section \<open>A sample fleet\<close>

definition sample_entry :: "string \<Rightarrow> string option \<Rightarrow> role \<Rightarrow> review_model" where
  "sample_entry name token_env r = review_entry (default_model\<lparr>mc_name := name\<rparr>) token_env r"

definition sample_env :: process_env where
  "sample_env name =
     (if name = ''FUKO_GITHUB_TOKEN_GRAY'' then Some ''t1''
      else if name = ''FUKO_GITHUB_TOKEN_BASIL'' then Some ''t2'' else None)"

definition sample_backups :: "review_model list" where
  "sample_backups =
     [sample_entry ''b1'' None Backup, sample_entry ''b2'' (Some ''FUKO_GITHUB_TOKEN_BASIL'') Backup]"

definition sample_plan :: "review_model list \<times> skip_reason list" where
  "sample_plan = plan_escalation sample_env [sample_entry ''a'' (Some ''FUKO_GITHUB_TOKEN_GRAY'') Active]
     sample_backups (default_review\<lparr>rc_job_budget_minutes := Some 60\<rparr>) True"

lemma sample_plan_names: "map mc_name (fst sample_plan) = [''b2'']"
  by code_simp

section \<open>Properties\<close>

lemma free_seat_free: "free_seat taken i seat \<notin> set taken"
proof (induction taken i seat rule: free_seat.induct)
  case (1 taken index seat)
  show ?case
  proof (cases "seat \<in> set taken")
    case True
    with 1 show ?thesis by (subst free_seat.simps) simp
  next
    case False
    then show ?thesis by (subst free_seat.simps) simp
  qed
qed

lemma free_seat_unused: "seat \<notin> set taken \<Longrightarrow> free_seat taken i seat = seat"
  by (subst free_seat.simps) simp

lemma seats_loop_distinct:
  "distinct taken \<Longrightarrow> distinct (taken @ seats_loop slots i taken es)
     \<and> length (seats_loop slots i taken es) = length es"
proof (induction slots i taken es rule: seats_loop.induct)
  case (2 slots index taken entry rest)
  let ?seat = "case slot_of entry of Some slot \<Rightarrow> if count_list slots (Some slot) = 1 then slot else entry_label entry
      | None \<Rightarrow> entry_label entry"
  let ?free = "free_seat taken index ?seat"
  have "distinct (taken @ [?free])" using 2(2) free_seat_free by simp
  with 2(1) [OF refl refl] show ?case by (simp add: Let_def)
qed simp

text \<open>C36: no two branches of a run share a ledger lane: \<open>_branch_seats\<close> gives every reviewer a seat,
  all of them distinct, whatever the configured identities and labels are.\<close>

theorem branch_seats_distinct:
  "distinct (branch_seats reviewers) \<and> length (branch_seats reviewers) = length reviewers"
  using seats_loop_distinct [of "[]"] by (simp add: branch_seats_def)

text \<open>The loop of \<open>plan_escalation\<close> keeps these of what it has accepted so far.\<close>

definition plan_ok ::
  "process_env \<Rightarrow> review_config \<Rightarrow> bool \<Rightarrow> review_model list \<Rightarrow> review_model list \<Rightarrow> bool" where
  "plan_ok env rc concurrent existing promote \<longleftrightarrow>
     (\<forall>m \<in> set promote. rm_role m = Active \<and> rm_promoted m \<and> (concurrent \<longrightarrow> has_identity env m))
     \<and> (promote \<noteq> [] \<longrightarrow> card (set (map (backend_of rc) (existing @ promote))) = 1)
     \<and> (promote \<noteq> [] \<longrightarrow> (\<forall>b. rc_job_budget_minutes rc = Some b \<longrightarrow>
          fleet_sequential_cost_minutes (existing @ promote) (tool_count rc) rc \<le> rat_of_int b))"

lemma promoted_same [simp]:
  "rm_role (promoted_entry e) = Active" "rm_promoted (promoted_entry e)"
  "backend_of rc (promoted_entry e) = backend_of rc e"
  "has_identity env (promoted_entry e) = has_identity env e"
  "entry_timeout rc (promoted_entry e) = entry_timeout rc e"
  "entry_label (promoted_entry e) = entry_label e"
  by (simp_all add: promoted_entry_def backend_of_def has_identity_def entry_timeout_def entry_label_def)

lemma round_backends_empty: "round_backends rc existing promote = {} \<longleftrightarrow> existing = [] \<and> promote = []"
  by (simp add: round_backends_def Let_def)

lemma plan_ok_step:
  assumes "plan_ok env rc concurrent existing promote"
    and "concurrent \<longrightarrow> has_identity env entry"
    and "round_backends rc existing promote = {} \<or>
      card (round_backends rc existing promote) = 1 \<and> backend_of rc entry \<in> round_backends rc existing promote"
    and "\<forall>b. rc_job_budget_minutes rc = Some b \<longrightarrow>
      fleet_sequential_cost_minutes (existing @ promote @ [entry]) (tool_count rc) rc \<le> rat_of_int b"
  shows "plan_ok env rc concurrent existing (promote @ [promoted_entry entry])"
proof -
  have one: "card (set (map (backend_of rc) (existing @ promote))) = 1
      \<and> backend_of rc entry \<in> set (map (backend_of rc) (existing @ promote))"
    if "existing \<noteq> [] \<or> promote \<noteq> []"
  proof (cases "existing = []")
    case True
    with that assms(3) show ?thesis by (auto simp: round_backends_def Let_def)
  next
    case False
    then have rb: "round_backends rc existing promote = set (map (backend_of rc) existing)"
      by (simp add: round_backends_def Let_def)
    with False assms(3) have c: "card (backend_of rc ` set existing) = 1"
      "backend_of rc entry \<in> backend_of rc ` set existing" by auto
    then show ?thesis
    proof (cases "promote = []")
      case False
      with assms(1) have p: "card (backend_of rc ` set existing \<union> backend_of rc ` set promote) = 1"
        by (simp add: plan_ok_def image_Un)
      with c show ?thesis by (simp add: image_Un)
    qed simp
  qed
  have "card (insert (backend_of rc entry) (backend_of rc ` set existing \<union> backend_of rc ` set promote)) = 1"
  proof (cases "existing \<noteq> [] \<or> promote \<noteq> []")
    case True
    from one [OF True] show ?thesis by (simp add: image_Un insert_absorb)
  qed simp
  moreover have "fleet_sequential_cost_minutes (existing @ promote @ [promoted_entry entry]) k rc =
      fleet_sequential_cost_minutes (existing @ promote @ [entry]) k rc" for k
    by (simp add: fleet_sequential_cost_minutes_def)
  ultimately show ?thesis
    using assms(1,2,4) by (auto simp: plan_ok_def image_Un)
qed

lemma escalation_loop_ok:
  "plan_ok env rc concurrent existing promote \<Longrightarrow>
   escalation_loop env rc concurrent existing es promote reasons = (promote', reasons') \<Longrightarrow>
     plan_ok env rc concurrent existing promote'
     \<and> length promote' + length reasons' = length promote + length reasons + length es
     \<and> (\<exists>ms. promote' = promote @ map promoted_entry ms \<and> subseq ms es)"
proof (induction es arbitrary: promote reasons)
  case Nil
  then show ?case by (auto intro!: exI [of _ "[]"])
next
  case (Cons entry es)
  let ?rb = "round_backends rc existing promote"
  let ?cost = "fleet_sequential_cost_minutes (existing @ promote @ [entry]) (tool_count rc) rc"
  let ?declined = "concurrent \<and> \<not> has_identity env entry
      \<or> ?rb \<noteq> {} \<and> (card ?rb \<noteq> 1 \<or> backend_of rc entry \<notin> ?rb)
      \<or> (\<exists>b. rc_job_budget_minutes rc = Some b \<and> ?cost > rat_of_int b)"
  show ?case
  proof (cases ?declined)
    case True
    with Cons.prems(2) obtain r where
      "escalation_loop env rc concurrent existing es promote (reasons @ [r]) = (promote', reasons')"
      by (auto simp: Let_def split: if_splits option.splits)
    from Cons.IH [OF Cons.prems(1) this] show ?thesis by auto
  next
    case False
    then have "escalation_loop env rc concurrent existing es (promote @ [promoted_entry entry]) reasons
        = (promote', reasons')"
      using Cons.prems(2) by (auto simp: Let_def not_less split: if_splits option.splits)
    moreover have "plan_ok env rc concurrent existing (promote @ [promoted_entry entry])"
      using False by (intro plan_ok_step [OF Cons.prems(1)]) (auto simp: not_less)
    ultimately have "plan_ok env rc concurrent existing promote'
       \<and> length promote' + length reasons' = length (promote @ [promoted_entry entry]) + length reasons + length es
       \<and> (\<exists>ms. promote' = (promote @ [promoted_entry entry]) @ map promoted_entry ms \<and> subseq ms es)"
      using Cons.IH by blast
    then obtain ms where "promote' = promote @ map promoted_entry (entry # ms)" "subseq ms es"
      "plan_ok env rc concurrent existing promote'"
      "length promote' + length reasons' = length promote + length reasons + length (entry # es)"
      by auto
    then show ?thesis by (metis subseq_Cons2)
  qed
qed

text \<open>C12: a promotion never costs more than it adds. The promoted entries are backups in configured
  order, active and marked as promoted; on a run that can be concurrent each has an identity of
  its own; together with the entries that already run they share a single driver; and with a job
  budget configured their sequential worst case stays inside it.\<close>

theorem escalation_keeps_round_sound:
  assumes "plan_escalation env existing backups rc concurrent = (promote, reasons)"
  shows "(\<exists>ms. promote = map promoted_entry ms \<and> subseq ms backups)
    \<and> (\<forall>m \<in> set promote. rm_role m = Active \<and> rm_promoted m \<and> (concurrent \<longrightarrow> has_identity env m))
    \<and> (promote \<noteq> [] \<longrightarrow> card (set (map (backend_of rc) (existing @ promote))) = 1)
    \<and> (promote \<noteq> [] \<longrightarrow> (\<forall>b. rc_job_budget_minutes rc = Some b \<longrightarrow>
         fleet_sequential_cost_minutes (existing @ promote) (tool_count rc) rc \<le> rat_of_int b))"
proof -
  have "plan_ok env rc concurrent existing []" by (simp add: plan_ok_def)
  from escalation_loop_ok [OF this assms [unfolded plan_escalation_def]]
  show ?thesis by (simp add: plan_ok_def)
qed

theorem escalation_keeps_round_sound_witness:
  "fst sample_plan \<noteq> [] \<and> list_all (\<lambda>m. rm_promoted m \<and> has_identity sample_env m) (fst sample_plan)"
  using escalation_keeps_round_sound [OF sample_plan_def [symmetric, THEN trans, OF surjective_pairing]]
    sample_plan_names by (auto simp: list_all_iff)

text \<open>No backup is dropped without a word: each is either promoted or has its printed reason.\<close>

theorem escalation_accounts_for_every_backup:
  assumes "plan_escalation env existing backups rc concurrent = (promote, reasons)"
  shows "length promote + length reasons = length backups"
proof -
  have "plan_ok env rc concurrent existing []" by (simp add: plan_ok_def)
  from escalation_loop_ok [OF this assms [unfolded plan_escalation_def]]
  show ?thesis by simp
qed

theorem escalation_accounts_for_every_backup_witness:
  "length (fst sample_plan) + length (snd sample_plan) = 2"
  using escalation_accounts_for_every_backup [OF sample_plan_def [symmetric, THEN trans, OF surjective_pairing]]
  by (simp add: sample_backups_def)

lemma identities_loop_some:
  "identities_loop env actor_of es = Some (tokens, actors) \<Longrightarrow>
     tokens = map (\<lambda>e. getenv env (the (cm_token_env e))) es
     \<and> map Some actors = map actor_of tokens \<and> (\<forall>e \<in> set es. has_identity env e)"
proof (induction es arbitrary: tokens actors)
  case (Cons e es)
  from Cons.prems obtain name actor ts as where e: "cm_token_env e = Some name" "name \<noteq> ''''"
    "getenv env name \<noteq> ''''" "actor_of (getenv env name) = Some actor"
    "identities_loop env actor_of es = Some (ts, as)"
    "tokens = getenv env name # ts" "actors = actor # as"
    by (auto split: option.splits if_splits)
  with Cons.IH [OF e(5)] show ?case by (simp add: has_identity_def)
qed simp

text \<open>Branches run under identities of their own only when that is safe: concurrency is granted
  exactly with one non-empty token per branch, from its own variable, and distinct tokens that
  authenticate as distinct actors.\<close>

theorem identities_are_distinct:
  assumes "resolve_branch_identities env actor_of actives = Some tokens"
  shows "tokens = map (\<lambda>e. getenv env (the (cm_token_env e))) actives
    \<and> '''' \<notin> set tokens \<and> distinct tokens \<and> distinct (map actor_of tokens) \<and> None \<notin> set (map actor_of tokens)"
proof -
  from assms obtain actors where l: "identities_loop env actor_of actives = Some (tokens, actors)"
    "card (set actors) = length actors"
    by (auto simp: resolve_branch_identities_def split: option.splits if_splits)
  note s = identities_loop_some [OF l(1)]
  have d: "distinct (map actor_of tokens)"
    using s card_distinct [OF l(2)] by (metis distinct_map inj_Some inj_on_subset subset_UNIV)
  moreover have "'''' \<notin> set tokens"
    using s by (auto simp: has_identity_def split: option.splits)
  moreover have "None \<notin> set (map actor_of tokens)"
    using s by (metis in_set_conv_nth length_map nth_map option.distinct(1))
  moreover from d have "distinct tokens" by (simp only: distinct_map)
  ultimately show ?thesis
    using s by simp
qed

theorem identities_are_distinct_witness: "distinct [''t1'', ''t2'']"
proof -
  have "resolve_branch_identities sample_env Some
      [sample_entry ''a'' (Some ''FUKO_GITHUB_TOKEN_GRAY'') Active,
       sample_entry ''b'' (Some ''FUKO_GITHUB_TOKEN_BASIL'') Active] = Some [''t1'', ''t2'']"
    by code_simp
  from identities_are_distinct [OF this] show ?thesis by blast
qed

end
