(* ===== verification/Regex.thy ===== *)
theory Regex
  imports Fuko_Prelude "HOL-Library.Sublist"
begin

text \<open>
  The part of Python's \<open>re\<close> module the sidecar uses: a pattern is a value of \<open>rx\<close>, and \<open>ends\<close> is
  the backtracking matcher, which returns every way a pattern can match at a position in the
  order \<open>re\<close> tries them, so its head is the match \<open>re\<close> reports. A position is the character
  before it and the text from it on, which is all that anchors and word boundaries look at.
  The matcher is proved equal to the relation \<open>derives\<close>, which has no order and no bounds.
\<close>

section \<open>Patterns\<close>

datatype rx =
    Eps
  | Lit string
  | ILit string
  | Cls "char \<Rightarrow> bool"
  | Cat rx rx
  | Alt rx rx
  | Rep nat "nat option" bool rx
  | Grp nat rx
  | Bos | Bol | Eos | Eol | Wb

text \<open>\<open>ILit\<close> is a literal under \<open>re.I\<close>. \<open>Rep lo hi greedy\<close> is a quantifier. \<open>Bos\<close> and \<open>Eos\<close> are
  \<open>^\<close> and \<open>$\<close>, \<open>Bol\<close> and \<open>Eol\<close> the same under \<open>re.M\<close>, and \<open>Wb\<close> is \<open>\b\<close>.\<close>

fun cats :: "rx list \<Rightarrow> rx" where
  "cats [] = Eps"
| "cats [r] = r"
| "cats (r # s # rs) = Cat r (cats (s # rs))"

fun alts :: "rx list \<Rightarrow> rx" where
  "alts [] = Cls (\<lambda>c. False)"
| "alts [r] = r"
| "alts (r # s # rs) = Alt r (alts (s # rs))"

abbreviation star :: "rx \<Rightarrow> rx" where "star \<equiv> Rep 0 None True"
abbreviation lazy :: "rx \<Rightarrow> rx" where "lazy \<equiv> Rep 0 None False"
abbreviation plus :: "rx \<Rightarrow> rx" where "plus \<equiv> Rep 1 None True"
abbreviation maybe :: "rx \<Rightarrow> rx" where "maybe \<equiv> Rep 0 (Some 1) True"

definition digit :: "char \<Rightarrow> bool" where "digit c = (CHR ''0'' \<le> c \<and> c \<le> CHR ''9'')"

definition letter :: "char \<Rightarrow> bool" where
  "letter c = (CHR ''A'' \<le> c \<and> c \<le> CHR ''Z'' \<or> CHR ''a'' \<le> c \<and> c \<le> CHR ''z'')"

text \<open>\<open>\w\<close> on code points below 256.\<close>

definition word_char :: "char \<Rightarrow> bool" where
  "word_char c = (letter c \<or> digit c \<or> c = CHR ''_'' \<or>
     c \<in> {CHR 0xAA, CHR 0xB2, CHR 0xB3, CHR 0xB5, CHR 0xB9, CHR 0xBA, CHR 0xBC, CHR 0xBD, CHR 0xBE} \<or>
     CHR 0xC0 \<le> c \<and> c \<noteq> CHR 0xD7 \<and> c \<noteq> CHR 0xF7)"

definition not_nl :: "char \<Rightarrow> bool" where "not_nl c = (c \<noteq> CHR 0x0A)"

section \<open>Matching\<close>

type_synonym cursor = "char option \<times> string"
type_synonym groups = "(nat, string) dict"
type_synonym mstate = "cursor \<times> groups"

definition rest_of :: "mstate \<Rightarrow> string" where "rest_of x = snd (fst x)"

definition advance :: "nat \<Rightarrow> cursor \<Rightarrow> cursor" where
  "advance n c = (if n = 0 then c else (Some (last (take n (snd c))), drop n (snd c)))"

definition wordish :: "char option \<Rightarrow> bool" where
  "wordish c = (case c of None \<Rightarrow> False | Some d \<Rightarrow> word_char d)"

definition next_char :: "string \<Rightarrow> char option" where
  "next_char s = (case s of [] \<Rightarrow> None | c # _ \<Rightarrow> Some c)"

primrec must_ends :: "('a \<Rightarrow> 'a list) \<Rightarrow> nat \<Rightarrow> 'a \<Rightarrow> 'a list" where
  "must_ends f 0 x = [x]"
| "must_ends f (Suc n) x = concat (map (must_ends f n) (f x))"

text \<open>Optional iterations: each has to consume something, so there are at most as many as
  characters left.\<close>

primrec may_ends :: "(mstate \<Rightarrow> mstate list) \<Rightarrow> bool \<Rightarrow> nat \<Rightarrow> mstate \<Rightarrow> mstate list" where
  "may_ends f greedy 0 x = [x]"
| "may_ends f greedy (Suc n) x =
     (let more = concat (map (may_ends f greedy n)
                  (filter (\<lambda>y. length (rest_of y) < length (rest_of x)) (f x)))
      in if greedy then more @ [x] else x # more)"

definition set_group :: "nat \<Rightarrow> mstate \<Rightarrow> mstate \<Rightarrow> mstate" where
  "set_group n x y = (fst y, dict_set n (take (length (rest_of x) - length (rest_of y)) (rest_of x)) (snd y))"

definition guard :: "bool \<Rightarrow> 'a \<Rightarrow> 'a list" where "guard b x = (if b then [x] else [])"

primrec ends :: "rx \<Rightarrow> mstate \<Rightarrow> mstate list" where
  "ends Eps x = [x]"
| "ends (Lit p) x = guard (startswith (rest_of x) p) (advance (length p) (fst x), snd x)"
| "ends (ILit p) x =
     guard (lower (take (length p) (rest_of x)) = lower p) (advance (length p) (fst x), snd x)"
| "ends (Cls f) x =
     (case rest_of x of [] \<Rightarrow> [] | c # cs \<Rightarrow> guard (f c) ((Some c, cs), snd x))"
| "ends (Cat r s) x = concat (map (ends s) (ends r x))"
| "ends (Alt r s) x = ends r x @ ends s x"
| "ends (Rep lo hi greedy r) x =
     concat (map (\<lambda>y. may_ends (ends r) greedy
                   (case hi of None \<Rightarrow> length (rest_of y) | Some h \<Rightarrow> h - lo) y)
       (must_ends (ends r) lo x))"
| "ends (Grp n r) x = map (set_group n x) (ends r x)"
| "ends Bos x = guard (fst (fst x) = None) x"
| "ends Bol x = guard (fst (fst x) = None \<or> fst (fst x) = Some CHR 0x0A) x"
| "ends Eos x = guard (rest_of x = [] \<or> rest_of x = [CHR 0x0A]) x"
| "ends Eol x = guard (rest_of x = [] \<or> next_char (rest_of x) = Some CHR 0x0A) x"
| "ends Wb x = guard (wordish (fst (fst x)) \<noteq> wordish (next_char (rest_of x))) x"

section \<open>Searching\<close>

text \<open>A match is what precedes it, what it matched, its groups, and the cursor after it.\<close>

record rmatch =
  rm_before :: string
  rm_text :: string
  rm_groups :: groups
  rm_after :: cursor

definition match_at :: "rx \<Rightarrow> char option \<Rightarrow> string \<Rightarrow> rmatch option" where
  "match_at r prev s =
     (case ends r ((prev, s), []) of
        [] \<Rightarrow> None
      | (c, g) # _ \<Rightarrow> Some \<lparr>rm_before = '''', rm_text = take (length s - length (snd c)) s,
                       rm_groups = g, rm_after = c\<rparr>)"

definition skip_char :: "char \<Rightarrow> rmatch \<Rightarrow> rmatch" where
  "skip_char c m = m\<lparr>rm_before := c # rm_before m\<rparr>"

fun search_from :: "rx \<Rightarrow> char option \<Rightarrow> string \<Rightarrow> rmatch option" where
  "search_from r prev [] = match_at r prev []"
| "search_from r prev (c # cs) =
     (case match_at r prev (c # cs) of
        Some m \<Rightarrow> Some m
      | None \<Rightarrow> map_option (skip_char c) (search_from r (Some c) cs))"

text \<open>\<open>re.search\<close> and \<open>bool(re.search(...))\<close>; \<open>m.group(n)\<close>, where a group that took no part in
  the match is \<open>None\<close> in Python and empty here.\<close>

definition search :: "rx \<Rightarrow> string \<Rightarrow> rmatch option" where
  "search r s = search_from r None s"

definition found :: "rx \<Rightarrow> string \<Rightarrow> bool" where
  "found r s = (search r s \<noteq> None)"

definition group :: "nat \<Rightarrow> rmatch \<Rightarrow> string" where
  "group n m = (case map_of (rm_groups m) n of None \<Rightarrow> '''' | Some t \<Rightarrow> t)"

lemma map_of_set_group: "map_of (snd (set_group n x y)) n = Some (take (length (rest_of x) - length (rest_of y)) (rest_of x))"
  by (simp add: set_group_def map_of_dict_set)

lemma rest_of_set_group [simp]: "rest_of (set_group n x y) = rest_of y"
  by (simp add: set_group_def rest_of_def)

lemma guard_set [simp]: "set (guard b x) = (if b then {x} else {})"
  by (cases b) (simp_all add: guard_def)

lemma must_ends_suffix:
  assumes "\<And>x y. y \<in> set (f x) \<Longrightarrow> suffix (rest_of y) (rest_of x)" "y \<in> set (must_ends f n x)"
  shows "suffix (rest_of y) (rest_of x)"
  using assms(2)
proof (induction n arbitrary: x)
  case (Suc n)
  then obtain z where "z \<in> set (f x)" "y \<in> set (must_ends f n z)" by auto
  then show ?case using Suc.IH assms(1) suffix_order.trans by blast
qed simp

lemma may_ends_suffix:
  assumes "\<And>x y. y \<in> set (f x) \<Longrightarrow> suffix (rest_of y) (rest_of x)" "y \<in> set (may_ends f g n x)"
  shows "suffix (rest_of y) (rest_of x)"
  using assms(2)
proof (induction n arbitrary: x)
  case (Suc n)
  then consider "y = x" | z where "z \<in> set (f x)" "y \<in> set (may_ends f g n z)"
    by (auto simp: Let_def split: if_splits)
  then show ?case using Suc.IH assms(1) suffix_order.trans by (cases; blast)
qed simp

lemma rest_advance [simp]: "rest_of (advance n c, g) = drop n (snd c)"
  by (simp add: rest_of_def advance_def)

lemma suffix_advance: "suffix (rest_of (advance n (fst x), g)) (rest_of x)"
  by (simp add: suffix_drop rest_of_def [of x])

text \<open>A match consumes a prefix of the text.\<close>

lemma ends_suffix: "y \<in> set (ends r x) \<Longrightarrow> suffix (rest_of y) (rest_of x)"
proof (induction r arbitrary: x y)
  case (Lit p)
  then show ?case by (auto simp del: rest_advance intro: suffix_advance split: if_splits)
next
  case (ILit p)
  then show ?case by (auto simp del: rest_advance intro: suffix_advance split: if_splits)
next
  case (Cls f)
  then show ?case
    by (cases x, cases "fst x", cases "snd (fst x)") (auto simp: rest_of_def suffix_Cons split: if_splits)
next
  case (Cat r s)
  then obtain z where "z \<in> set (ends r x)" "y \<in> set (ends s z)" by auto
  then show ?case using Cat.IH suffix_order.trans by blast
next
  case (Rep lo hi g r)
  then obtain z where "z \<in> set (must_ends (ends r) lo x)"
    "y \<in> set (may_ends (ends r) g (case hi of None \<Rightarrow> length (rest_of z) | Some h \<Rightarrow> h - lo) z)"
    by auto
  then show ?case
    using must_ends_suffix [of "ends r"] may_ends_suffix [of "ends r"] Rep.IH
    by (meson suffix_order.trans)
qed (auto split: if_splits)

lemma match_at_after: "match_at r prev s = Some m \<Longrightarrow>
    rm_before m @ rm_text m @ snd (rm_after m) = s \<and> rm_before m = ''''"
proof -
  assume "match_at r prev s = Some m"
  then obtain c g xs where e: "ends r ((prev, s), []) = (c, g) # xs"
    and m: "m = \<lparr>rm_before = '''', rm_text = take (length s - length (snd c)) s, rm_groups = g, rm_after = c\<rparr>"
    by (auto simp: match_at_def split: list.splits prod.splits)
  then have "suffix (snd c) s" using ends_suffix [of "(c, g)" r "((prev, s), [])"] by (simp add: rest_of_def)
  then show ?thesis using m by (auto simp: suffix_def)
qed

lemma search_from_parts: "search_from r prev s = Some m \<Longrightarrow> rm_before m @ rm_text m @ snd (rm_after m) = s"
proof (induction r prev s arbitrary: m rule: search_from.induct)
  case (1 r prev)
  then show ?case by (auto dest: match_at_after)
next
  case (2 r prev c cs)
  then show ?case
    by (auto simp: skip_char_def dest: match_at_after split: option.splits)
qed

lemma search_from_length [termination_simp]:
  "search_from r prev s = Some m \<Longrightarrow> length (snd (rm_after m)) \<le> length s"
  using search_from_parts [of r prev s m] by (metis le_add2 length_append add.assoc)

text \<open>The matches of \<open>re.finditer\<close> and the text after the last one. No pattern the sidecar
  iterates can match nothing; the scan ends at such a match.\<close>

function scan :: "rx \<Rightarrow> char option \<Rightarrow> string \<Rightarrow> rmatch list \<times> string" where
  "scan r prev s =
     (case search_from r prev s of
        None \<Rightarrow> ([], s)
      | Some m \<Rightarrow>
          if rm_text m = '''' then ([m], snd (rm_after m))
          else (let (ms, tail) = scan r (fst (rm_after m)) (snd (rm_after m)) in (m # ms, tail)))"
  by pat_completeness auto

termination scan
proof (relation "measure (\<lambda>(r, prev, s). length s)", goal_cases)
  case (2 r prev s m)
  then have s: "s = rm_before m @ rm_text m @ snd (rm_after m)" by (simp add: search_from_parts)
  have "length (snd (rm_after m)) < length s" using 2(2) by (subst s) simp
  then show ?case by (simp add: case_prod_beta)
qed simp

declare scan.simps [simp del]

definition finditer :: "rx \<Rightarrow> string \<Rightarrow> rmatch list" where
  "finditer r s = fst (scan r None s)"

text \<open>\<open>re.sub\<close> with a replacement that does not mention groups.\<close>

definition resub :: "rx \<Rightarrow> string \<Rightarrow> string \<Rightarrow> string" where
  "resub r repl s = (let (ms, tail) = scan r None s in concat (map (\<lambda>m. rm_before m @ repl) ms) @ tail)"

lemma scan_parts: "scan r prev s = (ms, tail) \<Longrightarrow> concat (map (\<lambda>m. rm_before m @ rm_text m) ms) @ tail = s"
proof (induction r prev s arbitrary: ms tail rule: scan.induct)
  case (1 r prev s)
  show ?case
  proof (cases "search_from r prev s")
    case None
    with 1 show ?thesis by (simp add: scan.simps [of r prev s])
  next
    case (Some m)
    then have "rm_before m @ rm_text m @ snd (rm_after m) = s" by (rule search_from_parts)
    with 1 Some show ?thesis
      by (auto simp: scan.simps [of r prev s] split: if_splits prod.splits)
  qed
qed

section \<open>The matcher is sound and complete\<close>

text \<open>What it means for a pattern to match from one cursor to another, with no order and no
  bookkeeping; \<open>quantified\<close> says that every quantifier has its bounds in order, which \<open>re\<close> checks
  when it compiles a pattern.\<close>

primrec quantified :: "rx \<Rightarrow> bool" where
  "quantified Eps = True"
| "quantified (Lit p) = True"
| "quantified (ILit p) = True"
| "quantified (Cls f) = True"
| "quantified (Cat r s) = (quantified r \<and> quantified s)"
| "quantified (Alt r s) = (quantified r \<and> quantified s)"
| "quantified (Rep lo hi g r) = ((case hi of None \<Rightarrow> True | Some h \<Rightarrow> lo \<le> h) \<and> quantified r)"
| "quantified (Grp n r) = quantified r"
| "quantified Bos = True"
| "quantified Bol = True"
| "quantified Eos = True"
| "quantified Eol = True"
| "quantified Wb = True"

inductive derives :: "rx \<Rightarrow> cursor \<Rightarrow> cursor \<Rightarrow> bool" where
  eps: "derives Eps c c"
| lit: "startswith (snd c) p \<Longrightarrow> derives (Lit p) c (advance (length p) c)"
| ilit: "lower (take (length p) (snd c)) = lower p \<Longrightarrow> derives (ILit p) c (advance (length p) c)"
| cls: "f a \<Longrightarrow> derives (Cls f) (prev, a # s) (Some a, s)"
| cat: "derives r c d \<Longrightarrow> derives s d e \<Longrightarrow> derives (Cat r s) c e"
| left: "derives r c d \<Longrightarrow> derives (Alt r s) c d"
| right: "derives s c d \<Longrightarrow> derives (Alt r s) c d"
| none: "derives (Rep 0 hi g r) c c"
| more: "derives r c d \<Longrightarrow> hi \<noteq> Some 0 \<Longrightarrow>
    derives (Rep (lo - 1) (map_option (\<lambda>h. h - 1) hi) g r) d e \<Longrightarrow> derives (Rep lo hi g r) c e"
| grp: "derives r c d \<Longrightarrow> derives (Grp n r) c d"
| bos: "fst c = None \<Longrightarrow> derives Bos c c"
| bol: "fst c = None \<or> fst c = Some CHR 0x0A \<Longrightarrow> derives Bol c c"
| eos: "snd c = [] \<or> snd c = [CHR 0x0A] \<Longrightarrow> derives Eos c c"
| eol: "snd c = [] \<or> next_char (snd c) = Some CHR 0x0A \<Longrightarrow> derives Eol c c"
| wb: "wordish (fst c) \<noteq> wordish (next_char (snd c)) \<Longrightarrow> derives Wb c c"

inductive_cases derives_elims:
  "derives Eps c d" "derives (Lit p) c d" "derives (ILit p) c d" "derives (Cls f) c d"
  "derives (Cat r s) c d" "derives (Alt r s) c d" "derives (Grp n r) c d" "derives Bos c d"
  "derives Bol c d" "derives Eos c d" "derives Eol c d" "derives Wb c d"

inductive_cases derives_rep: "derives (Rep lo hi g r) c d"

lemma advance_0 [simp]: "advance 0 c = c"
  by (simp add: advance_def)

lemma advance_advance: "n + m \<le> length (snd c) \<Longrightarrow> advance m (advance n c) = advance (n + m) c"
  by (auto simp: advance_def take_add [of n m] add.commute [of m n])

lemma lower_take_length: "lower (take n s) = lower p \<Longrightarrow> n = length p \<Longrightarrow> length p \<le> length s"
  by (metis length_lower length_take min.absorb_iff2 min.commute)

lemma startswith_length: "startswith s p \<Longrightarrow> length p \<le> length s"
  by (metis length_take min.absorb_iff2 min.commute startswith_def)

lemma advance_trans:
  assumes "\<exists>n \<le> length (snd c). d = advance n c" "\<exists>n \<le> length (snd d). e = advance n d"
  shows "\<exists>n \<le> length (snd c). e = advance n c"
proof -
  from assms obtain n m where n: "n \<le> length (snd c)" "d = advance n c" and m: "m \<le> length (snd d)" "e = advance m d"
    by blast
  then have "length (snd d) = length (snd c) - n" by (simp add: advance_def)
  with n m have "n + m \<le> length (snd c)" "e = advance (n + m) c" by (simp_all add: advance_advance)
  then show ?thesis by blast
qed

text \<open>A derivation only moves the cursor.\<close>

lemma derives_advance: "derives r c d \<Longrightarrow> \<exists>n \<le> length (snd c). d = advance n c"
proof (induction rule: derives.induct)
  case (lit c p)
  then show ?case using startswith_length by blast
next
  case (ilit p c)
  then show ?case using lower_take_length by blast
next
  case (cls f a prev s)
  then show ?case by (intro exI [of _ 1]) (simp add: advance_def)
next
  case (cat r c d s e)
  then show ?case using advance_trans by blast
next
  case (more r c d hi lo g e)
  then show ?case using advance_trans by blast
qed (auto intro: exI [of _ 0])

lemma derives_progress: "derives r c d \<Longrightarrow> d = c \<or> length (snd d) < length (snd c)"
  using derives_advance [of r c d] by (auto simp: advance_def)

text \<open>A quantifier is a bounded number of iterations.\<close>

lemma derives_rep_iff:
  "derives (Rep lo hi g r) c d \<longleftrightarrow> (\<exists>n \<ge> lo. (\<forall>h. hi = Some h \<longrightarrow> n \<le> h) \<and> (derives r ^^ n) c d)"
proof
  show "derives (Rep lo hi g r) c d \<Longrightarrow> \<exists>n \<ge> lo. (\<forall>h. hi = Some h \<longrightarrow> n \<le> h) \<and> (derives r ^^ n) c d"
  proof (induction "Rep lo hi g r" c d arbitrary: lo hi rule: derives.induct)
    case (none hi c)
    then show ?case by (intro exI [of _ 0]) simp
  next
    case (more c x hi lo d)
    from more.hyps(5) obtain n where n: "lo - 1 \<le> n" "\<forall>h. map_option (\<lambda>h. h - 1) hi = Some h \<longrightarrow> n \<le> h" "(derives r ^^ n) x d"
      by blast
    from more.hyps(1) n(3) have "(derives r ^^ Suc n) c d" by (rule relpowp_Suc_I2)
    moreover have "\<forall>h. hi = Some h \<longrightarrow> Suc n \<le> h" using n(2) more.hyps(3) by (cases hi) auto
    ultimately show ?case using n(1) by (intro exI [of _ "Suc n"]) auto
  qed
  have "lo \<le> n \<Longrightarrow> \<forall>h. hi = Some h \<longrightarrow> n \<le> h \<Longrightarrow> (derives r ^^ n) c d \<Longrightarrow> derives (Rep lo hi g r) c d" for n
  proof (induction n arbitrary: lo hi c)
    case 0
    then show ?case by (auto intro: derives.none)
  next
    case (Suc n)
    from Suc.prems(3) obtain x where x: "derives r c x" "(derives r ^^ n) x d" by (blast dest: relpowp_Suc_D2)
    have d: "derives (Rep (lo - 1) (map_option (\<lambda>h. h - 1) hi) g r) x d"
      using Suc.prems(1,2) x(2) by (intro Suc.IH) auto
    have "hi \<noteq> Some 0" using Suc.prems(2) by auto
    from derives.more [OF x(1) this d] show ?case .
  qed
  then show "\<exists>n \<ge> lo. (\<forall>h. hi = Some h \<longrightarrow> n \<le> h) \<and> (derives r ^^ n) c d \<Longrightarrow> derives (Rep lo hi g r) c d"
    by blast
qed

definition step_on :: "rx \<Rightarrow> cursor \<Rightarrow> cursor \<Rightarrow> bool" where
  "step_on r c d \<longleftrightarrow> derives r c d \<and> length (snd d) < length (snd c)"

text \<open>Iterations that consume nothing can be left out.\<close>

lemma relpow_progress:
  "(derives r ^^ n) c d \<Longrightarrow> \<exists>m \<le> n. m \<le> length (snd c) \<and> (step_on r ^^ m) c d"
proof (induction n arbitrary: c)
  case (Suc n)
  from Suc.prems obtain x where x: "derives r c x" "(derives r ^^ n) x d" by (blast dest: relpowp_Suc_D2)
  from Suc.IH [OF x(2)] obtain m where m: "m \<le> n" "m \<le> length (snd x)" "(step_on r ^^ m) x d" by blast
  show ?case
  proof (cases "x = c")
    case True
    with m show ?thesis by (intro exI [of _ m]) simp
  next
    case False
    with x(1) have "step_on r c x" using derives_progress step_on_def by blast
    then have "(step_on r ^^ Suc m) c d" using m(3) by (rule relpowp_Suc_I2)
    moreover have "Suc m \<le> length (snd c)" using m(2) \<open>step_on r c x\<close> by (simp add: step_on_def)
    ultimately show ?thesis using m(1) by (intro exI [of _ "Suc m"]) (simp del: relpowp.simps)
  qed
qed simp

lemma relpow_step_on: "(step_on r ^^ n) c d \<Longrightarrow> (derives r ^^ n) c d"
  by (rule relpowp_mono [of "step_on r"]) (simp_all add: step_on_def)

lemma must_ends_derives:
  assumes "\<And>c g d. (\<exists>g'. (d, g') \<in> set (ends r (c, g))) = derives r c d"
  shows "(\<exists>g'. (d, g') \<in> set (must_ends (ends r) n (c, g))) = (derives r ^^ n) c d"
proof (induction n arbitrary: c g)
  case (Suc n)
  have "(\<exists>g'. (d, g') \<in> set (must_ends (ends r) (Suc n) (c, g))) \<longleftrightarrow>
      (\<exists>x gx. (x, gx) \<in> set (ends r (c, g)) \<and> (\<exists>g'. (d, g') \<in> set (must_ends (ends r) n (x, gx))))"
    by fastforce
  also have "\<dots> \<longleftrightarrow> (\<exists>x. derives r c x \<and> (derives r ^^ n) x d)"
    using Suc.IH assms [symmetric] by blast
  also have "\<dots> \<longleftrightarrow> (derives r ^^ Suc n) c d"
    by (blast dest: relpowp_Suc_D2 intro: relpowp_Suc_I2)
  finally show ?case .
qed auto

lemma may_set:
  "set (may_ends f greedy (Suc k) x) =
     insert x (\<Union>y \<in> {y \<in> set (f x). length (rest_of y) < length (rest_of x)}. set (may_ends f greedy k y))"
  by (auto simp: Let_def)

lemma may_ends_derives:
  assumes "\<And>c g d. (\<exists>g'. (d, g') \<in> set (ends r (c, g))) = derives r c d"
  shows "(\<exists>g'. (d, g') \<in> set (may_ends (ends r) greedy k (c, g))) = (\<exists>n \<le> k. (step_on r ^^ n) c d)"
proof (induction k arbitrary: c g)
  case (Suc k)
  have "(\<exists>g'. (d, g') \<in> set (may_ends (ends r) greedy (Suc k) (c, g))) \<longleftrightarrow> d = c \<or>
      (\<exists>x gx. (x, gx) \<in> set (ends r (c, g)) \<and> length (snd x) < length (snd c) \<and>
        (\<exists>g'. (d, g') \<in> set (may_ends (ends r) greedy k (x, gx))))"
    unfolding may_set by (auto simp: rest_of_def)
  also have "\<dots> \<longleftrightarrow> d = c \<or> (\<exists>x. step_on r c x \<and> (\<exists>n \<le> k. (step_on r ^^ n) x d))"
    using Suc.IH assms [symmetric] unfolding step_on_def by blast
  also have "\<dots> \<longleftrightarrow> (\<exists>n \<le> Suc k. (step_on r ^^ n) c d)" (is "?l \<longleftrightarrow> ?r")
  proof
    assume ?l
    then show ?r
    proof (elim disjE exE conjE)
      assume "d = c"
      then show ?r by (intro exI [of _ 0]) simp
    next
      fix x n assume "step_on r c x" "n \<le> k" "(step_on r ^^ n) x d"
      then show ?r by (intro exI [of _ "Suc n"]) (simp add: relpowp_Suc_I2 del: relpowp.simps)
    qed
  next
    assume ?r
    then obtain n where n: "n \<le> Suc k" "(step_on r ^^ n) c d" by blast
    show ?l
    proof (cases n)
      case 0
      with n show ?thesis by simp
    next
      case (Suc m)
      with n show ?thesis by (blast dest: relpowp_Suc_D2 intro: Suc_le_D)
    qed
  qed
  finally show ?case .
qed auto

lemma rest_pair: "rest_of (c, g) = snd c"
  by (simp add: rest_of_def)

lemma rep_set:
  "set (ends (Rep lo hi gr r) x) = (\<Union>y \<in> set (must_ends (ends r) lo x).
     set (may_ends (ends r) gr (case hi of None \<Rightarrow> length (rest_of y) | Some h \<Rightarrow> h - lo) y))"
  by simp

text \<open>The matcher finds exactly the derivable matches, whatever groups it carries.\<close>

theorem ends_derives:
  "quantified r \<Longrightarrow> (\<exists>g'. (d, g') \<in> set (ends r (c, g))) = derives r c d"
proof (induction r arbitrary: c d g)
  case (Cat r s)
  from Cat.prems have IH: "\<And>c g d. derives r c d = (\<exists>g'. (d, g') \<in> set (ends r (c, g)))"
    "\<And>c g d. derives s c d = (\<exists>g'. (d, g') \<in> set (ends s (c, g)))"
    using Cat.IH by simp_all
  have "(\<exists>g'. (d, g') \<in> set (ends (Cat r s) (c, g))) \<longleftrightarrow>
      (\<exists>x gx. (x, gx) \<in> set (ends r (c, g)) \<and> (\<exists>g'. (d, g') \<in> set (ends s (x, gx))))"
    by fastforce
  also have "\<dots> \<longleftrightarrow> (\<exists>x. derives r c x \<and> derives s x d)"
    using IH by blast
  also have "\<dots> \<longleftrightarrow> derives (Cat r s) c d" by (blast intro: derives.cat elim: derives_elims)
  finally show ?case .
next
  case (Alt r s)
  from Alt.prems have IH: "\<And>c g d. derives r c d = (\<exists>g'. (d, g') \<in> set (ends r (c, g)))"
    "\<And>c g d. derives s c d = (\<exists>g'. (d, g') \<in> set (ends s (c, g)))"
    using Alt.IH by simp_all
  have "derives (Alt r s) c d \<longleftrightarrow> derives r c d \<or> derives s c d"
    by (blast intro: derives.left derives.right elim: derives_elims)
  then show ?case unfolding IH [of c d g] by auto
next
  case (Rep lo hi gr r)
  then have IH: "\<And>c g d. (\<exists>g'. (d, g') \<in> set (ends r (c, g))) = derives r c d" by simp
  let ?k = "\<lambda>x :: cursor. case hi of None \<Rightarrow> length (snd x) | Some h \<Rightarrow> h - lo"
  have "(\<exists>g'. (d, g') \<in> set (ends (Rep lo hi gr r) (c, g))) \<longleftrightarrow>
      (\<exists>x gx. (x, gx) \<in> set (must_ends (ends r) lo (c, g)) \<and>
        (\<exists>g'. (d, g') \<in> set (may_ends (ends r) gr (?k x) (x, gx))))"
    unfolding rep_set UN_iff Bex_def by (simp only: split_paired_Ex rest_pair) blast
  also have "\<dots> \<longleftrightarrow> (\<exists>x. (derives r ^^ lo) c x \<and> (\<exists>n \<le> ?k x. (step_on r ^^ n) x d))"
    using must_ends_derives [OF IH, symmetric] may_ends_derives [OF IH] by simp
  also have "\<dots> \<longleftrightarrow> (\<exists>n \<ge> lo. (\<forall>h. hi = Some h \<longrightarrow> n \<le> h) \<and> (derives r ^^ n) c d)" (is "?l \<longleftrightarrow> ?r")
  proof
    assume ?l
    then obtain x n where "(derives r ^^ lo) c x" "n \<le> ?k x" "(step_on r ^^ n) x d" by blast
    then have "(derives r ^^ (lo + n)) c d" using relpow_step_on by (metis relpowp_trans)
    moreover have "\<forall>h. hi = Some h \<longrightarrow> lo + n \<le> h" using \<open>n \<le> ?k x\<close> Rep.prems by auto
    ultimately show ?r by (intro exI [of _ "lo + n"]) simp
  next
    assume ?r
    then obtain n where n: "lo \<le> n" "\<forall>h. hi = Some h \<longrightarrow> n \<le> h" "(derives r ^^ n) c d" by blast
    then have "(derives r ^^ (lo + (n - lo))) c d" by simp
    then obtain x where x: "(derives r ^^ lo) c x" "(derives r ^^ (n - lo)) x d"
      by (auto simp: relpowp_add)
    from relpow_progress [OF x(2)] obtain m where "m \<le> n - lo" "m \<le> length (snd x)" "(step_on r ^^ m) x d"
      by blast
    then have "m \<le> ?k x" using n(2) by (cases hi) auto
    with x(1) \<open>(step_on r ^^ m) x d\<close> show ?l by blast
  qed
  also have "\<dots> \<longleftrightarrow> derives (Rep lo hi gr r) c d" by (simp add: derives_rep_iff)
  finally show ?case .
next
  case (Grp n r)
  then have "derives r c d = (\<exists>g'. (d, g') \<in> set (ends r (c, g)))" by simp
  moreover have "derives (Grp n r) c d = derives r c d" by (blast intro: derives.grp elim: derives_elims)
  ultimately show ?case by (force simp: set_group_def)
next
  case (Cls f)
  obtain prev s where c: "c = (prev, s)" by (cases c)
  show ?case
  proof (cases s)
    case Nil
    then show ?thesis using c by (auto simp: rest_of_def elim: derives_elims)
  next
    case (Cons a t)
    then show ?thesis using c by (auto simp: rest_of_def intro: derives.cls elim: derives_elims)
  qed
next
  case (Lit p)
  have "derives (Lit p) c d \<longleftrightarrow> startswith (snd c) p \<and> d = advance (length p) c"
    by (blast intro: derives.lit elim: derives_elims)
  then show ?case by (auto simp: rest_of_def)
next
  case (ILit p)
  have "derives (ILit p) c d \<longleftrightarrow> lower (take (length p) (snd c)) = lower p \<and> d = advance (length p) c"
    by (blast intro: derives.ilit elim: derives_elims)
  then show ?case by (auto simp: rest_of_def)
next
  case Eps
  show ?case by (auto intro: derives.eps elim: derives_elims)
next
  case Bos
  show ?case by (auto simp: rest_of_def intro: derives.bos elim: derives_elims)
next
  case Bol
  show ?case by (auto simp: rest_of_def intro: derives.bol elim: derives_elims)
next
  case Eos
  show ?case by (auto simp: rest_of_def intro: derives.eos elim: derives_elims)
next
  case Eol
  show ?case by (auto simp: rest_of_def intro: derives.eol elim: derives_elims)
next
  case Wb
  show ?case by (auto simp: rest_of_def intro: derives.wb elim: derives_elims)
qed

end
