(* ===== verification/Signals.thy ===== *)
theory Signals
  imports Regex
begin

text \<open>
  \<open>sidecar/signals.py\<close>: the review signal and the run receipt, and the invisible HTML-comment
  markers that carry them in GitHub comments. The JSON codec is pydantic's, which is not part of
  the repository: it is a pair of arguments, \<open>dump\<close> (\<open>model_dump_json\<close>) and \<open>validate\<close>
  (\<open>model_validate_json\<close>, \<open>None\<close> for the \<open>ValueError\<close> of a malformed payload). What the markers
  rely on is \<open>carried_by\<close>. Literals of the source above code point 255 are their UTF-8 bytes.
\<close>

section \<open>Records\<close>

text \<open>\<open>ReviewSignal\<close>; \<open>severity_source\<close> is \<open>rs_declared\<close>.\<close>

record review_signal =
  rs_v :: int
  rs_id :: string
  rs_file :: "string option"
  rs_line :: "int option"
  rs_end_line :: "int option"
  rs_severity :: string
  rs_declared :: bool
  rs_category :: string
  rs_title :: string
  rs_body :: string
  rs_suggestion :: bool
  rs_suppressed :: bool
  rs_thread_url :: "string option"
  rs_backend :: string
  rs_model :: string
  rs_role :: string
  rs_kb_refs :: "string list"

definition default_signal :: "string \<Rightarrow> review_signal" where
  "default_signal i = \<lparr>rs_v = 1, rs_id = i, rs_file = None, rs_line = None, rs_end_line = None,
     rs_severity = ''medium'', rs_declared = False, rs_category = ''bug'', rs_title = '''', rs_body = '''',
     rs_suggestion = False, rs_suppressed = False, rs_thread_url = None, rs_backend = '''', rs_model = '''',
     rs_role = ''active'', rs_kb_refs = []\<rparr>"

text \<open>\<open>RunReceipt\<close>; \<open>rp_answered\<close> is its \<open>model\<close> and \<open>rp_driver\<close> its \<open>backend\<close>.\<close>

record run_receipt =
  rp_v :: int
  rp_label :: string
  rp_role :: string
  rp_slot :: "string option"
  rp_promoted :: bool
  rp_head_sha :: string
  rp_state :: string
  rp_answered :: string
  rp_driver :: string
  rp_endpoint :: string
  rp_app :: string
  rp_findings :: "int option"
  rp_channels :: "(string, string) dict"
  rp_detail :: string

definition default_receipt :: "string \<Rightarrow> run_receipt" where
  "default_receipt l = \<lparr>rp_v = 1, rp_label = l, rp_role = ''active'', rp_slot = None, rp_promoted = False,
     rp_head_sha = '''', rp_state = ''in_progress'', rp_answered = '''', rp_driver = ''pr-agent'',
     rp_endpoint = '''', rp_app = '''', rp_findings = None, rp_channels = [], rp_detail = ''''\<rparr>"

text \<open>\<open>make_id\<close>; the SHA-1 hex digest of the standard library is an argument.\<close>

definition make_id :: "(string \<Rightarrow> string) \<Rightarrow> string list \<Rightarrow> string" where
  "make_id sha1 parts = ''fk_'' @ take 10 (sha1 (join [CHR 0x1F] parts))"

section \<open>Markers\<close>

definition MARKER_TAG :: string where "MARKER_TAG = ''fuko-signal:v1''"
definition RUN_TAG :: string where "RUN_TAG = ''fuko-run:v1''"

definition space_rx :: rx where "space_rx = Cls py_space"

text \<open>\<open>_MARKER_RE\<close> and \<open>_RUN_RE\<close>, and the same with the blank lines around them, which strip a
  marker, differ only in the tag.\<close>

definition MARKER_RE :: "string \<Rightarrow> rx" where
  "MARKER_RE tag = cats [Lit ''<!--'', star space_rx, Lit tag, plus space_rx,
     Grp 1 (lazy (Cls not_nl)), star space_rx, Lit ''-->'']"

definition nl_rx :: rx where "nl_rx = Cls (\<lambda>c. c = CHR 0x0A)"

definition MARKER_STRIP_RE :: "string \<Rightarrow> rx" where
  "MARKER_STRIP_RE tag = cats [star nl_rx, Lit ''<!--'', star space_rx, Lit tag, plus space_rx,
     lazy (Cls not_nl), star space_rx, Lit ''-->'', star nl_rx]"

text \<open>\<open>.replace(">", "\\u003e")\<close> on the JSON text.\<close>

definition escape_gt :: "string \<Rightarrow> string" where
  "escape_gt s = concat (map (\<lambda>c. if c = CHR ''>'' then [CHR 0x5C] @ ''u003e'' else [c]) s)"

definition marker :: "string \<Rightarrow> string \<Rightarrow> string" where
  "marker tag json = ''<!-- '' @ tag @ '' '' @ escape_gt json @ '' -->''"

definition payloads :: "string \<Rightarrow> string \<Rightarrow> string list" where
  "payloads tag text = map (group 1) (finditer (MARKER_RE tag) text)"

definition encode_marker :: "(review_signal \<Rightarrow> string) \<Rightarrow> review_signal \<Rightarrow> string" where
  "encode_marker dump s = marker MARKER_TAG (dump s)"

definition extract_markers :: "(string \<Rightarrow> review_signal option) \<Rightarrow> string \<Rightarrow> review_signal list" where
  "extract_markers validate text = List.map_filter validate (payloads MARKER_TAG text)"

definition strip_markers :: "string \<Rightarrow> string" where
  "strip_markers text = resub (MARKER_STRIP_RE MARKER_TAG) '''' text"

definition blank_line :: string where "blank_line = [CHR 0x0A, CHR 0x0A]"

definition with_marker :: "(review_signal \<Rightarrow> string) \<Rightarrow> string \<Rightarrow> review_signal \<Rightarrow> string" where
  "with_marker dump body s = rstrip (strip_markers body) @ blank_line @ encode_marker dump s"

definition with_markers :: "(review_signal \<Rightarrow> string) \<Rightarrow> string \<Rightarrow> review_signal list \<Rightarrow> string" where
  "with_markers dump body ss =
     fold (\<lambda>s out. out @ blank_line @ encode_marker dump s) ss (rstrip (strip_markers body))"

definition encode_run_marker :: "(run_receipt \<Rightarrow> string) \<Rightarrow> run_receipt \<Rightarrow> string" where
  "encode_run_marker dump r = marker RUN_TAG (dump r)"

definition extract_run_receipts :: "(string \<Rightarrow> run_receipt option) \<Rightarrow> string \<Rightarrow> run_receipt list" where
  "extract_run_receipts validate text = List.map_filter validate (payloads RUN_TAG text)"

definition with_run_receipt :: "(run_receipt \<Rightarrow> string) \<Rightarrow> string \<Rightarrow> run_receipt \<Rightarrow> string" where
  "with_run_receipt dump body r =
     rstrip (resub (MARKER_STRIP_RE RUN_TAG) '''' body) @ blank_line @ encode_run_marker dump r"

section \<open>Visible labels\<close>

definition ROBOT :: string where "ROBOT = [CHR 0xF0, CHR 0x9F, CHR 0xA4, CHR 0x96]"

definition VISIBLE_LABEL_RE :: rx where
  "VISIBLE_LABEL_RE = cats [Bos, Lit (ROBOT @ '' `''), plus (Cls (\<lambda>c. c \<noteq> CHR ''`'')),
     Lit (''`'' @ blank_line)]"

definition visible_label :: "string \<Rightarrow> string" where
  "visible_label label = ROBOT @ '' `'' @ label @ ''`''"

definition lstrip_nl :: "string \<Rightarrow> string" where
  "lstrip_nl s = dropWhile (\<lambda>c. c = CHR 0x0A) s"

definition strip_visible_label :: "string \<Rightarrow> string" where
  "strip_visible_label text = resub VISIBLE_LABEL_RE '''' (lstrip_nl text)"

definition with_visible_label ::
  "(review_signal \<Rightarrow> string) \<Rightarrow> string \<Rightarrow> string \<Rightarrow> review_signal \<Rightarrow> string" where
  "with_visible_label dump body label s =
     visible_label label @ blank_line @ with_marker dump (resub VISIBLE_LABEL_RE '''' (lstrip_nl (strip_markers body))) s"

section \<open>What the markers rely on\<close>

text \<open>A JSON text is one line that begins and ends with a brace, and decoding it undoes both the
  dump and the escape of \<open>>\<close>, which only occurs inside string literals; \<open>seen\<close> is what is left of
  a value whose prose fields are not dumped.\<close>

definition json_text :: "string \<Rightarrow> bool" where
  "json_text s = (CHR 0x0A \<notin> set s \<and> s \<noteq> [] \<and> hd s = CHR ''{'' \<and> last s = CHR ''}'')"

definition carried_by :: "('a \<Rightarrow> string) \<Rightarrow> (string \<Rightarrow> 'a option) \<Rightarrow> ('a \<Rightarrow> 'a) \<Rightarrow> 'a \<Rightarrow> bool" where
  "carried_by dump validate seen r = (json_text (dump r) \<and> validate (escape_gt (dump r)) = Some (seen r))"

definition unopened :: "string \<Rightarrow> bool" where
  "unopened s = (\<not> contains ''<!--'' s)"

definition machine_fields :: "review_signal \<Rightarrow> review_signal" where
  "machine_fields s = s\<lparr>rs_title := '''', rs_body := ''''\<rparr>"

section \<open>Lemmas on markers\<close>

lemma escape_gt_no_gt: "CHR ''>'' \<notin> set (escape_gt s)"
  by (induction s) (auto simp: escape_gt_def)

lemma escape_gt_json: "json_text s \<Longrightarrow> json_text (escape_gt s)"
proof -
  assume j: "json_text s"
  then obtain t where s: "s = CHR ''{'' # t" by (cases s) (auto simp: json_text_def)
  from j obtain u where u: "s = u @ [CHR ''}'']" by (metis append_butlast_last_id json_text_def)
  have "hd (escape_gt s) = CHR ''{''" "escape_gt s \<noteq> []" unfolding s by (simp_all add: escape_gt_def)
  moreover have "last (escape_gt s) = CHR ''}''" unfolding u by (simp add: escape_gt_def)
  moreover have "CHR 0x0A \<notin> set (escape_gt s)" using j by (auto simp: json_text_def escape_gt_def)
  ultimately show ?thesis by (simp add: json_text_def)
qed

lemma cls_step: "f c \<Longrightarrow> ends (Cls f) ((pv, c # s), g) = [((Some c, s), g)]"
  by (simp add: rest_of_def guard_def)

lemma may_step:
  "f c \<Longrightarrow> may_ends (ends (Cls f)) greedy (Suc m) ((pv, c # s), g) =
     (if greedy then may_ends (ends (Cls f)) greedy m ((Some c, s), g) @ [((pv, c # s), g)]
      else ((pv, c # s), g) # may_ends (ends (Cls f)) greedy m ((Some c, s), g))"
  by (simp add: rest_of_def guard_def Let_def)

text \<open>The list of ways a lazy or greedy class can match over text that stays in the class.\<close>

lemma lazy_split:
  assumes "\<forall>c \<in> set p. f c" "length p \<le> n"
  shows "\<exists>xs. may_ends (ends (Cls f)) False n ((pv, p @ t), g) =
      xs @ may_ends (ends (Cls f)) False (n - length p) (advance (length p) (pv, p @ t), g)
    \<and> set xs \<subseteq> {(advance i (pv, p @ t), g) | i. i < length p}"
  using assms
proof (induction p arbitrary: n pv)
  case (Cons c p)
  from Cons.prems obtain m where n: "n = Suc m" "length p \<le> m" by (cases n) auto
  from Cons.prems(1) have fc: "f c" by simp
  from Cons.prems(1) have "\<forall>c \<in> set p. f c" by simp
  from Cons.IH [OF this n(2), of "Some c"] obtain xs where
    xs: "may_ends (ends (Cls f)) False m ((Some c, p @ t), g) =
      xs @ may_ends (ends (Cls f)) False (m - length p) (advance (length p) (Some c, p @ t), g)"
    "set xs \<subseteq> {(advance i (Some c, p @ t), g) | i. i < length p}" by blast
  have adv: "advance (Suc i) (pv, (c # p) @ t) = advance i (Some c, p @ t)" if "i \<le> length p" for i
    using that by (cases i) (auto simp: advance_def)
  let ?x = "((pv, (c # p) @ t), g)"
  have "may_ends (ends (Cls f)) False n ?x = ?x # may_ends (ends (Cls f)) False m ((Some c, p @ t), g)"
    unfolding n(1) append_Cons may_step [of f c, OF fc] by simp
  also have "\<dots> = (?x # xs) @ may_ends (ends (Cls f)) False (n - length (c # p)) (advance (length (c # p)) (pv, (c # p) @ t), g)"
    using xs(1) adv [of "length p"] n(1) by simp
  finally show ?case
  proof (intro exI [of _ "?x # xs"] conjI)
    show "set (?x # xs) \<subseteq> {(advance i (pv, (c # p) @ t), g) | i. i < length (c # p)}"
    proof
      fix y assume "y \<in> set (?x # xs)"
      then consider "y = ?x" | i where "i < length p" "y = (advance i (Some c, p @ t), g)" using xs(2) by auto
      then show "y \<in> {(advance i (pv, (c # p) @ t), g) | i. i < length (c # p)}"
      proof cases
        case 1
        then have "y = (advance 0 (pv, (c # p) @ t), g)" by simp
        then show ?thesis by blast
      next
        case 2
        then have "y = (advance (Suc i) (pv, (c # p) @ t), g)" using adv [of i] by simp
        with 2(1) show ?thesis by (auto intro!: exI [of _ "Suc i"])
      qed
    qed
  qed
qed simp

text \<open>The first way a sequence matches.\<close>

lemma cat_first:
  assumes "ends r x = xs @ y # ys" "\<And>z. z \<in> set xs \<Longrightarrow> ends s z = []" "ends s y = w # ws"
  shows "\<exists>ws'. ends (Cat r s) x = w # ws'"
proof -
  have "concat (map (ends s) xs) = []" using assms(2) by simp
  then have "ends (Cat r s) x = w # (ws @ concat (map (ends s) ys))" using assms(1,3) by simp
  then show ?thesis by blast
qed

lemma cat_head: "ends r x = y # ys \<Longrightarrow> ends s y = w # ws \<Longrightarrow> \<exists>ws'. ends (Cat r s) x = w # ws'"
  by simp

lemma star_first:
  assumes "\<forall>c \<in> set p. f c" "t = [] \<or> \<not> f (hd t)"
  shows "\<exists>ys. ends (star (Cls f)) ((pv, p @ t), g) = (advance (length p) (pv, p @ t), g) # ys"
proof -
  have "\<exists>ys. may_ends (ends (Cls f)) True n ((pv, p @ t), g) = (advance (length p) (pv, p @ t), g) # ys"
    if "length p \<le> n" for n
    using assms that
  proof (induction p arbitrary: n pv)
    case Nil
    then have "ends (Cls f) ((pv, t), g) = []" by (cases t) (auto simp: rest_of_def guard_def)
    then show ?case by (cases n) (simp_all add: Let_def)
  next
    case (Cons c p)
    then obtain m where n: "n = Suc m" "length p \<le> m" by (cases n) auto
    from Cons.prems have "\<forall>c \<in> set p. f c" by simp
    from Cons.IH [OF this Cons.prems(2) n(2), of "Some c"] obtain ys where
      "may_ends (ends (Cls f)) True m ((Some c, p @ t), g) = (advance (length p) (Some c, p @ t), g) # ys"
      by blast
    moreover have "advance (Suc (length p)) (pv, (c # p) @ t) = advance (length p) (Some c, p @ t)"
      by (cases p) (auto simp: advance_def)
    moreover have "f c" using Cons.prems(1) by simp
    ultimately show ?case unfolding n(1) append_Cons may_step [of f c, OF \<open>f c\<close>] by simp
  qed
  from this [of "length (p @ t)"] show ?thesis by (simp add: rest_of_def)
qed

lemma plus_step: "f c \<Longrightarrow> ends (plus (Cls f)) ((pv, c # s), g) = ends (star (Cls f)) ((Some c, s), g)"
  by (simp add: rest_of_def guard_def)

lemma lit_cat: "ends (Cat (Lit a) r) ((pv, a @ u), g) = ends r (advance (length a) (pv, a @ u), g)"
  by (simp add: rest_of_def guard_def startswith_def)

lemma lazy_first:
  assumes "\<forall>c \<in> set p. f c"
  shows "\<exists>xs ys. ends (lazy (Cls f)) ((pv, p @ t), g) = xs @ (advance (length p) (pv, p @ t), g) # ys
    \<and> set xs \<subseteq> {(advance i (pv, p @ t), g) | i. i < length p}"
proof -
  let ?n = "length (p @ t)" and ?y = "(advance (length p) (pv, p @ t), g)"
  obtain xs where xs: "may_ends (ends (Cls f)) False ?n ((pv, p @ t), g) = xs @ may_ends (ends (Cls f)) False (?n - length p) ?y"
    "set xs \<subseteq> {(advance i (pv, p @ t), g) | i. i < length p}"
    using lazy_split [OF assms, of ?n pv t g] by auto
  moreover obtain ys where "may_ends (ends (Cls f)) False (?n - length p) ?y = ?y # ys"
    by (cases "?n - length p") (simp_all add: Let_def)
  ultimately show ?thesis by (auto simp: rest_of_def)
qed

text \<open>The end of a marker is only found after its payload.\<close>

definition close_rx :: rx where "close_rx = Cat (star space_rx) (Lit ''-->'')"

lemma relpow_cls: "(derives (Cls f) ^^ n) c d \<Longrightarrow> \<exists>ws. snd c = ws @ snd d \<and> (\<forall>a \<in> set ws. f a)"
proof (induction n arbitrary: c)
  case (Suc n)
  then obtain x where x: "derives (Cls f) c x" "(derives (Cls f) ^^ n) x d" by (blast dest: relpowp_Suc_D2)
  from Suc.IH [OF x(2)] obtain ws where ws: "snd x = ws @ snd d" "\<forall>a \<in> set ws. f a" by blast
  from x(1) obtain a where "f a" "snd c = a # snd x" by (auto elim!: derives_elims)
  with ws show ?case by (intro exI [of _ "a # ws"]) simp
qed auto

lemma close_needs:
  assumes "ends close_rx x \<noteq> []"
  shows "\<exists>ws u. rest_of x = ws @ ''-->'' @ u \<and> (\<forall>c \<in> set ws. py_space c)"
proof -
  from assms obtain d g' where "(d, g') \<in> set (ends close_rx (fst x, snd x))" by (cases "ends close_rx x") auto
  moreover have "quantified close_rx" by (simp add: close_rx_def space_rx_def)
  ultimately have "derives close_rx (fst x) d" using ends_derives by blast
  then obtain e where e: "derives (star space_rx) (fst x) e" "derives (Lit ''-->'') e d"
    unfolding close_rx_def by (blast elim: derives_elims)
  then obtain n where "(derives (Cls py_space) ^^ n) (fst x) e" by (auto simp: derives_rep_iff space_rx_def)
  from relpow_cls [OF this] obtain ws where ws: "snd (fst x) = ws @ snd e" "\<forall>a \<in> set ws. py_space a" by blast
  moreover from e(2) obtain u where "snd e = ''-->'' @ u"
    by (auto elim!: derives_elims simp: startswith_iff_append)
  ultimately show ?thesis unfolding rest_of_def by auto
qed

lemma close_not_inside:
  assumes q: "q \<noteq> []" "last q = CHR ''}''" "CHR ''>'' \<notin> set q"
  shows "ends close_rx ((pv, q @ '' -->'' @ t), g) = []"
proof (rule ccontr)
  assume "ends close_rx ((pv, q @ '' -->'' @ t), g) \<noteq> []"
  from close_needs [OF this] obtain ws u where e: "q @ '' -->'' @ t = ws @ ''-->'' @ u" and ws: "\<forall>c \<in> set ws. py_space c"
    by (auto simp: rest_of_def)
  have "\<not> py_space (CHR ''}'')" by (simp add: py_space_def)
  then have "CHR ''}'' \<notin> set ws" using ws by blast
  have "length ws < length q"
  proof (rule ccontr)
    assume "\<not> length ws < length q"
    then have "take (length q) ws = q" using e by (metis append_eq_append_conv_if not_less)
    then have "last q \<in> set ws" using q(1) by (metis in_set_takeD last_in_set)
    with q(2) \<open>CHR ''}'' \<notin> set ws\<close> show False by simp
  qed
  then obtain r where r: "q = ws @ r" "r \<noteq> []" "r @ '' -->'' @ t = ''-->'' @ u"
    using e by (metis append_eq_append_conv_if append_take_drop_id drop_eq_Nil leI less_imp_le_nat linorder_not_le)
  then obtain a v where a: "r = a # v" by (cases r) auto
  have "last r = CHR ''}''" "CHR ''>'' \<notin> set r" using q r by auto
  with r(3) a show False by (cases v; cases "tl v") auto
qed

lemma close_first:
  "\<exists>ys. ends close_rx ((pv, '' -->'' @ t), g) = ((Some CHR ''>'', t), g) # ys"
proof -
  obtain ys where "ends (star space_rx) ((pv, '' '' @ ''-->'' @ t), g) =
      (advance (length '' '') (pv, '' '' @ ''-->'' @ t), g) # ys"
    using star_first [of "'' ''" py_space "''-->'' @ t" pv g] by (auto simp: space_rx_def py_space_def)
  then show ?thesis
    unfolding close_rx_def
    by (intro cat_first [of _ _ "[]" _ ys _ _ "[]"]) (auto simp: rest_of_def advance_def startswith_def guard_def)
qed

lemma advance_append: "p \<noteq> [] \<Longrightarrow> advance (length p) (pv, p @ t) = (Some (last p), t)"
  by (simp add: advance_def)

definition body_rx :: "bool \<Rightarrow> rx" where
  "body_rx grouped = (if grouped then Grp 1 (lazy (Cls not_nl)) else lazy (Cls not_nl))"

text \<open>From the opening on, a marker matches with its payload as group 1.\<close>

lemma body_first:
  assumes j: "json_text q" "CHR ''>'' \<notin> set q"
  shows "\<exists>ws. ends (Cat (body_rx grouped) close_rx) ((pv, q @ '' -->'' @ t), []) =
      ((Some CHR ''>'', t), if grouped then [(1, q)] else []) # ws"
proof -
  let ?s = "(pv, q @ '' -->'' @ t)"
  have q: "q \<noteq> []" "last q = CHR ''}''" "\<forall>c \<in> set q. not_nl c"
    using j by (auto simp: json_text_def not_nl_def)
  from lazy_first [OF q(3), of pv "'' -->'' @ t" "[]"] obtain xs ys where
    e: "ends (lazy (Cls not_nl)) (?s, []) = xs @ (advance (length q) ?s, []) # ys" and
    xs: "set xs \<subseteq> {(advance i ?s, []) | i. i < length q}" by auto
  let ?g = "\<lambda>z. if grouped then set_group 1 (?s, []) z else z"
  have e': "ends (body_rx grouped) (?s, []) = map ?g xs @ ?g (advance (length q) ?s, []) # map ?g ys"
    using e by (cases grouped) (simp_all add: body_rx_def)
  have none: "ends close_rx z = []" if "z \<in> set (map ?g xs)" for z
  proof -
    from that xs obtain i where i: "i < length q" "fst z = advance i ?s"
      by (cases grouped) (auto simp: set_group_def)
    have "snd (fst z) = drop i q @ '' -->'' @ t" using i by (simp add: advance_def)
    moreover have "drop i q \<noteq> []" "last (drop i q) = CHR ''}''" "CHR ''>'' \<notin> set (drop i q)"
      using i(1) q(2) j(2) by (auto dest: in_set_dropD)
    ultimately show ?thesis using close_not_inside by (metis prod.collapse)
  qed
  have y: "?g (advance (length q) ?s, []) = ((Some (last q), '' -->'' @ t), if grouped then [(1, q)] else [])"
    using q(1) by (simp add: set_group_def rest_of_def advance_append [of q])
  obtain ws where "ends close_rx (?g (advance (length q) ?s, [])) =
      ((Some CHR ''>'', t), if grouped then [(1, q)] else []) # ws"
    unfolding y using close_first by blast
  from cat_first [OF e' none this] show ?thesis by blast
qed

definition open_rx :: "string \<Rightarrow> rx \<Rightarrow> rx" where
  "open_rx tag k = Cat (Lit ''<!--'') (Cat (star space_rx) (Cat (Lit tag) (Cat (plus space_rx) k)))"

definition plain_tag :: "string \<Rightarrow> bool" where
  "plain_tag tag = (tag \<noteq> [] \<and> \<not> py_space (hd tag))"

lemma open_first:
  assumes "plain_tag tag" "q \<noteq> []" "\<not> py_space (hd q)"
    and "\<And>pv. \<exists>ws. ends k ((pv, q @ t), []) = w # ws"
  shows "\<exists>ws. ends (open_rx tag k) ((pv, ''<!-- '' @ tag @ '' '' @ q @ t), []) = w # ws"
proof -
  let ?s1 = "'' '' @ tag @ '' '' @ q @ t" and ?s2 = "tag @ '' '' @ q @ t"
  obtain ys where "ends (star space_rx) ((Some CHR '' '', q @ t), []) = ((Some CHR '' '', q @ t), []) # ys"
    using star_first [of "[]" py_space "q @ t" "Some CHR '' ''" "[]"] assms(2,3) by (auto simp: space_rx_def)
  then have p: "ends (plus space_rx) ((Some (last tag), '' '' @ q @ t), []) = ((Some CHR '' '', q @ t), []) # ys"
    using plus_step [of py_space "CHR '' ''" "Some (last tag)" "q @ t" "[]"] by (simp add: space_rx_def py_space_def)
  obtain ws0 where "ends k ((Some CHR '' '', q @ t), []) = w # ws0" using assms(4) by blast
  from cat_head [OF p this] obtain ws where
    "ends (Cat (plus space_rx) k) ((Some (last tag), '' '' @ q @ t), []) = w # ws" by blast
  then have tag: "ends (Cat (Lit tag) (Cat (plus space_rx) k)) ((Some CHR '' '', ?s2), []) = w # ws"
    using lit_cat [of tag _ "Some CHR '' ''" "'' '' @ q @ t" "[]"] assms(1)
    by (simp add: advance_append plain_tag_def)
  obtain ys' where sp: "ends (star space_rx) ((Some CHR ''-'', '' '' @ ?s2), []) = ((Some CHR '' '', ?s2), []) # ys'"
    using star_first [of "'' ''" py_space ?s2 "Some CHR ''-''" "[]"] assms(1)
    by (auto simp: space_rx_def py_space_def plain_tag_def advance_def)
  from cat_head [OF sp tag] obtain ws' where
    "ends (Cat (star space_rx) (Cat (Lit tag) (Cat (plus space_rx) k))) ((Some CHR ''-'', '' '' @ ?s2), []) = w # ws'"
    by blast
  then show ?thesis
    using lit_cat [of "''<!--''" _ pv "'' '' @ ?s2" "[]"] by (simp add: open_rx_def advance_def)
qed

lemma marker_re: "MARKER_RE tag = open_rx tag (Cat (body_rx True) close_rx)"
  by (simp add: MARKER_RE_def open_rx_def body_rx_def close_rx_def)

lemma strip_re: "MARKER_STRIP_RE tag =
    Cat (star nl_rx) (open_rx tag (Cat (body_rx False) (Cat (star space_rx) (Cat (Lit ''-->'') (star nl_rx)))))"
  by (simp add: MARKER_STRIP_RE_def open_rx_def body_rx_def)

lemma concat_map_concat: "concat (map f (concat xss)) = concat (map (\<lambda>xs. concat (map f xs)) xss)"
  by (induction xss) simp_all

lemma cat_assoc: "ends (Cat (Cat a b) c) x = ends (Cat a (Cat b c)) x"
proof -
  have "ends (Cat b c) = (\<lambda>x. concat (map (ends c) (ends b x)))" by (rule ext) simp
  then show ?thesis by (simp add: concat_map_concat comp_def)
qed

lemma cat_assoc_inner: "ends (Cat a (Cat (Cat b c) d)) x = ends (Cat a (Cat b (Cat c d))) x"
proof -
  have "ends (Cat (Cat b c) d) = ends (Cat b (Cat c d))" by (rule ext) (rule cat_assoc)
  then show ?thesis unfolding ends.simps(5) [of a] by (simp only:)
qed

section \<open>Searching for markers\<close>

text \<open>A search passes over text where the pattern cannot start.\<close>

lemma search_skip:
  assumes "\<And>u v pv. b = u @ v \<Longrightarrow> v \<noteq> [] \<Longrightarrow> ends r ((pv, v @ s), []) = []"
  shows "search_from r pv (b @ s) =
    map_option (\<lambda>m. m\<lparr>rm_before := b @ rm_before m\<rparr>) (search_from r (if b = [] then pv else Some (last b)) s)"
  using assms
proof (induction b arbitrary: pv)
  case Nil
  then show ?case by (simp add: option.map_ident)
next
  case (Cons c b)
  have "match_at r pv (c # b @ s) = None"
    using Cons.prems [of "[]" "c # b" pv] by (simp add: match_at_def)
  moreover have "ends r ((pv, v @ s), []) = []" if "b = u @ v" "v \<noteq> []" for u v pv
    using Cons.prems [of "c # u" v pv] that by simp
  ultimately show ?case
    using Cons.IH [of "Some c"] by (simp add: option.map_comp comp_def skip_char_def split: option.split)
qed

lemma search_hit:
  "ends r ((pv, s), []) = (c, g) # ws \<Longrightarrow> search_from r pv s =
     Some \<lparr>rm_before = '''', rm_text = take (length s - length (snd c)) s, rm_groups = g, rm_after = c\<rparr>"
  by (cases s) (simp_all add: match_at_def)

lemma search_none:
  assumes "\<And>u v pv. s = u @ v \<Longrightarrow> ends r ((pv, v), []) = []"
  shows "search_from r pv s = None"
  using assms
proof (induction s arbitrary: pv)
  case (Cons c s)
  have "ends r ((pv, v), []) = []" if "s = u @ v" for u v pv using Cons.prems [of "c # u" v pv] that by simp
  then show ?case using Cons.IH [of "Some c"] Cons.prems [of "[]" "c # s" pv] by (simp add: match_at_def)
qed (simp add: match_at_def)

lemma contains_append: "\<not> contains p (u @ v) \<Longrightarrow> \<not> contains p v"
  by (induction u) auto

lemma unopened_suffix: "unopened (u @ v) \<Longrightarrow> \<not> startswith v ''<!--''"
  using contains_append [of "''<!--''" u v] by (cases v) (auto simp: unopened_def startswith_def)

lemma open_needs: "ends (open_rx tag k) ((pv, s), g) \<noteq> [] \<Longrightarrow> startswith s ''<!--''"
  by (auto simp: open_rx_def rest_of_def guard_def split: if_splits)

text \<open>An opening does not straddle a newline.\<close>

lemma straddle:
  assumes "startswith (v @ s) ''<!--''" "v \<noteq> []" "s = [] \<or> hd s = CHR 0x0A"
  shows "startswith v ''<!--''"
proof -
  from assms(1) obtain u where u: "v @ s = ''<!--'' @ u" by (auto simp: startswith_iff_append)
  then obtain w where "v = ''<!--'' @ w \<or> v @ w = ''<!--'' \<and> s = w @ u"
    unfolding append_eq_append_conv2 by blast
  then show ?thesis
  proof
    assume w: "v @ w = ''<!--'' \<and> s = w @ u"
    show ?thesis
    proof (cases w)
      case (Cons a w')
      from w have "s = w @ u" by (rule conjunct2)
      with assms(3) Cons have "CHR 0x0A \<in> set w" by simp
      moreover from w have "set w \<subseteq> set ''<!--''" by (metis Un_upper2 set_append)
      ultimately show ?thesis by auto
    qed (use w in \<open>simp add: startswith_iff_append\<close>)
  qed (simp add: startswith_iff_append)
qed

lemma open_skips:
  assumes "unopened b" "s = [] \<or> hd s = CHR 0x0A" "b = u @ v" "v \<noteq> []"
  shows "ends (open_rx tag k) ((pv, v @ s), []) = []"
  using open_needs [of tag k pv "v @ s" "[]"] straddle [of v s] unopened_suffix [of u v] assms by blast

text \<open>A body followed by any number of markers, as the writers lay them out.\<close>

definition marker_block :: "string \<Rightarrow> string list \<Rightarrow> string" where
  "marker_block tag js = concat (map (\<lambda>j. blank_line @ marker tag j) js)"

lemma block_simps [simp]: "marker_block tag [] = []" "marker_block tag (j # js) = blank_line @ marker tag j @ marker_block tag js"
  by (simp_all add: marker_block_def)

lemma block_start: "marker_block tag js = [] \<or> hd (marker_block tag js) = CHR 0x0A"
  by (cases js) (simp_all add: blank_line_def)

lemma marker_split: "marker tag j @ t = ''<!-- '' @ tag @ '' '' @ escape_gt j @ '' -->'' @ t"
  by (simp add: marker_def)

lemma json_head: "json_text q \<Longrightarrow> q \<noteq> [] \<and> \<not> py_space (hd q)"
  by (auto simp: json_text_def py_space_def)

lemma marker_first:
  assumes "plain_tag tag" "json_text j"
  shows "\<exists>ws. ends (MARKER_RE tag) ((pv, marker tag j @ t), []) = ((Some CHR ''>'', t), [(1, escape_gt j)]) # ws"
proof -
  note q = escape_gt_json [OF assms(2)]
  show ?thesis
    unfolding marker_re marker_split
    using open_first [OF assms(1), of "escape_gt j" "Cat (body_rx True) close_rx" "'' -->'' @ t"]
      json_head [OF q] body_first [OF q escape_gt_no_gt, of True] by simp
qed

lemma scan_markers:
  assumes "plain_tag tag" "unopened b" "\<forall>j \<in> set js. json_text j"
  shows "\<exists>ms. scan (MARKER_RE tag) pv (b @ marker_block tag js) = (ms, if js = [] then b else []) \<and>
    map (group 1) ms = map escape_gt js"
  using assms(2,3)
proof (induction js arbitrary: b pv)
  case Nil
  have "search_from (MARKER_RE tag) pv b = None"
  proof (rule search_none)
    show "ends (MARKER_RE tag) ((pv, v), []) = []" if "b = u @ v" for u v pv
      using open_needs [of tag _ pv v "[]"] unopened_suffix Nil.prems(1) that unfolding marker_re by blast
  qed
  then show ?case by (simp add: scan.simps [of _ pv b])
next
  case (Cons j js)
  let ?b = "b @ blank_line" and ?t = "marker tag j @ marker_block tag js"
  have "\<not> contains ''<!--'' b" using Cons.prems(1) by (simp add: unopened_def)
  have skip: "ends (MARKER_RE tag) ((pv, v @ ?t), []) = []" if v: "?b = u @ v" "v \<noteq> []" for u v pv
  proof (rule ccontr)
    assume "ends (MARKER_RE tag) ((pv, v @ ?t), []) \<noteq> []"
    then have s: "startswith (v @ ?t) ''<!--''" unfolding marker_re by (rule open_needs)
    from v(1) obtain w where "v = w @ blank_line \<and> b = u @ w \<or> w @ v = blank_line"
      by (metis append_eq_append_conv2)
    then show False
    proof
      assume w: "v = w @ blank_line \<and> b = u @ w"
      then have "\<not> startswith w ''<!--''" using unopened_suffix Cons.prems(1) by blast
      moreover have "startswith (w @ (blank_line @ ?t)) ''<!--''" using s w by simp
      moreover have "w \<noteq> []" using s w by (auto simp: blank_line_def startswith_def)
      ultimately show False using straddle [of w "blank_line @ ?t"] by (simp add: blank_line_def)
    next
      assume "w @ v = blank_line"
      then have "hd v = CHR 0x0A" using v(2) by (cases w; cases v; cases "tl w") (auto simp: blank_line_def)
      then show False using s v(2) by (cases v) (auto simp: startswith_def)
    qed
  qed
  let ?pv = "if ?b = [] then pv else Some (last ?b)"
  obtain ws where "ends (MARKER_RE tag) ((?pv, ?t), []) = ((Some CHR ''>'', marker_block tag js), [(1, escape_gt j)]) # ws"
    using marker_first [OF assms(1)] Cons.prems(2) by (metis list.set_intros(1))
  from search_hit [OF this] obtain m where m: "search_from (MARKER_RE tag) ?pv ?t = Some m"
    "rm_text m = marker tag j" "rm_groups m = [(1, escape_gt j)]" "rm_after m = (Some CHR ''>'', marker_block tag js)"
    by simp
  let ?m = "m\<lparr>rm_before := ?b @ rm_before m\<rparr>"
  have "search_from (MARKER_RE tag) pv (b @ marker_block tag (j # js)) = Some ?m"
    using search_skip [of ?b "MARKER_RE tag" ?t pv, OF skip] m(1) by simp
  moreover have "rm_text ?m \<noteq> []" using m(2) by (simp add: marker_def)
  moreover obtain ms where "scan (MARKER_RE tag) (Some CHR ''>'') (marker_block tag js) = (ms, [])"
    "map (group 1) ms = map escape_gt js"
    using Cons.IH [of "[]" "Some CHR ''>''"] Cons.prems by (auto simp: unopened_def)
  ultimately show ?case
    using m(3,4) by (subst scan.simps) (simp add: group_def)
qed

section \<open>Stripping markers\<close>

lemma nl_first:
  assumes "\<forall>c \<in> set p. c = CHR 0x0A" "t = [] \<or> hd t \<noteq> CHR 0x0A"
  shows "\<exists>ys. ends (star nl_rx) ((pv, p @ t), g) = (advance (length p) (pv, p @ t), g) # ys"
  unfolding nl_rx_def using assms by (rule star_first)

text \<open>A marker, the newlines before it and the newlines after it are one match.\<close>

lemma strip_first:
  assumes "plain_tag tag" "json_text j" "\<forall>c \<in> set a. c = CHR 0x0A" "\<forall>c \<in> set z. c = CHR 0x0A"
    "t = [] \<or> hd t \<noteq> CHR 0x0A"
  shows "\<exists>c ws. ends (MARKER_STRIP_RE tag) ((pv, a @ marker tag j @ z @ t), []) = (c, []) # ws \<and> snd c = t"
proof -
  note q = escape_gt_json [OF assms(2)]
  let ?k = "Cat (body_rx False) (Cat (star space_rx) (Cat (Lit ''-->'') (star nl_rx)))"
  let ?c = "advance (length z) (Some CHR ''>'', z @ t)"
  have k: "\<exists>ws. ends ?k ((pv, escape_gt j @ '' -->'' @ z @ t), []) = (?c, []) # ws" for pv
  proof -
    from body_first [OF q escape_gt_no_gt, of False pv "z @ t"] obtain ws where
      b: "ends (Cat (body_rx False) close_rx) ((pv, escape_gt j @ '' -->'' @ z @ t), []) = ((Some CHR ''>'', z @ t), []) # ws"
      by auto
    from nl_first [OF assms(4,5), of "Some CHR ''>''" "[]"] obtain ys where
      n: "ends (star nl_rx) ((Some CHR ''>'', z @ t), []) = (?c, []) # ys" by blast
    from cat_head [OF b n] show ?thesis
      unfolding close_rx_def cat_assoc cat_assoc_inner .
  qed
  obtain ws where o: "ends (open_rx tag ?k) ((if a = [] then pv else Some CHR 0x0A, marker tag j @ z @ t), []) = (?c, []) # ws"
    unfolding marker_split using open_first [OF assms(1) _ _ k] json_head [OF q] by blast
  have adv: "advance (length a) (pv, a @ marker tag j @ z @ t) = (if a = [] then pv else Some CHR 0x0A, marker tag j @ z @ t)"
    using assms(3) last_in_set [of a] by (auto simp: advance_append)
  have "marker tag j @ z @ t = [] \<or> hd (marker tag j @ z @ t) \<noteq> CHR 0x0A" by (simp add: marker_def)
  from nl_first [OF assms(3) this, of pv "[]"] obtain ys where
    "ends (star nl_rx) ((pv, a @ marker tag j @ z @ t), []) = ((if a = [] then pv else Some CHR 0x0A, marker tag j @ z @ t), []) # ys"
    unfolding adv by blast
  from cat_head [OF this o] have "\<exists>ws. ends (MARKER_STRIP_RE tag) ((pv, a @ marker tag j @ z @ t), []) = (?c, []) # ws"
    unfolding strip_re .
  moreover have "snd ?c = t" by (simp add: advance_def)
  ultimately show ?thesis by blast
qed

lemma strip_needs:
  assumes "ends (MARKER_STRIP_RE tag) ((pv, s), g) \<noteq> []"
  shows "\<exists>w s'. s = w @ s' \<and> (\<forall>c \<in> set w. c = CHR 0x0A) \<and> startswith s' ''<!--''"
proof -
  from assms obtain x where x: "x \<in> set (ends (star nl_rx) ((pv, s), g))" "ends (open_rx tag
      (Cat (body_rx False) (Cat (star space_rx) (Cat (Lit ''-->'') (star nl_rx))))) x \<noteq> []"
    unfolding strip_re by auto
  obtain d g' where d: "x = (d, g')" by (cases x)
  have "quantified (star nl_rx)" by (simp add: nl_rx_def)
  with x(1) d have "derives (star nl_rx) (pv, s) d" using ends_derives by blast
  then obtain n where "(derives (Cls (\<lambda>c. c = CHR 0x0A)) ^^ n) (pv, s) d" by (auto simp: derives_rep_iff nl_rx_def)
  from relpow_cls [OF this] obtain w where "s = w @ snd d" "\<forall>a \<in> set w. a = CHR 0x0A" by auto
  moreover have "startswith (snd d) ''<!--''" using x(2) d open_needs by (metis prod.collapse)
  ultimately show ?thesis by blast
qed

definition closed_end :: "string \<Rightarrow> bool" where
  "closed_end b = (b = [] \<or> last b \<noteq> CHR 0x0A)"

lemma strip_skips:
  assumes "unopened b" "closed_end b" "s = [] \<or> hd s = CHR 0x0A" "b = u @ v" "v \<noteq> []"
  shows "ends (MARKER_STRIP_RE tag) ((pv, v @ s), []) = []"
proof (rule ccontr)
  assume "ends (MARKER_STRIP_RE tag) ((pv, v @ s), []) \<noteq> []"
  from strip_needs [OF this] obtain w s' where w: "v @ s = w @ s'" "\<forall>c \<in> set w. c = CHR 0x0A" "startswith s' ''<!--''"
    by blast
  from assms(2,4,5) have l: "last v \<noteq> CHR 0x0A" by (auto simp: closed_end_def)
  from w(1) obtain x where x: "v = w @ x \<and> x @ s = s' \<or> v @ x = w \<and> s = x @ s'"
    unfolding append_eq_append_conv2 by blast
  then show False
  proof
    assume x: "v = w @ x \<and> x @ s = s'"
    have "x \<noteq> []"
    proof
      assume "x = []"
      with x have "last v \<in> set w" using last_in_set [OF assms(5)] by simp
      with w(2) l show False by blast
    qed
    with x w(3) straddle [of x s] assms(3) have "startswith x ''<!--''" by blast
    moreover have "b = (u @ w) @ x" using x assms(4) by simp
    ultimately show False using unopened_suffix [of "u @ w" x] assms(1) by simp
  next
    assume "v @ x = w \<and> s = x @ s'"
    then have "last v \<in> set w" using last_in_set [OF assms(5)] by auto
    with w(2) l show False by blast
  qed
qed

fun headless :: "string \<Rightarrow> string list \<Rightarrow> string" where
  "headless tag [] = []"
| "headless tag (j # js) = marker tag j @ marker_block tag js"

lemma block_headless: "marker_block tag js = (if js = [] then [] else blank_line) @ headless tag js"
  by (cases js) simp_all

lemma headless_start: "headless tag js = [] \<or> hd (headless tag js) \<noteq> CHR 0x0A"
  by (cases js) (simp_all add: marker_def)

lemma blank_line_nl: "\<forall>c \<in> set (if js = [] then [] else blank_line). c = CHR 0x0A"
  by (simp add: blank_line_def)

lemma marker_ne: "marker tag j \<noteq> []"
  by (simp add: marker_def)

lemma strip_hit:
  assumes "plain_tag tag" "json_text j" "\<forall>c \<in> set a. c = CHR 0x0A"
  shows "\<exists>m. search_from (MARKER_STRIP_RE tag) pv (a @ marker tag j @ marker_block tag js) = Some m
    \<and> rm_before m = [] \<and> rm_text m \<noteq> [] \<and> snd (rm_after m) = headless tag js"
proof -
  let ?z = "if js = [] then [] else blank_line"
  from strip_first [OF assms blank_line_nl [of js] headless_start, of pv tag js] obtain c ws where
    c: "ends (MARKER_STRIP_RE tag) ((pv, a @ marker tag j @ marker_block tag js), []) = (c, []) # ws" "snd c = headless tag js"
    by (auto simp: block_headless [of tag js])
  have "0 < length (marker tag j)" using marker_ne by blast
  then show ?thesis
    unfolding search_hit [OF c(1)] using c(2) by (simp add: block_headless [of tag js])
qed

lemma strip_headless:
  assumes "plain_tag tag" "\<forall>j \<in> set js. json_text j"
  shows "\<exists>ms. scan (MARKER_STRIP_RE tag) pv (headless tag js) = (ms, []) \<and> concat (map rm_before ms) = []"
  using assms(2)
proof (induction js arbitrary: pv)
  case Nil
  have "search_from (MARKER_STRIP_RE tag) pv [] = None"
  proof (rule search_none)
    show "ends (MARKER_STRIP_RE tag) ((pv, v), []) = []" if "[] = u @ v" for u v pv
      using strip_needs [of tag pv v "[]"] that by (auto simp: startswith_def)
  qed
  then show ?case by (simp add: scan.simps [of _ pv "[]"])
next
  case (Cons j js)
  from strip_hit [OF assms(1), of j "[]" pv js] Cons.prems obtain m where
    m: "search_from (MARKER_STRIP_RE tag) pv (headless tag (j # js)) = Some m"
    "rm_before m = []" "rm_text m \<noteq> []" "snd (rm_after m) = headless tag js" by auto
  from Cons.IH [of "fst (rm_after m)"] Cons.prems obtain ms where
    "scan (MARKER_STRIP_RE tag) (fst (rm_after m)) (headless tag js) = (ms, [])" "concat (map rm_before ms) = []" by auto
  with m show ?case by (subst scan.simps) simp
qed

lemma strip_block:
  assumes "plain_tag tag" "unopened b" "closed_end b \<or> js = []" "\<forall>j \<in> set js. json_text j"
  shows "resub (MARKER_STRIP_RE tag) '''' (b @ marker_block tag js) = b"
proof (cases js)
  case Nil
  have "search_from (MARKER_STRIP_RE tag) None b = None"
  proof (rule search_none)
    show "ends (MARKER_STRIP_RE tag) ((pv, v), []) = []" if "b = u @ v" for u v pv
    proof (rule ccontr)
      assume "ends (MARKER_STRIP_RE tag) ((pv, v), []) \<noteq> []"
      from strip_needs [OF this] obtain w s' where "v = w @ s'" "startswith s' ''<!--''" by blast
      then show False using unopened_suffix [of "u @ w" s'] assms(2) that by simp
    qed
  qed
  with Nil show ?thesis by (simp add: resub_def scan.simps [of _ None b])
next
  case (Cons j js')
  let ?t = "blank_line @ marker tag j @ marker_block tag js'" and ?pv = "if b = [] then None else Some (last b)"
  have skip: "ends (MARKER_STRIP_RE tag) ((pv, v @ ?t), []) = []" if "b = u @ v" "v \<noteq> []" for u v pv
    using strip_skips [OF assms(2) _ _ that] assms(3) Cons by (simp add: blank_line_def)
  have "\<forall>c \<in> set blank_line. c = CHR 0x0A" by (simp add: blank_line_def)
  from strip_hit [OF assms(1) _ this, of j ?pv js'] assms(4) Cons obtain m where
    m: "search_from (MARKER_STRIP_RE tag) ?pv ?t = Some m"
    "rm_before m = []" "rm_text m \<noteq> []" "snd (rm_after m) = headless tag js'" by auto
  from strip_headless [OF assms(1), of js' "fst (rm_after m)"] assms(4) Cons obtain ms where
    ms: "scan (MARKER_STRIP_RE tag) (fst (rm_after m)) (headless tag js') = (ms, [])" "concat (map rm_before ms) = []"
    by auto
  have "search_from (MARKER_STRIP_RE tag) None (b @ marker_block tag js) = Some (m\<lparr>rm_before := b\<rparr>)"
    using search_skip [of b "MARKER_STRIP_RE tag" ?t None, OF skip] m(1,2) Cons by simp
  then show ?thesis
    using m ms by (simp add: resub_def scan.simps [of _ None "b @ marker_block tag js"] Let_def)
qed

section \<open>Properties of the markers\<close>

lemma run_tag [simp]: "plain_tag RUN_TAG" "plain_tag MARKER_TAG"
  by (simp_all add: plain_tag_def RUN_TAG_def MARKER_TAG_def py_space_def)

lemma rstrip_append: "\<exists>w. s = rstrip s @ w"
proof -
  have "rev s = takeWhile py_space (rev s) @ dropWhile py_space (rev s)" by simp
  then have "s = rstrip s @ rev (takeWhile py_space (rev s))"
    unfolding rstrip_def by (metis rev_append rev_rev_ident)
  then show ?thesis by blast
qed

lemma unopened_rstrip: "unopened s \<Longrightarrow> unopened (rstrip s)"
  unfolding unopened_def contains_iff using rstrip_append [of s] by (metis append.assoc)

lemma closed_rstrip: "closed_end (rstrip s)"
proof -
  have "rstrip s = [] \<or> \<not> py_space (last (rstrip s))"
    using hd_dropWhile [of py_space "rev s"] by (cases "dropWhile py_space (rev s) = []") (simp_all add: rstrip_def last_rev)
  then show ?thesis by (auto simp: closed_end_def py_space_def)
qed

lemma rstrip_rstrip [simp]: "rstrip (rstrip s) = rstrip s"
  by (simp add: rstrip_def)

lemma payloads_block:
  assumes "plain_tag tag" "unopened b" "\<forall>j \<in> set js. json_text j"
  shows "payloads tag (b @ marker_block tag js) = map escape_gt js"
  using scan_markers [OF assms, of None] by (auto simp: payloads_def finditer_def)

lemma strip_written:
  assumes "plain_tag tag" "unopened body" "\<forall>j \<in> set js. json_text j"
  shows "rstrip (resub (MARKER_STRIP_RE tag) '''' (rstrip body @ marker_block tag js)) = rstrip body"
  using strip_block [OF assms(1) unopened_rstrip [OF assms(2)] _ assms(3)] closed_rstrip by simp

lemma strip_unopened:
  assumes "plain_tag tag" "unopened body"
  shows "resub (MARKER_STRIP_RE tag) '''' body = body"
  using strip_block [OF assms, of "[]"] by simp

lemma with_run_receipt_block:
  "unopened body \<Longrightarrow> with_run_receipt dump body r = rstrip body @ marker_block RUN_TAG [dump r]"
  by (simp add: with_run_receipt_def encode_run_marker_def strip_unopened)

lemma with_markers_block:
  assumes "unopened body"
  shows "with_markers dump body ss = rstrip body @ marker_block MARKER_TAG (map dump ss)"
proof -
  have "fold (\<lambda>s out. out @ blank_line @ encode_marker dump s) ss b = b @ marker_block MARKER_TAG (map dump ss)" for b
    by (induction ss arbitrary: b) (simp_all add: encode_marker_def)
  then show ?thesis using assms by (simp add: with_markers_def strip_markers_def strip_unopened)
qed

lemma receipt_payload:
  assumes "unopened body" "carried_by dump validate (\<lambda>r. r) r"
  shows "extract_run_receipts validate (with_run_receipt dump body r) = [r]"
proof -
  have j: "\<forall>j \<in> set [dump r]. json_text j" using assms(2) by (simp add: carried_by_def)
  have "payloads RUN_TAG (with_run_receipt dump body r) = [escape_gt (dump r)]"
    unfolding with_run_receipt_block [OF assms(1)]
    using payloads_block [OF run_tag(1) unopened_rstrip [OF assms(1)] j] by simp
  then show ?thesis
    using assms(2) by (simp add: extract_run_receipts_def carried_by_def List.map_filter_def)
qed

text \<open>A codec for the witnesses: it carries receipts that say nothing beyond their label.\<close>

definition label_dump :: "run_receipt \<Rightarrow> string" where
  "label_dump r = ''{'' @ rp_label r @ ''}''"

definition label_validate :: "string \<Rightarrow> run_receipt option" where
  "label_validate s = (if s = [] then None else Some (default_receipt (butlast (tl s))))"

definition id_dump :: "review_signal \<Rightarrow> string" where
  "id_dump s = ''{'' @ rs_id s @ ''}''"

definition id_validate :: "string \<Rightarrow> review_signal option" where
  "id_validate s = (if s = [] then None else Some (default_signal (butlast (tl s))))"

text \<open>C37: a comment carries exactly one receipt, the newest. Whatever prose a header holds, as long
  as it opens no HTML comment of its own, writing a receipt into it and reading it back gives that
  receipt and nothing else, and writing over a comment that already carries one gives the comment
  that was never written before.\<close>

theorem receipt_marker_roundtrip:
  assumes "unopened body" "carried_by dump validate (\<lambda>r. r) r" "json_text (dump r0)"
  shows "extract_run_receipts validate (with_run_receipt dump body r) = [r]
    \<and> with_run_receipt dump (with_run_receipt dump body r0) r = with_run_receipt dump body r"
proof
  show "extract_run_receipts validate (with_run_receipt dump body r) = [r]"
    by (rule receipt_payload [OF assms(1,2)])
  have "rstrip (resub (MARKER_STRIP_RE RUN_TAG) '''' (with_run_receipt dump body r0)) = rstrip body"
    unfolding with_run_receipt_block [OF assms(1)]
    by (rule strip_written [OF run_tag(1) assms(1)]) (simp add: assms(3))
  then show "with_run_receipt dump (with_run_receipt dump body r0) r = with_run_receipt dump body r"
    unfolding with_run_receipt_block [OF assms(1), of dump r]
    by (simp add: with_run_receipt_def encode_run_marker_def)
qed

theorem receipt_marker_roundtrip_witness:
  "extract_run_receipts label_validate (with_run_receipt label_dump ''**fuko A/B** '' (default_receipt ''zai/glm''))
     = [default_receipt ''zai/glm'']"
proof -
  have "unopened ''**fuko A/B** ''" by (simp add: unopened_def startswith_def)
  moreover have "carried_by label_dump label_validate (\<lambda>r. r) (default_receipt ''zai/glm'')"
    "json_text (label_dump (default_receipt ''kimi/k3''))"
    by (simp_all add: carried_by_def json_text_def label_dump_def label_validate_def default_receipt_def escape_gt_def)
  ultimately show ?thesis using receipt_marker_roundtrip by blast
qed

text \<open>Signals survive the comment they travel in, and re-marking is idempotent. Reading a marked
  comment gives the machine fields of exactly the signals written, in order, and marking it again
  replaces the whole set.\<close>

theorem signal_markers_roundtrip:
  assumes "unopened body" "\<forall>s \<in> set ss. carried_by dump validate machine_fields s"
    and "\<forall>s \<in> set old. json_text (dump s)"
  shows "extract_markers validate (with_markers dump body ss) = map machine_fields ss
    \<and> with_markers dump (with_markers dump body old) ss = with_markers dump body ss"
proof
  have j: "\<forall>j \<in> set (map dump ss). json_text j" using assms(2) by (simp add: carried_by_def)
  have "payloads MARKER_TAG (with_markers dump body ss) = map escape_gt (map dump ss)"
    unfolding with_markers_block [OF assms(1)]
    by (rule payloads_block [OF run_tag(2) unopened_rstrip [OF assms(1)] j])
  moreover have "List.map_filter validate (map escape_gt (map dump ss)) = map machine_fields ss"
    using assms(2) by (induction ss) (simp_all add: carried_by_def List.map_filter_def)
  ultimately show "extract_markers validate (with_markers dump body ss) = map machine_fields ss"
    by (simp add: extract_markers_def)
  have "rstrip (strip_markers (with_markers dump body old)) = rstrip body"
    unfolding with_markers_block [OF assms(1)] strip_markers_def
    by (rule strip_written [OF run_tag(2) assms(1)]) (simp add: assms(3))
  then show "with_markers dump (with_markers dump body old) ss = with_markers dump body ss"
    using strip_unopened [OF run_tag(2) assms(1)] by (simp add: with_markers_def strip_markers_def)
qed

theorem signal_markers_roundtrip_witness:
  "extract_markers id_validate (with_markers id_dump ''The guide.'' [default_signal ''fk_1'', default_signal ''fk_2''])
     = [default_signal ''fk_1'', default_signal ''fk_2'']"
proof -
  have "unopened ''The guide.''" by (simp add: unopened_def startswith_def)
  moreover have "\<forall>s \<in> set [default_signal ''fk_1'', default_signal ''fk_2'']. carried_by id_dump id_validate machine_fields s"
    by (simp add: carried_by_def json_text_def id_dump_def id_validate_def default_signal_def escape_gt_def machine_fields_def)
  ultimately show ?thesis
    using signal_markers_roundtrip [of "''The guide.''" _ id_dump id_validate "[]"]
    by (simp add: machine_fields_def default_signal_def)
qed

end
