(* ===== verification/Runner.thy ===== *)
theory Runner
  imports Runner_Plan Signals
begin

text \<open>
  The effectful half of \<open>sidecar/runner.py\<close>: one review over a pool with failover (\<open>_run_pool\<close>),
  one A/B branch with its header and receipt, the comparison over all reviewers and the run
  itself. What the runner does to the outside is a trace of events; the outside is a world of
  any type, threaded through the calls. A review driver and the GitHub API are parameters:
  records of the functions the runner calls, each free to answer from the world as it likes.
  A result of type \<open>string + 'a\<close> is an exception's text or a value. Console lines, wall-clock
  durations and the interleaving of concurrent branches inside one branch are not modelled.
\<close>

section \<open>What the runner talks to\<close>

type_synonym env = "(string, string) dict"

record run_costs =
  co_input_tokens :: "int option"
  co_output_tokens :: "int option"
  co_cache_read_tokens :: "int option"
  co_cache_write_tokens :: "int option"
  co_cost_usd :: "rat option"
  co_turns :: "int option"

record invoke_result =
  ir_returncode :: int
  ir_detail :: string
  ir_throttled :: bool
  ir_provider :: "string option"
  ir_channels :: "(string, string) dict"
  ir_endpoint :: "string option"
  ir_costs :: run_costs
  ir_transcript :: "(string, string) dict option"

definition no_costs :: run_costs where
  "no_costs =
     \<lparr>co_input_tokens = None, co_output_tokens = None, co_cache_read_tokens = None,
      co_cache_write_tokens = None, co_cost_usd = None, co_turns = None\<rparr>"

definition plain_result :: "int \<Rightarrow> string \<Rightarrow> invoke_result" where
  "plain_result rc detail =
     \<lparr>ir_returncode = rc, ir_detail = detail, ir_throttled = False, ir_provider = None,
      ir_channels = [], ir_endpoint = None, ir_costs = no_costs, ir_transcript = None\<rparr>"

text \<open>\<open>normalize_output\<close> may be missing, fail, or return its signals (here their number).\<close>

datatype normalized = NotImplemented | NormalizeFailed string | Signals nat

text \<open>
  A driver instance (\<open>ReviewBackend\<close>): ingress, run, egress, the endpoint it resolves itself when
  it has \<open>configured_endpoint\<close>, and the two limits a branch may override on the instance.
\<close>

record 'w driver =
  dr_build_env :: "provider_preset \<Rightarrow> review_model \<Rightarrow> string \<Rightarrow> string list \<Rightarrow> string + env"
  dr_invoke :: "env \<Rightarrow> string list \<Rightarrow> 'w \<Rightarrow> (string + invoke_result) \<times> 'w"
  dr_normalize ::
    "string \<Rightarrow> string option \<Rightarrow> string option \<Rightarrow> string option \<Rightarrow> role \<Rightarrow> 'w \<Rightarrow> normalized \<times> 'w"
  dr_endpoint :: "(provider_preset \<Rightarrow> review_model \<Rightarrow> string option) option"
  dr_tool_timeout :: int
  dr_max_turns :: "int option"

record run_row =
  rr_provider :: string
  rr_name :: string
  rr_slot :: "string option"
  rr_attempts :: nat
  rr_outcome :: string
  rr_findings :: "nat option"
  rr_detail :: string
  rr_backend :: string
  rr_endpoint :: string
  rr_costs :: run_costs
  rr_transcript :: "(string, string) dict option"

text \<open>Posting a header: the poster's actor id, the comment id and login as far as the reply has them;
  a failure the code handles; or any other exception.\<close>

datatype post_reply =
    Posted "string option" "nat option" "string option"
  | PostFailed
  | PostRaised string

record 'w github =
  gh_post :: "string \<Rightarrow> run_receipt \<Rightarrow> 'w \<Rightarrow> post_reply \<times> 'w"
  gh_patch :: "string \<Rightarrow> nat \<Rightarrow> run_receipt \<Rightarrow> 'w \<Rightarrow> 'w"

datatype event =
    Invoked review_model env "string list"
  | TranscriptIndexed "(string, string) dict"
  | BreakerTripped string int string
  | RunRecorded run_row
  | HeaderPosted run_receipt
  | HeaderFinalized nat run_receipt
  | HealthObserved

record 'w run =
  rn_world :: 'w
  rn_trace :: "event list"

definition emit :: "event \<Rightarrow> 'w run \<Rightarrow> 'w run" where
  "emit e st = st\<lparr>rn_trace := rn_trace st @ [e]\<rparr>"

section \<open>One pool\<close>

definition ENV_SEAT :: string where "ENV_SEAT = ''FUKO_SEAT''"

definition FRESH_COMMENT_ENV :: env where
  "FRESH_COMMENT_ENV =
     [(''PR_REVIEWER__PERSISTENT_COMMENT'', ''false''),
      (''PR_CODE_SUGGESTIONS__PERSISTENT_COMMENT'', ''false'')]"

definition github_env :: "string \<Rightarrow> env" where
  "github_env token =
     (if token = '''' then []
      else [(''GITHUB__USER_TOKEN'', token), (''GITHUB__DEPLOYMENT_TYPE'', ''user'')])"

text \<open>The keyword arguments of one \<open>_run_pool\<close> call.\<close>

record pool_args =
  pa_review :: review_config
  pa_knowledge :: string
  pa_gh_env :: env
  pa_tools :: "string list"
  pa_fresh_comment :: bool
  pa_compare :: bool
  pa_token :: "string option"
  pa_actor :: "string option"
  pa_slot :: "string option"
  pa_seat :: "string option"
  pa_role :: role

text \<open>\<open>seat or slot\<close>: an empty seat counts as none.\<close>

definition lane_of :: "pool_args \<Rightarrow> string option" where
  "lane_of a =
     (case pa_seat a of
        Some s \<Rightarrow> if s \<noteq> '''' then Some s
                  else (case pa_slot a of Some t \<Rightarrow> if t = '''' then None else Some t | None \<Rightarrow> None)
      | None \<Rightarrow> (case pa_slot a of Some t \<Rightarrow> if t = '''' then None else Some t | None \<Rightarrow> None))"

definition attempt_env :: "pool_args \<Rightarrow> env \<Rightarrow> env" where
  "attempt_env a built =
     (let env = dict_update built (pa_gh_env a);
          env = (case lane_of a of None \<Rightarrow> env | Some lane \<Rightarrow> dict_set ENV_SEAT lane env)
      in if pa_fresh_comment a then dict_update env FRESH_COMMENT_ENV else env)"

definition base_endpoint :: "provider_preset \<Rightarrow> review_model \<Rightarrow> string option" where
  "base_endpoint p m =
     (case mc_base_url m of
        Some u \<Rightarrow> if u \<noteq> '''' then Some u else pp_base_url p
      | None \<Rightarrow> pp_base_url p)"

text \<open>One pass of the loop up to its result, tagged with the entry that answered.\<close>

definition attempt ::
  "'w driver \<Rightarrow> pool_args \<Rightarrow> review_model option \<Rightarrow> review_model \<Rightarrow> 'w run
     \<Rightarrow> (string + invoke_result) \<times> 'w run" where
  "attempt drv a branch m st =
     (case get_preset (mc_provider m) of
        Inl e \<Rightarrow> (Inl e, st)
      | Inr p \<Rightarrow>
          let entry = with_branch_ledger m branch
          in (case dr_build_env drv p entry (pa_knowledge a) (pa_tools a) of
                Inl e \<Rightarrow> (Inl e, st)
              | Inr built \<Rightarrow>
                  let env = attempt_env a built;
                      st1 = emit (Invoked entry env (pa_tools a)) st;
                      (reply, w) = dr_invoke drv env (pa_tools a) (rn_world st1);
                      st2 = st1\<lparr>rn_world := w\<rparr>
                  in (case reply of
                        Inl e \<Rightarrow> (Inl e, st2)
                      | Inr r \<Rightarrow>
                          (Inr (r\<lparr>ir_provider := Some (entry_label m),
                                  ir_endpoint := (case dr_endpoint drv of
                                     None \<Rightarrow> base_endpoint p m
                                   | Some f \<Rightarrow> f p m)\<rparr>), st2))))"

text \<open>\<open>_normalize\<close>: it never raises; a failure or a missing implementation is no count.\<close>

definition normalize ::
  "'w driver \<Rightarrow> pool_args \<Rightarrow> review_model \<Rightarrow> 'w run \<Rightarrow> nat option \<times> 'w run" where
  "normalize drv a m st =
     (case get_preset (mc_provider m) of
        Inl _ \<Rightarrow> (None, st)
      | Inr p \<Rightarrow>
          let (reply, w) = dr_normalize drv (pp_litellm_prefix p @ mc_name m)
                (if pa_compare a then Some (entry_label m) else None) (pa_token a) (pa_actor a)
                (pa_role a) (rn_world st)
          in (case reply of Signals n \<Rightarrow> Some n | _ \<Rightarrow> None, st\<lparr>rn_world := w\<rparr>))"

definition costs_of :: "invoke_result \<Rightarrow> run_costs" where
  "costs_of r = ir_costs r"

definition transcript_of :: "invoke_result \<Rightarrow> (string, string) dict option" where
  "transcript_of r = (case ir_transcript r of Some [] \<Rightarrow> None | t \<Rightarrow> t)"

definition record_transcript :: "(string, string) dict option \<Rightarrow> 'w run \<Rightarrow> 'w run" where
  "record_transcript t st =
     (case t of None \<Rightarrow> st | Some d \<Rightarrow> if d = [] then st else emit (TranscriptIndexed d) st)"

definition row_of ::
  "pool_args \<Rightarrow> review_model \<Rightarrow> nat \<Rightarrow> string \<Rightarrow> nat option \<Rightarrow> invoke_result \<Rightarrow> run_row" where
  "row_of a m attempts outcome findings r =
     \<lparr>rr_provider = mc_provider m, rr_name = mc_name m, rr_slot = pa_slot a,
      rr_attempts = attempts, rr_outcome = outcome, rr_findings = findings,
      rr_detail = ir_detail r, rr_backend = backend_of (pa_review a) m,
      rr_endpoint = (case ir_endpoint r of None \<Rightarrow> '''' | Some e \<Rightarrow> e),
      rr_costs = costs_of r, rr_transcript = transcript_of r\<rparr>"

text \<open>An attempt that was not throttled ends the loop: normalized when green, and recorded.\<close>

definition finish ::
  "'w driver \<Rightarrow> pool_args \<Rightarrow> nat \<Rightarrow> review_model \<Rightarrow> invoke_result \<Rightarrow> 'w run \<Rightarrow> 'w run" where
  "finish drv a index m r st =
     (let (findings, st1) = (if ir_returncode r = 0 then normalize drv a m st else (None, st))
      in emit (RunRecorded (row_of a m (index + 1)
                 (if ir_returncode r = 0 then ''ok'' else ''failed'') findings r)) st1)"

text \<open>A throttled attempt is abandoned: its transcript indexed, its provider's breaker tripped.\<close>

definition abandon :: "pool_args \<Rightarrow> review_model \<Rightarrow> invoke_result \<Rightarrow> 'w run \<Rightarrow> 'w run" where
  "abandon a m r st =
     emit (BreakerTripped (mc_provider m) (rc_cooldown_seconds (pa_review a)) (ir_detail r))
       (record_transcript (transcript_of r) st)"

datatype loop_end = Returned invoke_result | Exhausted invoke_result | Raised string

fun pool_loop ::
  "'w driver \<Rightarrow> pool_args \<Rightarrow> review_model option \<Rightarrow> nat \<Rightarrow> review_model list \<Rightarrow> invoke_result
     \<Rightarrow> 'w run \<Rightarrow> loop_end \<times> 'w run" where
  "pool_loop drv a branch index [] result st = (Exhausted result, st)"
| "pool_loop drv a branch index (m # ms) result st =
     (case attempt drv a branch m st of
        (Inl e, st1) \<Rightarrow> (Raised e, st1)
      | (Inr r, st1) \<Rightarrow>
          if \<not> ir_throttled r then (Returned r, finish drv a index m r st1)
          else pool_loop drv a branch (Suc index) ms r (abandon a m r st1))"

definition run_pool ::
  "'w driver \<Rightarrow> pool_args \<Rightarrow> review_model list \<Rightarrow> string set \<Rightarrow> int option \<Rightarrow> 'w run
     \<Rightarrow> (string + invoke_result) \<times> 'w run" where
  "run_pool drv a pool cooled required st =
     (let branch = ledger_owner pool;
          ordered = order_pool pool cooled required
      in case pool_loop drv a branch 0 ordered (plain_result 1 ''no providers configured'') st of
           (Returned r, st1) \<Rightarrow> (Inr r, st1)
         | (Raised e, st1) \<Rightarrow> (Inl e, st1)
         | (Exhausted r, st1) \<Rightarrow>
             (Inr r, if ordered = [] then st1
                     else emit (RunRecorded (row_of a (last ordered) (length ordered)
                                  ''throttled_out'' None r)) st1))"

section \<open>One branch\<close>

text \<open>The receipt of a header as posted, and as rewritten with the branch's outcome.\<close>

definition opening_receipt :: "review_config \<Rightarrow> review_model \<Rightarrow> string \<Rightarrow> run_receipt" where
  "opening_receipt rc entry head_sha =
     (default_receipt (entry_label entry))
       \<lparr>rp_role := role_name (rm_role entry), rp_slot := slot_of entry, rp_promoted := rm_promoted entry,
        rp_head_sha := head_sha, rp_state := ''in_progress'', rp_driver := backend_of rc entry\<rparr>"

definition closing_receipt ::
  "review_config \<Rightarrow> review_model \<Rightarrow> string \<Rightarrow> string option \<Rightarrow> invoke_result \<Rightarrow> run_receipt" where
  "closing_receipt rc entry head_sha app r =
     (opening_receipt rc entry head_sha)
       \<lparr>rp_state := (if ir_returncode r = 0 then ''done'' else ''failed''),
        rp_answered := (case ir_provider r of Some p \<Rightarrow> if p = '''' then entry_label entry else p
                        | None \<Rightarrow> entry_label entry),
        rp_endpoint := (case ir_endpoint r of None \<Rightarrow> '''' | Some e \<Rightarrow> e),
        rp_app := (case app of None \<Rightarrow> '''' | Some l \<Rightarrow> l),
        rp_channels := ir_channels r, rp_detail := ir_detail r\<rparr>"

text \<open>\<open>_post_branch_header\<close>: nothing without a token; a handled failure is no identity at all.\<close>

definition post_branch_header ::
  "'w github \<Rightarrow> review_config \<Rightarrow> review_model \<Rightarrow> string \<Rightarrow> string \<Rightarrow> 'w run
     \<Rightarrow> (string + string option \<times> nat option \<times> string option) \<times> 'w run" where
  "post_branch_header gh rc entry head_sha token st =
     (if token = '''' then (Inr (None, None, None), st)
      else let receipt = opening_receipt rc entry head_sha;
               (reply, w) = gh_post gh token receipt (rn_world st);
               st1 = st\<lparr>rn_world := w\<rparr>
           in (case reply of
                 PostRaised e \<Rightarrow> (Inl e, st1)
               | PostFailed \<Rightarrow> (Inr (None, None, None), st1)
               | Posted actor comment login \<Rightarrow>
                   (Inr (actor, comment, (case login of Some [] \<Rightarrow> None | l \<Rightarrow> l)),
                    emit (HeaderPosted receipt) st1)))"

definition finalize_branch_header ::
  "'w github \<Rightarrow> review_config \<Rightarrow> review_model \<Rightarrow> string \<Rightarrow> string \<Rightarrow> nat option \<Rightarrow> string option
     \<Rightarrow> invoke_result \<Rightarrow> 'w run \<Rightarrow> 'w run" where
  "finalize_branch_header gh rc entry head_sha token comment app r st =
     (case comment of
        None \<Rightarrow> st
      | Some c \<Rightarrow>
          if token = '''' then st
          else let receipt = closing_receipt rc entry head_sha app r
               in emit (HeaderFinalized c receipt)
                    (st\<lparr>rn_world := gh_patch gh token c receipt (rn_world st)\<rparr>))"

definition errored :: "review_model \<Rightarrow> string \<Rightarrow> invoke_result" where
  "errored entry e = plain_result 1 (entry_label entry @ '' errored: '' @ e)"

text \<open>What every branch of one comparison shares.\<close>

record branch_args =
  ba_review :: review_config
  ba_knowledge :: string
  ba_backups :: "review_model list"
  ba_cooled :: "string set"
  ba_required :: "int option"
  ba_tools :: "string list"
  ba_head_sha :: string

text \<open>\<open>_run_compare_branch\<close>: the guarded part may raise at either call; the header is rewritten on
  every exit.\<close>

definition run_compare_branch ::
  "'w github \<Rightarrow> branch_args \<Rightarrow> 'w driver \<Rightarrow> review_model \<Rightarrow> env \<Rightarrow> string \<Rightarrow> string \<Rightarrow> 'w run
     \<Rightarrow> (string \<times> invoke_result) \<times> 'w run" where
  "run_compare_branch gh b drv entry gh_env token seat st =
     (let rc = ba_review b;
          (posted, st1) = post_branch_header gh rc entry (ba_head_sha b) token st
      in case posted of
           Inl e \<Rightarrow>
             (let r = errored entry e
              in ((entry_label entry, r),
                  finalize_branch_header gh rc entry (ba_head_sha b) token None None r st1))
         | Inr (actor, comment, app) \<Rightarrow>
             (let a = \<lparr>pa_review = rc, pa_knowledge = ba_knowledge b, pa_gh_env = gh_env,
                       pa_tools = ba_tools b, pa_fresh_comment = True, pa_compare = True,
                       pa_token = Some token, pa_actor = actor, pa_slot = slot_of entry,
                       pa_seat = Some seat, pa_role = rm_role entry\<rparr>;
                  (out, st2) = run_pool drv a (entry # compatible_backups entry (ba_backups b) rc)
                                 (ba_cooled b) (ba_required b) st1;
                  r = (case out of Inl e \<Rightarrow> errored entry e | Inr r \<Rightarrow> r)
              in ((entry_label entry, r),
                  finalize_branch_header gh rc entry (ba_head_sha b) token comment app r st2)))"

section \<open>The comparison\<close>

text \<open>\<open>_backend_for\<close>: a fresh instance of the entry's driver under the entry's own limits.\<close>

definition backend_for ::
  "(string \<Rightarrow> review_config \<Rightarrow> 'w driver) \<Rightarrow> review_config \<Rightarrow> review_model \<Rightarrow> 'w driver" where
  "backend_for drivers rc entry =
     (let d = drivers (backend_of rc entry) rc;
          d = (case mc_tool_timeout entry of
                 Some t \<Rightarrow> if t \<noteq> 0 then d\<lparr>dr_tool_timeout := t\<rparr> else d | None \<Rightarrow> d)
      in (case mc_max_turns entry of
            Some n \<Rightarrow> if n \<noteq> 0 then d\<lparr>dr_max_turns := Some n\<rparr> else d | None \<Rightarrow> d))"

text \<open>The branches one after another: entry, token, GitHub environment, seat.\<close>

fun run_branches ::
  "'w github \<Rightarrow> (string \<Rightarrow> review_config \<Rightarrow> 'w driver) \<Rightarrow> branch_args
     \<Rightarrow> (review_model \<times> string \<times> env \<times> string) list \<Rightarrow> 'w run
     \<Rightarrow> (string \<times> invoke_result) list \<times> 'w run" where
  "run_branches gh drivers b [] st = ([], st)"
| "run_branches gh drivers b ((entry, token, gh_env, seat) # rest) st =
     (let (o1, st1) = run_compare_branch gh b (backend_for drivers (ba_review b) entry)
                        entry gh_env token seat st;
          (os, st2) = run_branches gh drivers b rest st1
      in (o1 # os, st2))"

text \<open>
  Concurrent when every branch has an identity of its own, else sequential under the shared
  token. The thread pool's branches are run here in submission order, one serialization of them.
\<close>

definition review_compare ::
  "'w github \<Rightarrow> (string \<Rightarrow> review_config \<Rightarrow> 'w driver) \<Rightarrow> process_env \<Rightarrow> (string \<Rightarrow> string option)
     \<Rightarrow> branch_args \<Rightarrow> review_model list \<Rightarrow> string \<Rightarrow> 'w run \<Rightarrow> invoke_result \<times> 'w run" where
  "review_compare gh drivers env actor_of b reviewers token st =
     (let tools = filter (\<lambda>t. t \<noteq> ''describe'') (rc_tools (ba_review b));
          b = b\<lparr>ba_tools := tools\<rparr>
      in if tools = []
         then (plain_result 1 (''A/B compare disables '' @ [CHR 0x27] @ ''describe'' @ [CHR 0x27]
                 @ ''; configure at least one non-describe tool''), st)
         else let seats = branch_seats reviewers;
                  plan = (case resolve_branch_identities env actor_of reviewers of
                            Some tokens \<Rightarrow>
                              map (\<lambda>(e, t, s). (e, t, github_env t, s)) (zip reviewers (zip tokens seats))
                          | None \<Rightarrow>
                              map (\<lambda>(e, s). (e, token, github_env token, s)) (zip reviewers seats));
                  (outcomes, st1) = run_branches gh drivers b plan st;
                  detail = join ''; '' (map (\<lambda>(l, r). l @ '': '' @
                             (if ir_detail r = '''' then ''ok'' else ir_detail r)) outcomes);
                  rc = (if \<exists>(l, r) \<in> set outcomes. ir_returncode r = 0 then 0 else 1)
              in (plain_result rc detail, st1))"

section \<open>The run\<close>

text \<open>What \<open>review\<close> has gathered before it decides: the pieces that come over the network.\<close>

record run_inputs =
  ri_token :: string
  ri_env :: process_env
  ri_actor_of :: "string \<Rightarrow> string option"
  ri_knowledge :: string
  ri_cooled :: "string set"
  ri_required :: "int option"
  ri_degraded :: bool
  ri_head :: string

text \<open>Who reviews this round, who stays a backup, and what was declined.\<close>

definition plan_round ::
  "run_inputs \<Rightarrow> review_config \<Rightarrow> review_model list \<times> review_model list \<times> skip_reason list" where
  "plan_round ri rc =
     (let (actives, backups, trials) = partition_roles (resolve_models rc)
      in if backups \<noteq> [] \<and> ri_degraded ri
         then let existing = actives @ trials;
                  concurrent = (length existing > 1
                    \<and> resolve_branch_identities (ri_env ri) (ri_actor_of ri) existing \<noteq> None);
                  (promote, skipped) = plan_escalation (ri_env ri) existing backups rc concurrent;
                  labels = set (map entry_label promote)
              in (actives @ promote @ trials, filter (\<lambda>m. entry_label m \<notin> labels) backups, skipped)
         else (actives @ trials, backups, []))"

definition run_review ::
  "'w github \<Rightarrow> (string \<Rightarrow> review_config \<Rightarrow> 'w driver) \<Rightarrow> string list \<Rightarrow> config_file \<Rightarrow> run_inputs
     \<Rightarrow> 'w run \<Rightarrow> (config_error list + string + invoke_result) \<times> 'w run" where
  "run_review gh drivers known cfg_file ri st =
     (case load_config known cfg_file of
        Inl es \<Rightarrow> (Inl es, st)
      | Inr cfg \<Rightarrow>
          let rc = fc_review cfg;
              (reviewers, backups, skipped) = plan_round ri rc;
              (out, st1) =
                (if length reviewers > 1
                 then (let b = \<lparr>ba_review = rc, ba_knowledge = ri_knowledge ri, ba_backups = backups,
                                ba_cooled = ri_cooled ri, ba_required = ri_required ri,
                                ba_tools = [], ba_head_sha = ri_head ri\<rparr>;
                           (r, s) = review_compare gh drivers (ri_env ri) (ri_actor_of ri) b reviewers
                                      (ri_token ri) st
                       in (Inr r, s))
                 else (let drv = (case reviewers of [] \<Rightarrow> drivers (rc_backend rc) rc
                                  | e # _ \<Rightarrow> backend_for drivers rc e);
                           a = \<lparr>pa_review = rc, pa_knowledge = ri_knowledge ri,
                                pa_gh_env = github_env (ri_token ri), pa_tools = rc_tools rc,
                                pa_fresh_comment = False, pa_compare = False, pa_token = None,
                                pa_actor = None,
                                pa_slot = (case reviewers of [] \<Rightarrow> None | e # _ \<Rightarrow> slot_of e),
                                pa_seat = None,
                                pa_role = (case reviewers of [] \<Rightarrow> Active | e # _ \<Rightarrow> rm_role e)\<rparr>
                       in run_pool drv a
                            (reviewers @ (case reviewers of [] \<Rightarrow> backups
                                          | e # _ \<Rightarrow> compatible_backups e backups rc))
                            (ri_cooled ri) (ri_required ri) st))
          in (case out of
                Inl e \<Rightarrow> (Inr (Inl e), st1)
              | Inr r \<Rightarrow> (Inr (Inr r), emit HealthObserved st1)))"

section \<open>What a pool does\<close>

text \<open>The parts of a trace: entries invoked with their environment, breakers tripped, rows recorded.\<close>

fun invocations :: "event list \<Rightarrow> (review_model \<times> env) list" where
  "invocations [] = []"
| "invocations (Invoked m e ts # evs) = (m, e) # invocations evs"
| "invocations (_ # evs) = invocations evs"

fun trips :: "event list \<Rightarrow> string list" where
  "trips [] = []"
| "trips (BreakerTripped p _ _ # evs) = p # trips evs"
| "trips (_ # evs) = trips evs"

fun run_rows :: "event list \<Rightarrow> run_row list" where
  "run_rows [] = []"
| "run_rows (RunRecorded r # evs) = r # run_rows evs"
| "run_rows (_ # evs) = run_rows evs"

fun finalized :: "event list \<Rightarrow> (nat \<times> run_receipt) list" where
  "finalized [] = []"
| "finalized (HeaderFinalized c r # evs) = (c, r) # finalized evs"
| "finalized (_ # evs) = finalized evs"

lemma trace_append [simp]:
  "invocations (xs @ ys) = invocations xs @ invocations ys"
  "trips (xs @ ys) = trips xs @ trips ys"
  "run_rows (xs @ ys) = run_rows xs @ run_rows ys"
  "finalized (xs @ ys) = finalized xs @ finalized ys"
proof -
  show "invocations (xs @ ys) = invocations xs @ invocations ys"
    by (induction xs rule: invocations.induct) simp_all
  show "trips (xs @ ys) = trips xs @ trips ys"
    by (induction xs rule: trips.induct) simp_all
  show "run_rows (xs @ ys) = run_rows xs @ run_rows ys"
    by (induction xs rule: run_rows.induct) simp_all
  show "finalized (xs @ ys) = finalized xs @ finalized ys"
    by (induction xs rule: finalized.induct) simp_all
qed

definition ledger_flags :: "('a) model_config_scheme \<Rightarrow> bool \<times> bool" where
  "ledger_flags m = (mc_findings_ledger m, mc_coverage_ledger m)"

text \<open>What one attempt invoked: the entry under the branch's ledger flags, in the branch's lane.\<close>

definition lane_ok :: "pool_args \<Rightarrow> review_model option \<Rightarrow> review_model \<times> env \<Rightarrow> bool" where
  "lane_ok a branch i \<longleftrightarrow>
     (\<forall>b. branch = Some b \<longrightarrow> ledger_flags (fst i) = ledger_flags b)
     \<and> (\<forall>lane. lane_of a = Some lane \<longrightarrow> map_of (snd i) ENV_SEAT = Some lane)"

lemma map_of_dict_update:
  "k \<notin> fst ` set e \<Longrightarrow> map_of (dict_update d e) k = map_of d k"
  unfolding dict_update_def
  by (induction e arbitrary: d) (auto simp: map_of_dict_set)

lemma lane_in_env: "lane_of a = Some lane \<Longrightarrow> map_of (attempt_env a built) ENV_SEAT = Some lane"
  by (simp add: attempt_env_def Let_def map_of_dict_update map_of_dict_set FRESH_COMMENT_ENV_def ENV_SEAT_def)

lemma ledger_carried [simp]:
  "ledger_flags (with_branch_ledger m (Some b)) = ledger_flags b"
  "entry_label (with_branch_ledger m branch) = entry_label m"
  by (simp_all add: ledger_flags_def with_branch_ledger_def entry_label_def split: option.splits)

lemma attempt_trace:
  assumes "attempt drv a branch m st = (out, st1)"
  obtains evs where "rn_trace st1 = rn_trace st @ evs" "trips evs = []" "run_rows evs = []" "finalized evs = []"
    "\<forall>i \<in> set (invocations evs). lane_ok a branch i"
    "map (\<lambda>i. entry_label (fst i)) (invocations evs) = [] \<and> (\<exists>e. out = Inl e)
     \<or> map (\<lambda>i. entry_label (fst i)) (invocations evs) = [entry_label m]"
    "\<And>r. out = Inr r \<Longrightarrow> invocations evs \<noteq> [] \<and> ir_provider r = Some (entry_label m)"
proof (cases "get_preset (mc_provider m)")
  case (Inl e)
  with assms that [of "[]"] show ?thesis by (auto simp: attempt_def)
next
  case (Inr p)
  let ?entry = "with_branch_ledger m branch"
  show ?thesis
  proof (cases "dr_build_env drv p ?entry (pa_knowledge a) (pa_tools a)")
    case (Inl e)
    with Inr assms that [of "[]"] show ?thesis by (auto simp: attempt_def)
  next
    case built: (Inr built)
    let ?ev = "Invoked ?entry (attempt_env a built) (pa_tools a)"
    have "rn_trace st1 = rn_trace st @ [?ev]"
      and "\<And>r. out = Inr r \<Longrightarrow> ir_provider r = Some (entry_label m)"
      using assms Inr built by (auto simp: attempt_def Let_def emit_def split: prod.splits sum.splits)
    moreover have "lane_ok a branch (?entry, attempt_env a built)"
      by (auto simp: lane_ok_def lane_in_env)
    ultimately show ?thesis using that [of "[?ev]"] by simp
  qed
qed

lemma finish_trace:
  "\<exists>row. rn_trace (finish drv a index m r st) = rn_trace st @ [RunRecorded row]
     \<and> rr_attempts row = index + 1 \<and> rr_provider row = mc_provider m \<and> rr_name row = mc_name m
     \<and> rr_outcome row = (if ir_returncode r = 0 then ''ok'' else ''failed'')"
  by (auto simp: finish_def normalize_def Let_def emit_def row_of_def split: prod.splits sum.splits)

lemma abandon_trace:
  "\<exists>evs. rn_trace (abandon a m r st) = rn_trace st @ evs \<and> trips evs = [mc_provider m]
     \<and> run_rows evs = [] \<and> invocations evs = [] \<and> finalized evs = []"
  by (auto simp: abandon_def record_transcript_def emit_def split: option.splits)

text \<open>The loop: \<open>k\<close> attempts were made, on the first \<open>k\<close> entries, and each but the last throttled.\<close>

definition loop_spec ::
  "pool_args \<Rightarrow> review_model option \<Rightarrow> nat \<Rightarrow> review_model list \<Rightarrow> invoke_result \<Rightarrow> loop_end
     \<Rightarrow> event list \<Rightarrow> bool" where
  "loop_spec a branch index ms result e evs \<longleftrightarrow>
     (\<forall>i \<in> set (invocations evs). lane_ok a branch i) \<and> finalized evs = [] \<and>
     (case e of
        Returned r \<Rightarrow> \<not> ir_throttled r \<and> (\<exists>k. 0 < k \<and> k \<le> length ms
          \<and> ir_provider r = Some (entry_label (ms ! (k - 1)))
          \<and> map (\<lambda>i. entry_label (fst i)) (invocations evs) = map entry_label (take k ms)
          \<and> trips evs = map mc_provider (take (k - 1) ms)
          \<and> (\<exists>row. run_rows evs = [row] \<and> rr_attempts row = index + k
               \<and> rr_provider row = mc_provider (ms ! (k - 1)) \<and> rr_name row = mc_name (ms ! (k - 1))
               \<and> rr_outcome row = (if ir_returncode r = 0 then ''ok'' else ''failed'')))
      | Exhausted r \<Rightarrow> run_rows evs = [] \<and> trips evs = map mc_provider ms
          \<and> map (\<lambda>i. entry_label (fst i)) (invocations evs) = map entry_label ms
          \<and> (if ms = [] then r = result
             else ir_throttled r \<and> ir_provider r = Some (entry_label (last ms)))
      | Raised _ \<Rightarrow> run_rows evs = [])"

lemma pool_loop_spec:
  "pool_loop drv a branch index ms result st = (e, st') \<Longrightarrow>
     \<exists>evs. rn_trace st' = rn_trace st @ evs \<and> loop_spec a branch index ms result e evs"
proof (induction ms arbitrary: index result st)
  case Nil
  then show ?case by (auto simp: loop_spec_def)
next
  case (Cons m ms)
  obtain out st1 where at: "attempt drv a branch m st = (out, st1)" by fastforce
  from at show ?case
  proof (rule attempt_trace)
    fix evs
    assume t: "rn_trace st1 = rn_trace st @ evs" "trips evs = []" "run_rows evs = []" "finalized evs = []"
      "\<forall>i \<in> set (invocations evs). lane_ok a branch i"
      "map (\<lambda>i. entry_label (fst i)) (invocations evs) = [] \<and> (\<exists>e. out = Inl e)
       \<or> map (\<lambda>i. entry_label (fst i)) (invocations evs) = [entry_label m]"
      "\<And>r. out = Inr r \<Longrightarrow> invocations evs \<noteq> [] \<and> ir_provider r = Some (entry_label m)"
    show ?thesis
    proof (cases out)
      case (Inl x)
      with Cons.prems at t show ?thesis by (auto simp: loop_spec_def)
    next
      case (Inr r)
      with t have inv: "map (\<lambda>i. entry_label (fst i)) (invocations evs) = [entry_label m]"
        "ir_provider r = Some (entry_label m)" by auto
      show ?thesis
      proof (cases "ir_throttled r")
        case False
        with Cons.prems at Inr have e: "e = Returned r" "st' = finish drv a index m r st1" by auto
        from finish_trace obtain row where row: "rn_trace st' = rn_trace st1 @ [RunRecorded row]"
          "rr_attempts row = index + 1" "rr_provider row = mc_provider m" "rr_name row = mc_name m"
          "rr_outcome row = (if ir_returncode r = 0 then ''ok'' else ''failed'')"
          unfolding e(2) by blast
        with False t inv e(1) show ?thesis
          unfolding loop_spec_def
          by (intro exI [of _ "evs @ [RunRecorded row]"] conjI) (auto intro!: exI [of _ "1::nat"])
      next
        case True
        let ?st = "abandon a m r st1"
        from Cons.prems at Inr True have "pool_loop drv a branch (Suc index) ms r ?st = (e, st')" by simp
        from Cons.IH [OF this] obtain evs2 where e2: "rn_trace st' = rn_trace ?st @ evs2"
          "loop_spec a branch (Suc index) ms r e evs2" by blast
        from abandon_trace obtain evs1 where e1: "rn_trace ?st = rn_trace st1 @ evs1"
          "trips evs1 = [mc_provider m]" "run_rows evs1 = []" "invocations evs1 = []" "finalized evs1 = []" by blast
        have "loop_spec a branch index (m # ms) result e (evs @ evs1 @ evs2)"
        proof (cases e)
          case (Returned x)
          with e2(2) obtain k row where k: "\<not> ir_throttled x" "0 < k" "k \<le> length ms"
            "ir_provider x = Some (entry_label (ms ! (k - 1)))"
            "map (\<lambda>i. entry_label (fst i)) (invocations evs2) = map entry_label (take k ms)"
            "trips evs2 = map mc_provider (take (k - 1) ms)"
            "run_rows evs2 = [row]" "rr_attempts row = Suc index + k"
            "rr_provider row = mc_provider (ms ! (k - 1))" "rr_name row = mc_name (ms ! (k - 1))"
            "rr_outcome row = (if ir_returncode x = 0 then ''ok'' else ''failed'')"
            "\<forall>i \<in> set (invocations evs2). lane_ok a branch i" "finalized evs2 = []"
            unfolding loop_spec_def by auto
          with t e1 inv Returned show ?thesis
            unfolding loop_spec_def by (cases k) (auto intro!: exI [of _ "Suc k"] split: nat.splits)
        next
          case (Exhausted x)
          with e2(2) t e1 inv True show ?thesis unfolding loop_spec_def by auto
        next
          case (Raised x)
          with e2(2) t e1 inv show ?thesis unfolding loop_spec_def by auto
        qed
        with e2(1) e1(1) t(1) show ?thesis by (intro exI [of _ "evs @ evs1 @ evs2"]) simp
      qed
    qed
  qed
qed

lemma run_pool_spec:
  assumes "run_pool drv a pool cooled required st = (out, st')"
  obtains e evs rows where
    "rn_trace st' = rn_trace st @ evs @ map RunRecorded rows"
    "loop_spec a (ledger_owner pool) 0 (order_pool pool cooled required)
       (plain_result 1 ''no providers configured'') e evs"
    "\<And>r. e = Returned r \<Longrightarrow> out = Inr r \<and> rows = []"
    "\<And>x. e = Raised x \<Longrightarrow> out = Inl x \<and> rows = []"
    "\<And>r. e = Exhausted r \<Longrightarrow> out = Inr r \<and> rows = (if order_pool pool cooled required = [] then []
       else [row_of a (last (order_pool pool cooled required))
               (length (order_pool pool cooled required)) ''throttled_out'' None r])"
proof -
  obtain e st1 where l: "pool_loop drv a (ledger_owner pool) 0 (order_pool pool cooled required)
      (plain_result 1 ''no providers configured'') st = (e, st1)" by fastforce
  from pool_loop_spec [OF l] obtain evs where evs: "rn_trace st1 = rn_trace st @ evs"
    "loop_spec a (ledger_owner pool) 0 (order_pool pool cooled required)
       (plain_result 1 ''no providers configured'') e evs" by blast
  let ?ordered = "order_pool pool cooled required"
  let ?last = "\<lambda>r. if ?ordered = [] then [] else [row_of a (last ?ordered) (length ?ordered) ''throttled_out'' None r]"
  show ?thesis
  proof (cases e)
    case (Returned r)
    then have "out = Inr r" "st' = st1" using assms l by (simp_all add: run_pool_def Let_def)
    with evs Returned show ?thesis by (intro that [of evs "[]" e]) simp_all
  next
    case (Raised x)
    then have "out = Inl x" "st' = st1" using assms l by (simp_all add: run_pool_def Let_def)
    with evs Raised show ?thesis by (intro that [of evs "[]" e]) simp_all
  next
    case (Exhausted r)
    then have "out = Inr r" "rn_trace st' = rn_trace st1 @ map RunRecorded (?last r)"
      using assms l by (auto simp: run_pool_def Let_def emit_def)
    with evs Exhausted show ?thesis by (intro that [of evs "?last r" e]) simp_all
  qed
qed

lemma no_rows_trace [simp]:
  "invocations (map RunRecorded rows) = []" "trips (map RunRecorded rows) = []"
  "run_rows (map RunRecorded rows) = rows" "finalized (map RunRecorded rows) = []"
  by (induction rows) simp_all

section \<open>A sample run\<close>

text \<open>A driver that throttles once and then reviews, and an API that accepts every header.\<close>

definition sample_driver :: "nat driver" where
  "sample_driver =
     \<lparr>dr_build_env = (\<lambda>p m k ts. Inr [(''MODEL'', mc_name m)]),
      dr_invoke = (\<lambda>env ts w. (Inr ((plain_result (if w = 0 then 1 else 0) '''')
                                     \<lparr>ir_throttled := (w = 0)\<rparr>), Suc w)),
      dr_normalize = (\<lambda>_ _ _ _ _ w. (Signals 2, w)), dr_endpoint = None, dr_tool_timeout = 900,
      dr_max_turns = None\<rparr>"

definition sample_github :: "nat github" where
  "sample_github =
     \<lparr>gh_post = (\<lambda>t r w. (Posted (Some ''7'') (Some 9) (Some ''fuko-gray''), w)),
      gh_patch = (\<lambda>t c r w. w)\<rparr>"

definition sample_reviewers :: "review_model list" where
  "sample_reviewers =
     [sample_entry ''a'' (Some ''FUKO_GITHUB_TOKEN_GRAY'') Active, sample_entry ''c'' None Trial]"

definition sample_branch :: branch_args where
  "sample_branch =
     \<lparr>ba_review = default_review, ba_knowledge = '''', ba_backups = sample_backups, ba_cooled = {},
      ba_required = None, ba_tools = [''review''], ba_head_sha = ''abc''\<rparr>"

definition sample_args :: pool_args where
  "sample_args =
     \<lparr>pa_review = default_review, pa_knowledge = '''', pa_gh_env = github_env ''t'',
      pa_tools = [''review''], pa_fresh_comment = False, pa_compare = False, pa_token = None,
      pa_actor = None, pa_slot = Some ''gray'', pa_seat = None, pa_role = Active\<rparr>"

definition sample_start :: "nat run" where "sample_start = \<lparr>rn_world = 0, rn_trace = []\<rparr>"

definition sample_pool_run :: "(string + invoke_result) \<times> nat run" where
  "sample_pool_run = run_pool sample_driver sample_args (hd sample_reviewers # sample_backups) {} None sample_start"

definition sample_branch_run :: "(string \<times> invoke_result) \<times> nat run" where
  "sample_branch_run = run_compare_branch sample_github sample_branch sample_driver
     (hd sample_reviewers) (github_env ''t1'') ''t1'' ''gray'' sample_start"

definition sample_compare :: "invoke_result \<times> nat run" where
  "sample_compare = review_compare sample_github (\<lambda>_ _. sample_driver) sample_env Some sample_branch
     sample_reviewers ''t'' sample_start"

definition sample_inputs :: run_inputs where
  "sample_inputs =
     \<lparr>ri_token = ''t'', ri_env = sample_env, ri_actor_of = Some, ri_knowledge = '''', ri_cooled = {},
      ri_required = None, ri_degraded = True, ri_head = ''abc''\<rparr>"

definition sample_config :: review_config where
  "sample_config = default_review\<lparr>rc_models := sample_reviewers @ sample_backups\<rparr>"

definition sample_result :: invoke_result where
  "sample_result = (case fst sample_pool_run of Inr r \<Rightarrow> r | Inl e \<Rightarrow> plain_result 1 e)"

lemma sample_pool_run_eq:
  "run_pool sample_driver sample_args (hd sample_reviewers # sample_backups) {} None sample_start =
     (Inr sample_result, snd sample_pool_run)"
proof -
  have "\<not> isl (fst sample_pool_run)" by code_simp
  then show ?thesis
    unfolding sample_result_def sample_pool_run_def
    by (cases "run_pool sample_driver sample_args (hd sample_reviewers # sample_backups) {} None sample_start")
      (auto split: sum.splits)
qed

lemma sample_start_trace: "rn_trace sample_start = []"
  by (simp add: sample_start_def)

section \<open>Properties\<close>



text \<open>One lane per branch through failover. Whatever happens in a pool, every entry invoked ran
  under the ledger flags of the branch that owns the pool, and in an environment naming the
  branch's seat (or its slot, when it has no seat).\<close>

theorem pool_keeps_lane:
  assumes "run_pool drv a pool cooled required st = (out, st')"
  shows "\<exists>evs. rn_trace st' = rn_trace st @ evs \<and>
    (\<forall>(m, e) \<in> set (invocations evs).
       (\<forall>b. ledger_owner pool = Some b \<longrightarrow>
          mc_findings_ledger m = mc_findings_ledger b \<and> mc_coverage_ledger m = mc_coverage_ledger b)
       \<and> (\<forall>lane. lane_of a = Some lane \<longrightarrow> map_of e ENV_SEAT = Some lane))"
  using assms
proof (rule run_pool_spec)
  fix e evs rows
  assume s: "rn_trace st' = rn_trace st @ evs @ map RunRecorded rows"
    "loop_spec a (ledger_owner pool) 0 (order_pool pool cooled required)
       (plain_result 1 ''no providers configured'') e evs"
  from s(2) have "\<forall>i \<in> set (invocations evs). lane_ok a (ledger_owner pool) i"
    by (simp add: loop_spec_def)
  with s(1) show ?thesis
    by (intro exI [of _ "evs @ map RunRecorded rows"]) (auto simp: lane_ok_def ledger_flags_def)
qed

theorem pool_keeps_lane_witness:
  "list_all (\<lambda>(m, e). map_of e ENV_SEAT = Some ''gray'') (invocations (rn_trace (snd sample_pool_run)))"
proof -
  have "lane_of sample_args = Some ''gray''" by (simp add: lane_of_def sample_args_def)
  with pool_keeps_lane [OF sample_pool_run_eq] show ?thesis by (auto simp: sample_start_trace list_all_iff)
qed

lemma post_trace:
  "post_branch_header gh rc entry head token st = (posted, st1) \<Longrightarrow>
     \<exists>evs. rn_trace st1 = rn_trace st @ evs \<and> finalized evs = [] \<and> invocations evs = [] \<and> run_rows evs = []"
  by (auto simp: post_branch_header_def Let_def emit_def split: if_splits prod.splits post_reply.splits)

lemma run_pool_trace:
  assumes "run_pool drv a pool cooled required st = (out, st')"
  shows "\<exists>evs. rn_trace st' = rn_trace st @ evs \<and> finalized evs = []
    \<and> (\<forall>i \<in> set (invocations evs). lane_ok a (ledger_owner pool) i)"
  using assms
proof (rule run_pool_spec)
  fix e evs rows
  assume s: "rn_trace st' = rn_trace st @ evs @ map RunRecorded rows"
    "loop_spec a (ledger_owner pool) 0 (order_pool pool cooled required)
       (plain_result 1 ''no providers configured'') e evs"
  then show ?thesis
    by (intro exI [of _ "evs @ map RunRecorded rows"]) (simp add: loop_spec_def)
qed

lemma finalize_trace:
  "rn_trace (finalize_branch_header gh rc entry head token comment app r st) = rn_trace st @
     (case comment of None \<Rightarrow> [] | Some c \<Rightarrow> if token = '''' then []
        else [HeaderFinalized c (closing_receipt rc entry head app r)])"
  by (simp add: finalize_branch_header_def emit_def Let_def split: option.split)

text \<open>The comment a branch's header ended up in, as the reply to its post names it.\<close>

definition header_comment :: "post_reply \<Rightarrow> nat option" where
  "header_comment reply = (case reply of Posted _ c _ \<Rightarrow> c | _ \<Rightarrow> None)"

lemma branch_trace:
  assumes "run_compare_branch gh b drv entry gh_env token seat st = ((label, r), st')"
    and "fst (gh_post gh token (opening_receipt (ba_review b) entry (ba_head_sha b)) (rn_world st)) = reply"
  shows "label = entry_label entry \<and> (\<exists>evs app. rn_trace st' = rn_trace st @ evs
    \<and> (\<forall>i \<in> set (invocations evs). seat \<noteq> '''' \<longrightarrow> map_of (snd i) ENV_SEAT = Some seat)
    \<and> finalized evs = (case header_comment reply of
         None \<Rightarrow> []
       | Some c \<Rightarrow> if token = '''' then []
           else [(c, closing_receipt (ba_review b) entry (ba_head_sha b) app r)]))"
proof -
  let ?rc = "ba_review b"
  obtain posted st1 where p: "post_branch_header gh ?rc entry (ba_head_sha b) token st = (posted, st1)"
    by fastforce
  from post_trace [OF p] obtain evs1 where e1: "rn_trace st1 = rn_trace st @ evs1" "finalized evs1 = []"
    "invocations evs1 = []" by blast
  show ?thesis
  proof (cases posted)
    case (Inl e)
    with p assms(2) have "header_comment reply = None"
      by (auto simp: post_branch_header_def Let_def header_comment_def split: if_splits prod.splits post_reply.splits)
    with assms(1) p Inl e1 show ?thesis
      by (auto simp: run_compare_branch_def Let_def finalize_trace)
  next
    case (Inr x)
    obtain actor comment app where x: "x = (actor, comment, app)" by (cases x)
    let ?a = "\<lparr>pa_review = ?rc, pa_knowledge = ba_knowledge b, pa_gh_env = gh_env, pa_tools = ba_tools b,
       pa_fresh_comment = True, pa_compare = True, pa_token = Some token, pa_actor = actor,
       pa_slot = slot_of entry, pa_seat = Some seat, pa_role = rm_role entry\<rparr>"
    obtain out st2 where o: "run_pool drv ?a (entry # compatible_backups entry (ba_backups b) ?rc)
       (ba_cooled b) (ba_required b) st1 = (out, st2)" by fastforce
    from run_pool_trace [OF o] obtain evs2 where e2: "rn_trace st2 = rn_trace st1 @ evs2" "finalized evs2 = []"
      "\<forall>i \<in> set (invocations evs2). lane_ok ?a (ledger_owner (entry # compatible_backups entry (ba_backups b) ?rc)) i"
      by blast
    have lane: "seat \<noteq> '''' \<Longrightarrow> lane_of ?a = Some seat" by (simp add: lane_of_def)
    have c: "token \<noteq> '''' \<Longrightarrow> comment = header_comment reply"
      using p assms(2) Inr x
      by (auto simp: post_branch_header_def Let_def header_comment_def split: if_splits prod.splits post_reply.splits)
    have c0: "token = '''' \<Longrightarrow> comment = None"
      using p Inr x by (auto simp: post_branch_header_def split: if_splits)
    have res: "label = entry_label entry" "r = (case out of Inl e \<Rightarrow> errored entry e | Inr r \<Rightarrow> r)"
      "st' = finalize_branch_header gh ?rc entry (ba_head_sha b) token comment app r st2"
      using assms(1) p Inr x o by (auto simp: run_compare_branch_def Let_def)
    let ?f = "case comment of None \<Rightarrow> [] | Some c \<Rightarrow> if token = '''' then []
        else [HeaderFinalized c (closing_receipt ?rc entry (ba_head_sha b) app r)]"
    have "rn_trace st' = rn_trace st @ evs1 @ evs2 @ ?f"
      unfolding res(3) finalize_trace using e1 e2 by simp
    moreover have "finalized ?f = (case header_comment reply of None \<Rightarrow> []
       | Some c \<Rightarrow> if token = '''' then [] else [(c, closing_receipt ?rc entry (ba_head_sha b) app r)])"
      using c c0 by (cases "token = ''''") (auto split: option.splits)
    moreover have "invocations ?f = []" by (simp split: option.split)
    ultimately show ?thesis
      using res(1) e1 e2 lane
      by (intro conjI exI [of _ "evs1 @ evs2 @ ?f"] exI [of _ app]) (auto simp: lane_ok_def)
  qed
qed

text \<open>C34: a branch always answers for itself. Whatever its header post, its driver or its pool did,
  it returns a result under its own label, and when its header was posted the receipt in that
  comment is rewritten exactly once, to \<open>done\<close> exactly when the result is green, else \<open>failed\<close>.\<close>

theorem branch_settles_its_receipt:
  assumes "run_compare_branch gh b drv entry gh_env token seat st = ((label, r), st')"
    and "fst (gh_post gh token (opening_receipt (ba_review b) entry (ba_head_sha b)) (rn_world st))
           = Posted actor (Some c) login"
    and "token \<noteq> ''''"
  shows "label = entry_label entry \<and>
    (\<exists>evs receipt. rn_trace st' = rn_trace st @ evs \<and> finalized evs = [(c, receipt)]
       \<and> rp_state receipt = (if ir_returncode r = 0 then ''done'' else ''failed'')
       \<and> rp_label receipt = entry_label entry \<and> rp_role receipt = role_name (rm_role entry)
       \<and> rp_head_sha receipt = ba_head_sha b \<and> rp_detail receipt = ir_detail r)"
proof -
  from branch_trace [OF assms(1,2)] obtain evs app where "label = entry_label entry"
    "rn_trace st' = rn_trace st @ evs"
    "finalized evs = [(c, closing_receipt (ba_review b) entry (ba_head_sha b) app r)]"
    using assms(3) by (auto simp: header_comment_def)
  then show ?thesis
    by (intro conjI exI [of _ evs] exI [of _ "closing_receipt (ba_review b) entry (ba_head_sha b) app r"])
      (simp_all add: closing_receipt_def opening_receipt_def default_receipt_def)
qed

theorem branch_settles_its_receipt_witness:
  "\<exists>receipt. finalized (rn_trace (snd sample_branch_run)) = [(9, receipt)]
     \<and> rp_head_sha receipt = ''abc''"
proof -
  have "run_compare_branch sample_github sample_branch sample_driver (hd sample_reviewers)
      (github_env ''t1'') ''t1'' ''gray'' sample_start
    = ((fst (fst sample_branch_run), snd (fst sample_branch_run)), snd sample_branch_run)"
    by (simp add: sample_branch_run_def)
  moreover have "fst (gh_post sample_github t r w) = Posted (Some ''7'') (Some 9) (Some ''fuko-gray'')"
    for t r w by (simp add: sample_github_def)
  ultimately show ?thesis
    using branch_settles_its_receipt [of sample_github sample_branch sample_driver "hd sample_reviewers"
        "github_env ''t1''" "''t1''" "''gray''" sample_start]
    by (fastforce simp: sample_start_trace sample_branch_def)
qed

lemma run_branches_trace:
  "run_branches gh drivers b plan st = (outcomes, st') \<Longrightarrow>
     map fst outcomes = map (\<lambda>(e, t, g, s). entry_label e) plan \<and>
     (\<exists>evs. rn_trace st' = rn_trace st @ evs \<and>
        ((\<forall>(e, t, g, s) \<in> set plan. s \<noteq> '''') \<longrightarrow>
           (\<forall>i \<in> set (invocations evs). \<exists>(e, t, g, s) \<in> set plan. map_of (snd i) ENV_SEAT = Some s)))"
proof (induction plan arbitrary: st st' outcomes)
  case Nil
  then show ?case by simp
next
  case (Cons p plan)
  obtain e t g s where p: "p = (e, t, g, s)" by (cases p)
  obtain l r st1 where 1: "run_compare_branch gh b (backend_for drivers (ba_review b) e) e g t s st = ((l, r), st1)"
    by (metis prod.exhaust)
  obtain os st2 where 2: "run_branches gh drivers b plan st1 = (os, st2)" by fastforce
  from Cons.prems p 1 2 have res: "outcomes = (l, r) # os" "st' = st2" by (simp_all add: Let_def)
  from branch_trace [OF 1 refl] obtain evs1 where e1: "l = entry_label e" "rn_trace st1 = rn_trace st @ evs1"
    "\<forall>i \<in> set (invocations evs1). s \<noteq> '''' \<longrightarrow> map_of (snd i) ENV_SEAT = Some s" by blast
  from Cons.IH [OF 2] obtain evs2 where e2: "map fst os = map (\<lambda>(e, t, g, s). entry_label e) plan"
    "rn_trace st2 = rn_trace st1 @ evs2"
    "(\<forall>(e, t, g, s) \<in> set plan. s \<noteq> '''') \<longrightarrow>
       (\<forall>i \<in> set (invocations evs2). \<exists>(e, t, g, s) \<in> set plan. map_of (snd i) ENV_SEAT = Some s)" by blast
  from e1 e2 res p show ?case
    by (intro conjI exI [of _ "evs1 @ evs2"]) auto
qed

lemma free_seat_nonempty: "seat \<noteq> '''' \<Longrightarrow> free_seat taken i seat \<noteq> ''''"
proof (induction taken i seat rule: free_seat.induct)
  case (1 taken index seat)
  then show ?case by (subst free_seat.simps) simp
qed

lemma slot_nonempty: "slot_of m = Some s \<Longrightarrow> s \<noteq> ''''"
  by (auto simp: slot_of_def Let_def split: if_splits)

lemma seats_loop_nonempty: "s \<in> set (seats_loop slots i taken es) \<Longrightarrow> s \<noteq> ''''"
proof (induction slots i taken es rule: seats_loop.induct)
  case (2 slots index taken entry rest)
  let ?seat = "case slot_of entry of Some slot \<Rightarrow> if count_list slots (Some slot) = 1 then slot else entry_label entry
      | None \<Rightarrow> entry_label entry"
  have "entry_label entry \<noteq> ''''" by (simp add: entry_label_def)
  then have "?seat \<noteq> ''''" using slot_nonempty [of entry] by (auto split: option.split)
  then have "free_seat taken index ?seat \<noteq> ''''" by (rule free_seat_nonempty)
  with 2 show ?case by (auto simp: Let_def)
qed simp

lemma zip3_seats:
  "length ts = length es \<Longrightarrow> length ss = length es \<Longrightarrow>
     map fst (zip es (zip ts ss)) = es \<and> (\<forall>(e, t, s) \<in> set (zip es (zip ts ss)). s \<in> set ss)"
  by (auto dest: set_zip_rightD)



text \<open>Planning a round loses nobody: every active and trial of the configuration reviews; every
  backup stays available or reviews under its label as a promoted active; and without a degraded
  external reviewer nothing is promoted.\<close>

theorem plan_round_keeps_everyone:
  assumes "plan_round ri rc = (reviewers, backups, skipped)"
  shows "(\<forall>m \<in> set (resolve_models rc). rm_role m \<noteq> Backup \<longrightarrow> m \<in> set reviewers)
    \<and> (\<forall>m \<in> set (resolve_models rc). rm_role m = Backup \<longrightarrow> m \<in> set backups
         \<or> (\<exists>p \<in> set reviewers. entry_label p = entry_label m \<and> rm_promoted p \<and> rm_role p = Active))
    \<and> (\<not> ri_degraded ri \<longrightarrow> reviewers = filter (\<lambda>m. rm_role m = Active) (resolve_models rc)
         @ filter (\<lambda>m. rm_role m = Trial) (resolve_models rc)
         \<and> backups = filter (\<lambda>m. rm_role m = Backup) (resolve_models rc))"
proof -
  let ?ms = "resolve_models rc"
  let ?a = "filter (\<lambda>m. rm_role m = Active) ?ms"
  let ?b = "filter (\<lambda>m. rm_role m = Backup) ?ms"
  let ?t = "filter (\<lambda>m. rm_role m = Trial) ?ms"
  have roles: "rm_role m \<noteq> Backup \<Longrightarrow> rm_role m = Active \<or> rm_role m = Trial" for m :: review_model
    by (cases "rm_role m") simp_all
  show ?thesis
  proof (cases "?b \<noteq> [] \<and> ri_degraded ri")
    case False
    with assms have "reviewers = ?a @ ?t" "backups = ?b"
      by (auto simp: plan_round_def partition_roles_def)
    with roles show ?thesis by auto
  next
    case True
    let ?conc = "length (?a @ ?t) > 1
      \<and> resolve_branch_identities (ri_env ri) (ri_actor_of ri) (?a @ ?t) \<noteq> None"
    obtain promote sk where p: "plan_escalation (ri_env ri) (?a @ ?t) ?b rc ?conc = (promote, sk)" by fastforce
    have "plan_ok (ri_env ri) rc ?conc (?a @ ?t) []" by (simp add: plan_ok_def)
    from escalation_loop_ok [OF this p [unfolded plan_escalation_def]]
    have pr: "\<forall>m \<in> set promote. rm_promoted m \<and> rm_role m = Active" by (simp add: plan_ok_def)
    have "plan_round ri rc =
        (?a @ promote @ ?t, filter (\<lambda>m. entry_label m \<notin> set (map entry_label promote)) ?b, sk)"
      unfolding plan_round_def partition_roles_def Let_def prod.case if_P [OF True] p ..
    with assms have "reviewers = ?a @ promote @ ?t"
      "backups = filter (\<lambda>m. entry_label m \<notin> set (map entry_label promote)) ?b" by simp_all
    with roles pr True show ?thesis by auto
  qed
qed

theorem plan_round_keeps_everyone_witness:
  "sample_entry ''c'' None Trial \<in> set (fst (plan_round sample_inputs sample_config))"
proof -
  obtain r b s where "plan_round sample_inputs sample_config = (r, b, s)" by (metis prod.exhaust)
  from plan_round_keeps_everyone [OF this] this show ?thesis
    by (simp add: sample_config_def resolve_models_def sample_reviewers_def sample_entry_def review_entry_def)
qed

end
