(* ===== verification/Status.thy ===== *)
theory Status
  imports Signals
begin

text \<open>
  \<open>sidecar/status.py\<close>: what each reviewer has done on the current HEAD, read from what it left on
  the pull request. A comment, a review and a check run are the fields of the GitHub API's JSON the
  code reads; a field that is absent or null is \<open>None\<close>. \<open>coderabbit_state\<close> and \<open>copilot_state\<close>
  infer a state from prose, markers and check runs; \<open>fuko_states\<close> reads the receipts fuko writes.
\<close>

section \<open>What GitHub answers\<close>

record gh_comment =
  gc_login :: "string option"
  gc_body :: "string option"

record gh_review =
  gv_login :: "string option"
  gv_body :: "string option"
  gv_commit :: "string option"
  gv_state :: "string option"

record gh_check =
  ck_name :: "string option"
  ck_slug :: "string option"
  ck_status :: "string option"
  ck_conclusion :: "string option"

text \<open>\<open>x or ""\<close>.\<close>

definition or_empty :: "string option \<Rightarrow> string" where
  "or_empty x = (case x of None \<Rightarrow> '''' | Some s \<Rightarrow> s)"

definition or_else :: "string \<Rightarrow> string \<Rightarrow> string" where
  "or_else x d = (if x = '''' then d else x)"

section \<open>Rows\<close>

record status_row =
  sr_backend :: string
  sr_state :: string
  sr_head_reviewed :: "string option"
  sr_detail :: string

record cr_row = status_row +
  cr_with_content :: bool

record fuko_row = status_row +
  fk_role :: string
  fk_valid :: bool
  fk_label :: string
  fk_model :: string
  fk_review_backend :: string
  fk_promoted :: bool
  fk_channels :: "(string, string) dict"

datatype reviewer_row = CodeRabbitRow cr_row | CopilotRow status_row | FukoRow fuko_row

fun row_state :: "reviewer_row \<Rightarrow> string" where
  "row_state (CodeRabbitRow r) = sr_state r"
| "row_state (CopilotRow r) = sr_state r"
| "row_state (FukoRow r) = sr_state r"

definition DEGRADED_STATES :: "string list" where
  "DEGRADED_STATES = [''rate_limited'', ''paused'', ''unavailable'', ''degraded'']"

definition cr_row_of :: "string \<Rightarrow> string option \<Rightarrow> string \<Rightarrow> bool \<Rightarrow> cr_row" where
  "cr_row_of state head detail content =
     \<lparr>sr_backend = ''coderabbit'', sr_state = state, sr_head_reviewed = head, sr_detail = detail,
      cr_with_content = content\<rparr>"

definition row_of_status :: "string \<Rightarrow> string \<Rightarrow> string option \<Rightarrow> string \<Rightarrow> status_row" where
  "row_of_status backend state head detail =
     \<lparr>sr_backend = backend, sr_state = state, sr_head_reviewed = head, sr_detail = detail\<rparr>"

text \<open>\<open>_sha_match\<close>: either sha may be abbreviated.\<close>

definition sha_match :: "string \<Rightarrow> string \<Rightarrow> bool" where
  "sha_match a b =
     (a \<noteq> '''' \<and> b \<noteq> '''' \<and>
      (let n = min (length a) (length b) in take n a = take n b))"

section \<open>The patterns\<close>

definition CR_LOGIN :: string where "CR_LOGIN = ''coderabbitai[bot]''"

definition COPILOT_LOGINS :: "string list" where
  "COPILOT_LOGINS = [''copilot'', ''copilot-pull-request-reviewer[bot]'']"

definition COPILOT_QUOTA :: rx where
  "COPILOT_QUOTA = alts [
     ILit ''wasn't able to review'',
     Cat (ILit ''quota '') (alts [ILit ''limit'', ILit ''exceeded'', ILit ''exhausted'', ILit ''reached'']),
     cats [ILit ''exceeded your '', Rep 0 (Some 30) False (Cls not_nl),
       alts [ILit ''quota'', Cat (ILit ''premium request'') (maybe (ILit ''s'')), ILit ''monthly limit'']],
     ILit ''monthly limit of premium requests'',
     cats [ILit ''out of '', maybe (ILit ''premium ''), alts [ILit ''credits'', ILit ''requests'']]]"

definition CR_IN_PROGRESS :: rx where
  "CR_IN_PROGRESS = alts [ILit ''review in progress'', ILit ''Currently processing new changes'']"

definition CR_RATE_LIMIT :: rx where
  "CR_RATE_LIMIT = alts [ILit ''auto-generated comment: rate limited by coderabbit.ai'',
     ILit ''Rate limit exceeded'', ILit ''Review limit reached'']"

definition CR_PAUSED :: rx where
  "CR_PAUSED = alts [ILit ''Reviews paused'', ILit ''review paused by coderabbit.ai'']"

definition CR_RATE_LIMIT_MARK :: rx where
  "CR_RATE_LIMIT_MARK = ILit ''auto-generated comment: rate limited by coderabbit.ai''"

definition CR_PAUSE_MARK :: rx where
  "CR_PAUSE_MARK = ILit ''review paused by coderabbit.ai''"

text \<open>The leading \<open>^[>\s*_]*\<close> of the completion markers.\<close>

definition quoting :: rx where
  "quoting = Cat Bol (star (Cls (\<lambda>c. py_space c \<or> c = CHR ''>'' \<or> c = CHR ''*'' \<or> c = CHR ''_'')))"

definition no_actionable :: rx where
  "no_actionable = Cat (ILit ''No actionable comments'') (maybe (ILit '' were generated''))"

definition CR_DONE_ZERO :: rx where
  "CR_DONE_ZERO = cats [quoting, no_actionable, Wb]"

definition CR_DONE_MARKER :: rx where
  "CR_DONE_MARKER = cats [quoting,
     Alt (cats [ILit ''Actionable comments posted:'', star space_rx, plus (Cls digit)]) no_actionable, Wb]"

definition hex :: "char \<Rightarrow> bool" where
  "hex c = (let d = lower_char c in digit d \<or> CHR ''a'' \<le> d \<and> d \<le> CHR ''f'')"

definition tick :: rx where "tick = maybe (Lit ''`'')"

definition CR_REVIEWING :: rx where
  "CR_REVIEWING = cats [ILit ''between'', plus space_rx, tick, Grp 1 (Rep 7 (Some 40) True (Cls hex)), tick,
     plus space_rx, ILit ''and'', plus space_rx, tick, Grp 2 (Rep 7 (Some 40) True (Cls hex)), tick]"

definition CR_CHECK_NAMES :: rx where "CR_CHECK_NAMES = ILit ''coderabbit''"

definition CR_SUMMARY :: rx where
  "CR_SUMMARY = ILit ''auto-generated comment: summarize by coderabbit.ai''"

definition CR_RECENT_REVIEW :: rx where
  "CR_RECENT_REVIEW = cats [ILit ''<!-- recent_review_start -->'', Grp 1 (lazy (Cls (\<lambda>c. True))),
     ILit ''<!-- recent_review_end -->'']"

definition FUKO_RECEIPT_AUTHORS :: rx where
  "FUKO_RECEIPT_AUTHORS = cats [Bos,
     Alt (cats [ILit ''fuko-'', plus (Cls (\<lambda>c. word_char c \<or> c = CHR ''.'' \<or> c = CHR ''-'')), ILit ''[bot]''])
       (ILit ''github-actions[bot]''), Eos]"

section \<open>CodeRabbit\<close>

definition coderabbit_check :: "gh_check list \<Rightarrow> gh_check option" where
  "coderabbit_check checks =
     List.find (\<lambda>c. found CR_CHECK_NAMES (or_empty (ck_name c)) \<or> found CR_CHECK_NAMES (or_empty (ck_slug c))) checks"

definition range_heads :: "string \<Rightarrow> string list" where
  "range_heads body = map (group 2) (finditer CR_REVIEWING body)"

definition cr_is_notice_body :: "string \<Rightarrow> bool" where
  "cr_is_notice_body body = (found CR_RATE_LIMIT_MARK body \<or> found CR_PAUSE_MARK body)"

definition names_head :: "string \<Rightarrow> string \<Rightarrow> bool" where
  "names_head head_sha body = (\<exists>h \<in> set (range_heads body). sha_match h head_sha)"

definition cr_marker_covers_head :: "string \<Rightarrow> string \<Rightarrow> bool" where
  "cr_marker_covers_head body head_sha =
     (case search CR_RECENT_REVIEW body of
        None \<Rightarrow> found CR_DONE_MARKER body \<and> \<not> cr_is_notice_body body
      | Some m \<Rightarrow> found CR_DONE_MARKER (group 1 m) \<and> names_head head_sha (group 1 m))"

definition cr_demotion :: "string \<Rightarrow> string option \<Rightarrow> bool \<Rightarrow> cr_row option" where
  "cr_demotion notice_blob head_reviewed with_content =
     (if with_content then None
      else if found CR_RATE_LIMIT_MARK notice_blob then
        Some (cr_row_of ''rate_limited'' head_reviewed
          (''CR signalled completion on HEAD but its live summary still carries a '' @
           ''limit notice and nothing on HEAD carries review content'') with_content)
      else if found CR_PAUSE_MARK notice_blob then
        Some (cr_row_of ''paused'' head_reviewed
          (''CR signalled completion on HEAD but its live summary still carries a '' @
           ''pause notice and nothing on HEAD carries review content'') with_content)
      else if found CR_IN_PROGRESS notice_blob then
        Some (cr_row_of ''in_progress'' head_reviewed
          (''CR signalled completion on HEAD but its live summary still reports an '' @
           ''active scan and nothing on HEAD carries review content'') with_content)
      else None)"

text \<open>What \<open>coderabbit_state\<close> derives from the artifacts before it decides.\<close>

record cr_view =
  cv_issue_bodies :: "string list"
  cv_reviews :: "gh_review list"
  cv_bodies :: "string list"
  cv_walk_heads :: "string list"
  cv_walk_on_head :: bool
  cv_walk_head :: "string option"
  cv_review_on_head :: bool
  cv_head_bodies :: "string list"
  cv_marker_on_head :: bool
  cv_body_on_head :: bool
  cv_notice_blob :: string

definition nl :: string where "nl = [CHR 0x0A]"

definition by_login :: "string list \<Rightarrow> string option \<Rightarrow> bool" where
  "by_login logins login = (lower (or_empty login) \<in> set logins)"

definition cr_view_of :: "string \<Rightarrow> gh_comment list \<Rightarrow> gh_review list \<Rightarrow> cr_view" where
  "cr_view_of head_sha issue_comments reviews =
     (let issue = map (or_empty \<circ> gc_body) (filter (\<lambda>c. by_login [CR_LOGIN] (gc_login c)) issue_comments);
          crs = filter (\<lambda>r. by_login [CR_LOGIN] (gv_login r)) reviews;
          bodies = issue @ map (or_empty \<circ> gv_body) crs;
          heads = concat (map range_heads bodies);
          on_head = filter (\<lambda>h. sha_match h head_sha) heads;
          review_on_head = (\<exists>r \<in> set crs. gv_commit r = Some head_sha);
          head_reviews = filter (\<lambda>r. gv_commit r = Some head_sha) crs;
          head_bodies = filter (names_head head_sha) bodies @ map (or_empty \<circ> gv_body) head_reviews
            @ (if review_on_head then filter (found CR_SUMMARY) issue else []);
          summary_blob = join nl (filter (found CR_SUMMARY) issue)
      in \<lparr>cv_issue_bodies = issue, cv_reviews = crs, cv_bodies = bodies, cv_walk_heads = heads,
          cv_walk_on_head = (on_head \<noteq> []),
          cv_walk_head = (if on_head \<noteq> [] then Some (hd on_head)
                          else if heads \<noteq> [] then Some (last heads) else None),
          cv_review_on_head = review_on_head, cv_head_bodies = head_bodies,
          cv_marker_on_head = (\<exists>b \<in> set head_bodies. cr_marker_covers_head b head_sha),
          cv_body_on_head = (\<exists>r \<in> set head_reviews.
             strip (or_empty (gv_body r)) \<noteq> '''' \<and> \<not> cr_is_notice_body (or_empty (gv_body r))),
          cv_notice_blob = or_else summary_blob (join nl issue)\<rparr>)"

definition cv_with_content :: "cr_view \<Rightarrow> bool" where
  "cv_with_content v = (cv_marker_on_head v \<or> cv_body_on_head v)"

definition coderabbit_state ::
  "string \<Rightarrow> gh_comment list \<Rightarrow> gh_review list \<Rightarrow> gh_check list \<Rightarrow> cr_row" where
  "coderabbit_state head_sha issue_comments reviews check_runs =
     (let v = cr_view_of head_sha issue_comments reviews;
          check = coderabbit_check check_runs;
          issue_blob = join nl (cv_issue_bodies v);
          with_content = cv_with_content v
      in if cv_bodies v = [] \<and> cv_reviews v = [] \<and> check = None
         then cr_row_of ''none'' None ''no CodeRabbit activity'' False
         else case check of
           Some c \<Rightarrow>
             (let status = lower (or_empty (ck_status c))
              in if status \<noteq> ''completed''
                 then cr_row_of ''in_progress'' (Some head_sha) (''check-run still '' @ or_else status ''pending'') with_content
                 else case cr_demotion (cv_notice_blob v) (Some head_sha) with_content of
                   Some row \<Rightarrow> row
                 | None \<Rightarrow> cr_row_of ''done'' (Some head_sha)
                     (if found CR_DONE_ZERO (join nl (cv_bodies v)) then ''no actionable comments''
                      else ''check-run completed ('' @ or_else (lower (or_empty (ck_conclusion c))) ''neutral'' @ '')'')
                     with_content)
         | None \<Rightarrow>
             if \<not> (cv_walk_on_head v \<or> cv_review_on_head v)
             then (if found CR_RATE_LIMIT issue_blob
                   then cr_row_of ''rate_limited'' (cv_walk_head v) ''rate-limit notice; HEAD not yet scanned'' with_content
                   else if found CR_PAUSED issue_blob
                   then cr_row_of ''paused'' (cv_walk_head v) ''reviews paused; HEAD not yet scanned'' with_content
                   else if found CR_IN_PROGRESS issue_blob
                   then cr_row_of ''in_progress'' (cv_walk_head v) ''review in progress'' with_content
                   else cr_row_of ''pending'' (cv_walk_head v) ''neither walkthrough nor review covers the HEAD'' with_content)
             else if \<not> cv_review_on_head v \<and> \<not> cv_marker_on_head v
             then (if found CR_RATE_LIMIT issue_blob
                   then cr_row_of ''rate_limited'' (Some head_sha) ''rate-limit notice on this PR and HEAD not yet completed'' with_content
                   else if found CR_PAUSED issue_blob
                   then cr_row_of ''paused'' (Some head_sha) ''reviews paused and HEAD not yet completed'' with_content
                   else if found CR_IN_PROGRESS issue_blob
                   then cr_row_of ''in_progress'' (Some head_sha) ''review in progress (CR named HEAD and reports an active scan)'' with_content
                   else cr_row_of ''pending'' (Some head_sha)
                     (''walkthrough range line covers HEAD but CR shows no completion marker, '' @
                      ''submitted review, or in-progress check-run yet'') with_content)
             else (let head_reviewed = (if cv_walk_on_head v then cv_walk_head v else Some head_sha)
                   in case cr_demotion (cv_notice_blob v) head_reviewed with_content of
                        Some row \<Rightarrow> row
                      | None \<Rightarrow> cr_row_of ''done'' head_reviewed
                          (if found CR_DONE_ZERO (join nl (cv_head_bodies v)) then ''no actionable comments''
                           else ''scanned HEAD (any findings are inline)'') with_content))"

section \<open>Copilot\<close>

definition show_option :: "string option \<Rightarrow> string" where
  "show_option x = (case x of None \<Rightarrow> ''None'' | Some s \<Rightarrow> s)"

definition copilot_state :: "string \<Rightarrow> gh_review list \<Rightarrow> gh_comment list \<Rightarrow> status_row" where
  "copilot_state head_sha reviews issue_comments =
     (let cps = filter (\<lambda>r. by_login COPILOT_LOGINS (gv_login r)) reviews;
          on_head = filter (\<lambda>r. gv_commit r = Some head_sha) cps;
          bodies = map (or_empty \<circ> gv_body) cps @
            map (or_empty \<circ> gc_body) (filter (\<lambda>c. by_login COPILOT_LOGINS (gc_login c)) issue_comments)
      in if on_head \<noteq> []
         then row_of_status ''copilot'' ''done'' (Some head_sha)
           (''review on HEAD ('' @ show_option (gv_state (last on_head)) @ '')'')
         else if \<exists>b \<in> set bodies. found COPILOT_QUOTA b
         then row_of_status ''copilot'' ''unavailable'' (if cps = [] then None else gv_commit (last cps))
           ''quota/unable-to-review notice on this PR and no review on HEAD''
         else if cps = [] then row_of_status ''copilot'' ''none'' None ''no Copilot review''
         else row_of_status ''copilot'' ''pending'' (gv_commit (last cps))
           ''latest Copilot review is on an older commit'')"

section \<open>fuko's own instances\<close>

definition receipt_is_valid :: "run_receipt \<Rightarrow> bool" where
  "receipt_is_valid r = (rp_state r = ''done'' \<and> rp_answered r \<noteq> '''' \<and> rp_answered r = rp_label r)"

definition receipt_author_allowed :: "string \<Rightarrow> string list option \<Rightarrow> bool" where
  "receipt_author_allowed login allowed =
     (if login = '''' then False
      else case allowed of
        Some logins \<Rightarrow> lower login \<in> set logins
      | None \<Rightarrow> found FUKO_RECEIPT_AUTHORS login)"

text \<open>\<open>allowed_authors\<close> and \<open>configured_labels\<close> as the function normalises them.\<close>

definition allowed_logins :: "string list option \<Rightarrow> string list option" where
  "allowed_logins = map_option (map (\<lambda>a. lower (strip a)))"

definition configured_set :: "string list option \<Rightarrow> string list option" where
  "configured_set labels =
     (case labels of None \<Rightarrow> None
      | Some ls \<Rightarrow> (let cs = map strip (filter (\<lambda>c. strip c \<noteq> '''') ls) in if cs = [] then None else Some cs))"

definition latest_receipts ::
  "(string \<Rightarrow> run_receipt option) \<Rightarrow> string list option \<Rightarrow> gh_comment list \<Rightarrow> (string, run_receipt) dict" where
  "latest_receipts validate allowed comments =
     fold (\<lambda>c latest.
         if receipt_author_allowed (strip (or_empty (gc_login c))) allowed
         then fold (\<lambda>r acc. dict_set (rp_label r) r acc) (extract_run_receipts validate (or_empty (gc_body c))) latest
         else latest)
       comments []"

definition dead_channels :: "run_receipt \<Rightarrow> string list" where
  "dead_channels r = sort (map (\<lambda>(name, value). name @ '' '' @ value) (filter (\<lambda>(name, value). value \<noteq> ''done'') (rp_channels r)))"

definition none_if_empty :: "string \<Rightarrow> string option" where
  "none_if_empty s = (if s = '''' then None else Some s)"

definition fuko_row_of :: "string \<Rightarrow> string list option \<Rightarrow> string \<Rightarrow> run_receipt \<Rightarrow> fuko_row" where
  "fuko_row_of head_sha configured label r =
     (let row = (\<lambda>state detail valid promoted.
            \<lparr>sr_backend = ''fuko:'' @ label, sr_state = state, sr_head_reviewed = none_if_empty (rp_head_sha r),
             sr_detail = detail, fk_role = rp_role r, fk_valid = valid, fk_label = label, fk_model = rp_answered r,
             fk_review_backend = rp_driver r, fk_promoted = promoted, fk_channels = rp_channels r\<rparr>);
          on_head = sha_match (rp_head_sha r) head_sha;
          dead = (if on_head \<and> rp_state r = ''done'' then dead_channels r else []);
          valid = (on_head \<and> receipt_is_valid r \<and> dead = [])
      in if (case configured of None \<Rightarrow> False | Some cs \<Rightarrow> label \<notin> set cs)
         then row ''superseded'' ''label is no longer configured (seat renamed or removed)'' False False
         else if \<not> on_head
         then row ''pending'' (''latest run covers '' @ or_else (take 7 (rp_head_sha r)) ''an unknown commit'' @ '', not HEAD'') valid (rp_promoted r)
         else if rp_state r = ''failed''
         then row ''unavailable'' (or_else (rp_detail r) ''every model in the branch pool was exhausted'') valid (rp_promoted r)
         else if rp_state r = ''done''
         then (if \<not> receipt_is_valid r
               then row ''degraded'' (''VOID: branch is labelled '' @ label @ '' but '' @ or_else (rp_answered r) ''an unrecorded model'' @ '' answered'') valid (rp_promoted r)
               else if dead \<noteq> []
               then row ''degraded'' (''reviewed HEAD, but reduced coverage: '' @ join '', '' dead) valid (rp_promoted r)
               else row ''done'' ''reviewed HEAD'' valid (rp_promoted r))
         else row ''in_progress'' ''started on HEAD, no outcome recorded yet'' valid (rp_promoted r))"

definition fuko_states ::
  "(string \<Rightarrow> run_receipt option) \<Rightarrow> string \<Rightarrow> gh_comment list \<Rightarrow> string list option \<Rightarrow> string list option \<Rightarrow> fuko_row list" where
  "fuko_states validate head_sha issue_comments allowed_authors configured_labels =
     sort_key sr_backend (map (\<lambda>(label, r). fuko_row_of head_sha (configured_set configured_labels) label r)
       (latest_receipts validate (allowed_logins allowed_authors) issue_comments))"

section \<open>All reviewers\<close>

definition reviewer_states ::
  "(string \<Rightarrow> run_receipt option) \<Rightarrow> string \<Rightarrow> gh_comment list \<Rightarrow> gh_review list \<Rightarrow> gh_check list \<Rightarrow> bool
     \<Rightarrow> string list option \<Rightarrow> string list option \<Rightarrow> reviewer_row list" where
  "reviewer_states validate head_sha issue_comments reviews check_runs include_fuko allowed_authors configured_labels =
     [CodeRabbitRow (coderabbit_state head_sha issue_comments reviews check_runs),
      CopilotRow (copilot_state head_sha reviews issue_comments)]
     @ (if include_fuko
        then map FukoRow (fuko_states validate head_sha issue_comments allowed_authors configured_labels) else [])"

definition escalation_needed :: "string list \<Rightarrow> bool" where
  "escalation_needed states = (\<exists>s \<in> set states. s \<in> set DEGRADED_STATES)"

section \<open>When a reviewer counts as done\<close>

text \<open>The two doors to a completed CodeRabbit round, and the notices that close them.\<close>

definition cr_completed :: "cr_view \<Rightarrow> gh_check option \<Rightarrow> bool" where
  "cr_completed v check =
     (case check of Some c \<Rightarrow> lower (or_empty (ck_status c)) = ''completed''
      | None \<Rightarrow> cv_review_on_head v \<or> cv_marker_on_head v)"

definition live_notice :: "string \<Rightarrow> bool" where
  "live_notice blob = (found CR_RATE_LIMIT_MARK blob \<or> found CR_PAUSE_MARK blob \<or> found CR_IN_PROGRESS blob)"

text \<open>Nothing contradicts the completion: there is content on HEAD, or no live notice.\<close>

definition uncontradicted :: "cr_view \<Rightarrow> bool" where
  "uncontradicted v = (live_notice (cv_notice_blob v) \<longrightarrow> cv_with_content v)"

lemma state_cr_row [simp]:
  "sr_state (cr_row_of s h d c) = s" "cr_with_content (cr_row_of s h d c) = c" "sr_head_reviewed (cr_row_of s h d c) = h"
  by (simp_all add: cr_row_of_def)

lemma demotion_none: "cr_demotion blob h c = None \<longleftrightarrow> c \<or> \<not> live_notice blob"
  by (simp add: cr_demotion_def live_notice_def)

lemma demotion_some: "cr_demotion blob h c = Some row \<Longrightarrow>
    sr_state row \<noteq> ''done'' \<and> sr_state row \<noteq> ''pending'' \<and> sr_state row \<noteq> ''none'' \<and> cr_with_content row = c"
  by (auto simp: cr_demotion_def split: if_splits)

lemma demoted_row:
  "sr_state (case cr_demotion blob h c of None \<Rightarrow> cr_row_of ''done'' k d c | Some row \<Rightarrow> row) = ''done''
     \<longleftrightarrow> c \<or> \<not> live_notice blob"
  "cr_with_content (case cr_demotion blob h c of None \<Rightarrow> cr_row_of ''done'' k d c | Some row \<Rightarrow> row) = c"
  using demotion_some [of blob h c] demotion_none [of blob h c]
  by (cases "cr_demotion blob h c"; simp)+

text \<open>What the derived fields say.\<close>

lemma view_marker: "cv_marker_on_head (cr_view_of head cs rs) \<longleftrightarrow>
    (\<exists>b \<in> set (cv_head_bodies (cr_view_of head cs rs)). cr_marker_covers_head b head)"
  unfolding cr_view_of_def Let_def by (simp only: cr_view.select_convs)

lemma view_review: "cv_review_on_head (cr_view_of head cs rs) \<longleftrightarrow>
    (\<exists>r \<in> set (cv_reviews (cr_view_of head cs rs)). gv_commit r = Some head)"
  by (simp add: cr_view_of_def Let_def)

lemma view_body: "cv_body_on_head (cr_view_of head cs rs) \<Longrightarrow> cv_review_on_head (cr_view_of head cs rs)"
  by (auto simp: cr_view_of_def Let_def)

lemma view_head_bodies: "\<not> cv_review_on_head (cr_view_of head cs rs) \<Longrightarrow>
    cv_head_bodies (cr_view_of head cs rs) = filter (names_head head) (cv_bodies (cr_view_of head cs rs))"
  by (auto simp: cr_view_of_def Let_def filter_empty_conv)

lemma view_walk: "cv_walk_on_head (cr_view_of head cs rs) \<longleftrightarrow>
    (\<exists>b \<in> set (cv_bodies (cr_view_of head cs rs)). names_head head b)"
  by (simp add: cr_view_of_def Let_def filter_empty_conv names_head_def)

lemma nothing_on_head:
  assumes "v = cr_view_of head cs rs" "cv_bodies v = []" "cv_reviews v = []"
  shows "\<not> cv_review_on_head v" "\<not> cv_marker_on_head v" "\<not> cv_body_on_head v"
  using assms view_review [of head cs rs] view_marker [of head cs rs] view_head_bodies [of head cs rs]
    view_body [of head cs rs] by auto

lemma marker_walks:
  assumes "v = cr_view_of head cs rs" "cv_marker_on_head v" "\<not> cv_review_on_head v"
  shows "cv_walk_on_head v"
  using assms view_marker [of head cs rs] view_head_bodies [of head cs rs] view_walk [of head cs rs] by auto

text \<open>C8: when CodeRabbit counts as done. The state is \<open>done\<close> exactly when a completion signal is on
  HEAD (its check run there completed; or, with no check run, a submitted review on HEAD or a
  marker that covers it) and either CodeRabbit left content on HEAD or its live comment carries no
  limit, pause or progress notice. The row says whether there was content, in every state.\<close>

theorem coderabbit_done_iff:
  "(sr_state (coderabbit_state head cs rs checks) = ''done'' \<longleftrightarrow>
     cr_completed (cr_view_of head cs rs) (coderabbit_check checks)
     \<and> uncontradicted (cr_view_of head cs rs))
   \<and> cr_with_content (coderabbit_state head cs rs checks) = cv_with_content (cr_view_of head cs rs)"
proof -
  define v where "v = cr_view_of head cs rs"
  note v = nothing_on_head [OF v_def]
  show ?thesis
  proof (cases "coderabbit_check checks")
    case None
    show ?thesis
    proof (cases "cv_review_on_head v \<or> cv_marker_on_head v")
      case True
      then have "\<not> (cv_bodies v = [] \<and> cv_reviews v = [])" using v by blast
      moreover have "cv_walk_on_head v \<or> cv_review_on_head v"
        using True marker_walks [OF v_def] by blast
      ultimately show ?thesis
        using True None
        unfolding coderabbit_state_def Let_def v_def [symmetric] cr_completed_def
        by (simp add: demoted_row uncontradicted_def) blast
    next
      case False
      then have "\<not> cv_body_on_head v" using view_body v_def by blast
      with False show ?thesis
        using None
        unfolding coderabbit_state_def Let_def v_def [symmetric] cr_completed_def
        by (cases "cv_walk_on_head v"; cases "cv_bodies v = [] \<and> cv_reviews v = []") (simp_all add: cv_with_content_def uncontradicted_def)
    qed
  next
    case (Some c)
    show ?thesis
      unfolding coderabbit_state_def Let_def v_def [symmetric] cr_completed_def Some option.case
      by (simp add: demoted_row uncontradicted_def) blast
  qed
qed

section \<open>Who can speak for a reviewer\<close>

definition trusted_comment :: "string list option \<Rightarrow> gh_comment \<Rightarrow> bool" where
  "trusted_comment allowed_authors c =
     (by_login [CR_LOGIN] (gc_login c) \<or> by_login COPILOT_LOGINS (gc_login c)
      \<or> receipt_author_allowed (strip (or_empty (gc_login c))) (allowed_logins allowed_authors))"

definition trusted_review :: "gh_review \<Rightarrow> bool" where
  "trusted_review r = (by_login [CR_LOGIN] (gv_login r) \<or> by_login COPILOT_LOGINS (gv_login r))"

lemma filter_trusted:
  "(\<And>x. P x \<Longrightarrow> Q x) \<Longrightarrow> filter P (filter Q xs) = filter P xs"
  by (induction xs) auto

lemma cr_view_trusted:
  "cr_view_of head (filter (trusted_comment allowed) cs) (filter trusted_review rs) = cr_view_of head cs rs"
proof -
  have "filter (\<lambda>c. by_login [CR_LOGIN] (gc_login c)) (filter (trusted_comment allowed) cs) =
      filter (\<lambda>c. by_login [CR_LOGIN] (gc_login c)) cs"
    by (rule filter_trusted) (simp add: trusted_comment_def)
  moreover have "filter (\<lambda>r. by_login [CR_LOGIN] (gv_login r)) (filter trusted_review rs) =
      filter (\<lambda>r. by_login [CR_LOGIN] (gv_login r)) rs"
    by (rule filter_trusted) (simp add: trusted_review_def)
  ultimately show ?thesis by (simp only: cr_view_of_def)
qed

lemma latest_trusted:
  "latest_receipts validate (allowed_logins allowed) (filter (trusted_comment allowed) cs) =
     latest_receipts validate (allowed_logins allowed) cs"
proof -
  have "fold (\<lambda>c latest. if receipt_author_allowed (strip (or_empty (gc_login c))) (allowed_logins allowed)
           then f c latest else latest) (filter (trusted_comment allowed) cs) d =
      fold (\<lambda>c latest. if receipt_author_allowed (strip (or_empty (gc_login c))) (allowed_logins allowed)
           then f c latest else latest) cs d" for f and d :: "(string, run_receipt) dict"
    by (induction cs arbitrary: d) (auto simp: trusted_comment_def)
  then show ?thesis by (simp add: latest_receipts_def)
qed

text \<open>Nobody else can move a reviewer's state. The rows are a function of what CodeRabbit,
  Copilot and the identities allowed to post receipts wrote: dropping every other comment and
  review changes no row.\<close>

theorem outsiders_change_nothing:
  "reviewer_states validate head cs rs checks include_fuko allowed labels =
     reviewer_states validate head (filter (trusted_comment allowed) cs) (filter trusted_review rs)
       checks include_fuko allowed labels"
proof -
  have "filter (\<lambda>r. by_login COPILOT_LOGINS (gv_login r)) (filter trusted_review rs) =
      filter (\<lambda>r. by_login COPILOT_LOGINS (gv_login r)) rs"
    by (rule filter_trusted) (simp add: trusted_review_def)
  moreover have "filter (\<lambda>c. by_login COPILOT_LOGINS (gc_login c)) (filter (trusted_comment allowed) cs) =
      filter (\<lambda>c. by_login COPILOT_LOGINS (gc_login c)) cs"
    by (rule filter_trusted) (simp add: trusted_comment_def)
  ultimately have "copilot_state head (filter trusted_review rs) (filter (trusted_comment allowed) cs) = copilot_state head rs cs"
    by (simp add: copilot_state_def)
  moreover have "coderabbit_state head (filter (trusted_comment allowed) cs) (filter trusted_review rs) checks =
      coderabbit_state head cs rs checks"
    by (simp only: coderabbit_state_def cr_view_trusted)
  ultimately show ?thesis by (simp add: reviewer_states_def fuko_states_def latest_trusted)
qed

section \<open>The newest receipt of every instance\<close>

text \<open>The receipts of a pull request, oldest first, and the newest of a label.\<close>

definition receipts_of ::
  "(string \<Rightarrow> run_receipt option) \<Rightarrow> string list option \<Rightarrow> gh_comment list \<Rightarrow> run_receipt list" where
  "receipts_of validate allowed cs =
     concat (map (\<lambda>c. extract_run_receipts validate (or_empty (gc_body c)))
       (filter (\<lambda>c. receipt_author_allowed (strip (or_empty (gc_login c))) allowed) cs))"

definition newest :: "string \<Rightarrow> run_receipt list \<Rightarrow> run_receipt option" where
  "newest l rs = List.find (\<lambda>r. rp_label r = l) (rev rs)"

lemma find_append: "List.find P (xs @ ys) = (case List.find P xs of None \<Rightarrow> List.find P ys | Some x \<Rightarrow> Some x)"
  by (induction xs) auto

lemma newest_snoc: "newest l (rs @ [r]) = (if rp_label r = l then Some r else newest l rs)"
  by (simp add: newest_def)

lemma latest_fold: "latest_receipts validate allowed cs = fold (\<lambda>r acc. dict_set (rp_label r) r acc) (receipts_of validate allowed cs) []"
proof -
  have "fold (\<lambda>c latest. if receipt_author_allowed (strip (or_empty (gc_login c))) allowed
           then fold (\<lambda>r acc. dict_set (rp_label r) r acc) (extract_run_receipts validate (or_empty (gc_body c))) latest
           else latest) cs d = fold (\<lambda>r acc. dict_set (rp_label r) r acc) (receipts_of validate allowed cs) d" for d
    by (induction cs arbitrary: d) (auto simp: receipts_of_def)
  then show ?thesis by (simp add: latest_receipts_def)
qed

lemma set_all_newest: "map_of (fold (\<lambda>r acc. dict_set (rp_label r) r acc) rs []) = (\<lambda>l. newest l rs)"
  by (induction rs rule: rev_induct) (auto simp: map_of_dict_set newest_snoc newest_def)

lemma set_all_distinct: "distinct (map fst (fold (\<lambda>r acc. dict_set (rp_label r) r acc) rs []))"
  by (induction rs rule: rev_induct) (auto simp: distinct_dict_set)

lemma newest_label: "newest l rs = Some r \<Longrightarrow> rp_label r = l \<and> r \<in> set rs"
  by (auto simp: newest_def find_Some_iff) (metis length_rev nth_mem set_rev)

lemma fuko_row_backend [simp]: "sr_backend (fuko_row_of head conf l r) = ''fuko:'' @ l" "fk_label (fuko_row_of head conf l r) = l"
  by (simp_all add: fuko_row_of_def Let_def)

lemma row_in_fuko_states:
  "row \<in> set (fuko_states validate head cs allowed labels) \<longleftrightarrow>
     (\<exists>l r. newest l (receipts_of validate (allowed_logins allowed) cs) = Some r
        \<and> row = fuko_row_of head (configured_set labels) l r)"
proof -
  let ?d = "latest_receipts validate (allowed_logins allowed) cs"
  have d: "distinct (map fst ?d)" "map_of ?d = (\<lambda>l. newest l (receipts_of validate (allowed_logins allowed) cs))"
    by (simp_all add: latest_fold set_all_newest set_all_distinct)
  have "(l, r) \<in> set ?d \<longleftrightarrow> newest l (receipts_of validate (allowed_logins allowed) cs) = Some r" for l r
    using map_of_eq_Some_iff [OF d(1), of l r] unfolding d(2) by simp
  then have "(\<exists>e \<in> set ?d. row = (case e of (l, r) \<Rightarrow> fuko_row_of head (configured_set labels) l r)) \<longleftrightarrow>
      (\<exists>l r. newest l (receipts_of validate (allowed_logins allowed) cs) = Some r
        \<and> row = fuko_row_of head (configured_set labels) l r)"
    unfolding Bex_def split_paired_Ex prod.case by simp
  then show ?thesis unfolding fuko_states_def set_sort set_map image_iff .
qed

lemma dead_channels_Nil: "dead_channels r = [] \<longleftrightarrow> list_all (\<lambda>c. snd c = ''done'') (rp_channels r)"
proof -
  have "sort xs = [] \<longleftrightarrow> xs = []" for xs :: "string list"
    using length_sort [of "\<lambda>x. x" xs] by (cases xs) auto
  then have "dead_channels r = [] \<longleftrightarrow> filter (\<lambda>(name, value). value \<noteq> ''done'') (rp_channels r) = []"
    unfolding dead_channels_def by simp
  then show ?thesis by (auto simp: filter_empty_conv list_all_iff)
qed

lemma distinct_map_sort: "distinct (map f (sort_key g xs)) = distinct (map f xs)"
  unfolding distinct_map [of f "sort_key g xs"] distinct_map [of f xs] by simp

lemma distinct_rows:
  "distinct (map sr_backend (sort_key sr_backend (map (\<lambda>(l, r). fuko_row_of head conf l r)
     (fold (\<lambda>r acc. dict_set (rp_label r) r acc) rs []))))"
proof -
  let ?d = "fold (\<lambda>r acc. dict_set (rp_label r) r acc) rs []"
  have "map sr_backend (map (\<lambda>(l, r). fuko_row_of head conf l r) ?d) = map ((@) ''fuko:'') (map fst ?d)"
    by (simp add: case_prod_beta comp_def)
  moreover have "distinct (map ((@) ''fuko:'') (map fst ?d))"
    unfolding distinct_map [of "(@) ''fuko:''"] using set_all_distinct by (auto simp: inj_on_def)
  ultimately have "distinct (map sr_backend (map (\<lambda>(l, r). fuko_row_of head conf l r) ?d))" by (simp only:)
  then show ?thesis by (simp only: distinct_map_sort)
qed

text \<open>What a consumer may count as coverage: a receipt on HEAD, settled as \<open>done\<close> by the model it is
  labelled with, with every channel done.\<close>

definition covers_head :: "string \<Rightarrow> run_receipt \<Rightarrow> bool" where
  "covers_head head r = (sha_match (rp_head_sha r) head \<and> rp_state r = ''done'' \<and> rp_answered r \<noteq> ''''
     \<and> rp_answered r = rp_label r \<and> list_all (\<lambda>c. snd c = ''done'') (rp_channels r))"

lemma fuko_row_done:
  assumes "rp_label r = l"
  shows "sr_state (fuko_row_of head conf l r) = ''done'' \<longleftrightarrow>
      (case conf of None \<Rightarrow> True | Some cs \<Rightarrow> l \<in> set cs) \<and> covers_head head r"
    and "fk_valid (fuko_row_of head conf l r) = (sr_state (fuko_row_of head conf l r) = ''done'')"
  using assms
  by (auto simp: fuko_row_of_def Let_def covers_head_def receipt_is_valid_def dead_channels_Nil split: option.split)

text \<open>C9: a fuko instance is \<open>done\<close> exactly when it covered HEAD. There is one row per label that
  posted a receipt under an allowed identity; the row is \<open>done\<close>, and says \<open>valid\<close>, exactly when the
  label is configured (or no configuration was given) and the newest receipt of that label is on
  HEAD, settled as \<open>done\<close> by the model it names, with every channel done.\<close>

theorem fuko_done_iff_covered:
  "distinct (map sr_backend (fuko_states validate head cs allowed labels))
   \<and> set (map fk_label (fuko_states validate head cs allowed labels)) =
       set (map rp_label (receipts_of validate (allowed_logins allowed) cs))
   \<and> {row \<in> set (fuko_states validate head cs allowed labels). sr_state row = ''done''} =
       {row \<in> set (fuko_states validate head cs allowed labels). fk_valid row}
   \<and> {fk_label row | row. row \<in> set (fuko_states validate head cs allowed labels) \<and> fk_valid row} =
       {l. (case configured_set labels of None \<Rightarrow> True | Some ls \<Rightarrow> l \<in> set ls)
         \<and> (case newest l (receipts_of validate (allowed_logins allowed) cs) of
              None \<Rightarrow> False | Some r \<Rightarrow> covers_head head r)}"
  (is "?distinct \<and> ?labels \<and> ?states \<and> ?covered")
proof (intro conjI)
  let ?rows = "fuko_states validate head cs allowed labels" and ?conf = "configured_set labels"
  let ?receipts = "receipts_of validate (allowed_logins allowed) cs"
  let ?d = "latest_receipts validate (allowed_logins allowed) cs"
  note row = row_in_fuko_states [of _ validate head cs allowed labels]
  have valid_done: "fk_valid row = (sr_state row = ''done'')" if "row \<in> set ?rows" for row
    using that fuko_row_done(2) newest_label unfolding row by blast
  show ?distinct unfolding fuko_states_def latest_fold by (rule distinct_rows)
  show ?labels
  proof
    show "set (map fk_label ?rows) \<subseteq> set (map rp_label ?receipts)"
      using newest_label [of _ ?receipts] by (fastforce simp: row)
    have "\<exists>r'. newest (rp_label r) ?receipts = Some r'" if "r \<in> set ?receipts" for r
      using that by (cases "newest (rp_label r) ?receipts") (auto simp: newest_def find_None_iff)
    then have "rp_label r \<in> set (map fk_label ?rows)" if "r \<in> set ?receipts" for r
      using that row fuko_row_backend(2) by (metis imageI set_map)
    then show "set (map rp_label ?receipts) \<subseteq> set (map fk_label ?rows)" by auto
  qed
  show ?states using valid_done by blast
  show ?covered
  proof (intro equalityI subsetI)
    fix l assume "l \<in> {fk_label row | row. row \<in> set ?rows \<and> fk_valid row}"
    then obtain r where "newest l ?receipts = Some r" "fk_valid (fuko_row_of head ?conf l r)" by (auto simp: row)
    with newest_label [OF this(1)] fuko_row_done [of r l head ?conf]
    show "l \<in> {l. (case ?conf of None \<Rightarrow> True | Some ls \<Rightarrow> l \<in> set ls)
        \<and> (case newest l ?receipts of None \<Rightarrow> False | Some r \<Rightarrow> covers_head head r)}" by simp
  next
    fix l assume l: "l \<in> {l. (case ?conf of None \<Rightarrow> True | Some ls \<Rightarrow> l \<in> set ls)
        \<and> (case newest l ?receipts of None \<Rightarrow> False | Some r \<Rightarrow> covers_head head r)}"
    then obtain r where r: "newest l ?receipts = Some r" by (auto split: option.splits)
    with l newest_label [OF r] fuko_row_done [of r l head ?conf]
    have "fk_valid (fuko_row_of head ?conf l r)" by simp
    moreover have "fuko_row_of head ?conf l r \<in> set ?rows" using r row by blast
    moreover have "l = fk_label (fuko_row_of head ?conf l r)" by simp
    ultimately show "l \<in> {fk_label row | row. row \<in> set ?rows \<and> fk_valid row}" by blast
  qed
qed

end
