(* ===== verification/Coverage.thy ===== *)
theory Coverage
  imports Runner Status
begin

text \<open>
  Where the runner meets \<open>fuko status\<close>: the header comment of a branch (\<open>_branch_header_body\<close> of
  \<open>sidecar/runner.py\<close>) carries the branch's receipt, and \<open>fuko_states\<close> reads it back. The property
  here composes the two components: what a branch's outcome becomes in the status a merge gate reads.
\<close>

section \<open>The header of a branch\<close>

definition EM_DASH :: string where "EM_DASH = [CHR 0xE2, CHR 0x80, CHR 0x94]"

definition WARNING :: string where
  "WARNING = [CHR 0xE2, CHR 0x9A, CHR 0xA0, CHR 0xEF, CHR 0xB8, CHR 0x8F]"

definition MIDDLE_DOT :: string where "MIDDLE_DOT = '' '' @ [CHR 0xB7] @ '' ''"

definition visible_header :: "string \<Rightarrow> string \<Rightarrow> run_receipt \<Rightarrow> string" where
  "visible_header label role r =
     ROBOT @ '' **fuko A/B** '' @ EM_DASH @ '' model `'' @ label @ ''`''
     @ (if role \<noteq> ''active'' then MIDDLE_DOT @ role else '''')
     @ (if rp_state r = ''failed'' then MIDDLE_DOT @ WARNING @ '' failed'' else '''')
     @ (let dead = map (\<lambda>(name, state). name @ '' '' @ state)
                  (filter (\<lambda>(name, state). state \<noteq> ''done'') (sort_key fst (rp_channels r)))
        in if dead = [] then '''' else MIDDLE_DOT @ WARNING @ '' reduced coverage: '' @ join '', '' dead)"

definition branch_header_body :: "(run_receipt \<Rightarrow> string) \<Rightarrow> string \<Rightarrow> string \<Rightarrow> run_receipt \<Rightarrow> string" where
  "branch_header_body dump label role r = with_run_receipt dump (visible_header label role r) r"

section \<open>From outcome to status\<close>

text \<open>The comment of a branch after \<open>_finalize_branch_header\<close>.\<close>

definition settled_comment ::
  "(run_receipt \<Rightarrow> string) \<Rightarrow> string \<Rightarrow> review_model \<Rightarrow> run_receipt \<Rightarrow> gh_comment" where
  "settled_comment dump login entry r =
     \<lparr>gc_login = Some login, gc_body = Some (branch_header_body dump (entry_label entry) (role_name (rm_role entry)) r)\<rparr>"

definition answered_by :: "review_model \<Rightarrow> invoke_result \<Rightarrow> string" where
  "answered_by entry r = or_else (or_empty (ir_provider r)) (entry_label entry)"

lemma closing_fields:
  "rp_label (closing_receipt rc entry head app r) = entry_label entry"
  "rp_state (closing_receipt rc entry head app r) = (if ir_returncode r = 0 then ''done'' else ''failed'')"
  "rp_answered (closing_receipt rc entry head app r) = answered_by entry r"
  "rp_head_sha (closing_receipt rc entry head app r) = head"
  "rp_channels (closing_receipt rc entry head app r) = ir_channels r"
  by (simp_all add: closing_receipt_def opening_receipt_def default_receipt_def answered_by_def
      or_else_def or_empty_def split: option.split)

lemma sha_match_refl: "head \<noteq> '''' \<Longrightarrow> sha_match head head"
  by (simp add: sha_match_def Let_def)

lemma settled_row_state:
  assumes "head \<noteq> ''''" "rp_head_sha r = head"
  shows "sr_state (fuko_row_of head None (rp_label r) r) =
    (if rp_state r = ''failed'' then ''unavailable''
     else if rp_state r \<noteq> ''done'' then ''in_progress''
     else if receipt_is_valid r \<and> list_all (\<lambda>c. snd c = ''done'') (rp_channels r) then ''done'' else ''degraded'')"
  using assms sha_match_refl [of head]
  by (cases "receipt_is_valid r"; cases "dead_channels r = []") (simp_all add: fuko_row_of_def Let_def dead_channels_Nil)

lemma receipts_snoc:
  assumes "receipt_author_allowed (strip (or_empty (gc_login c))) allowed"
    "extract_run_receipts validate (or_empty (gc_body c)) = [r]"
  shows "newest (rp_label r) (receipts_of validate allowed (cs @ [c])) = Some r"
  using assms by (simp add: receipts_of_def newest_def)

text \<open>C25: the status of a fuko instance is the outcome of its branch. Once a branch has rewritten its
  header under an identity allowed to, whatever other comments precede it, the row of its label on
  that HEAD is \<open>unavailable\<close> when the branch failed, \<open>done\<close> when it was green, the model it is
  labelled with answered and no channel died, and \<open>degraded\<close> otherwise: a failover or a dead
  channel never reads as coverage.\<close>

theorem status_reads_the_outcome:
  assumes "head \<noteq> ''''"
    and "carried_by dump validate (\<lambda>r. r) (closing_receipt rc entry head app r)"
    and "unopened (visible_header (entry_label entry) (role_name (rm_role entry)) (closing_receipt rc entry head app r))"
    and "receipt_author_allowed (strip login) (allowed_logins allowed)"
  shows "\<exists>row \<in> set (fuko_states validate head
        (cs @ [settled_comment dump login entry (closing_receipt rc entry head app r)]) allowed None).
      fk_label row = entry_label entry \<and> sr_state row =
        (if ir_returncode r \<noteq> 0 then ''unavailable''
         else if answered_by entry r = entry_label entry \<and> list_all (\<lambda>c. snd c = ''done'') (ir_channels r)
         then ''done'' else ''degraded'')"
proof -
  let ?r = "closing_receipt rc entry head app r"
  let ?c = "settled_comment dump login entry ?r"
  have "json_text (dump ?r)" using assms(2) by (simp add: carried_by_def)
  then have "extract_run_receipts validate (or_empty (gc_body ?c)) = [?r]"
    using receipt_payload [OF assms(3,2)] by (simp add: settled_comment_def or_empty_def branch_header_body_def)
  moreover have "receipt_author_allowed (strip (or_empty (gc_login ?c))) (allowed_logins allowed)"
    using assms(4) by (simp add: settled_comment_def or_empty_def)
  ultimately have "newest (entry_label entry) (receipts_of validate (allowed_logins allowed) (cs @ [?c])) = Some ?r"
    using receipts_snoc closing_fields(1) by metis
  then have "fuko_row_of head None (entry_label entry) ?r \<in> set (fuko_states validate head (cs @ [?c]) allowed None)"
    unfolding row_in_fuko_states by (auto simp: configured_set_def)
  moreover have "entry_label entry \<noteq> ''''" by (simp add: entry_label_def)
  then have "sr_state (fuko_row_of head None (entry_label entry) ?r) =
        (if ir_returncode r \<noteq> 0 then ''unavailable''
         else if answered_by entry r = entry_label entry \<and> list_all (\<lambda>c. snd c = ''done'') (ir_channels r)
         then ''done'' else ''degraded'')"
    using settled_row_state [OF assms(1), of ?r] by (simp add: closing_fields receipt_is_valid_def)
  ultimately show ?thesis by (intro bexI) simp_all
qed

text \<open>A branch of a sample fleet whose backup answered.\<close>

definition sample_outcome :: invoke_result where
  "sample_outcome = (plain_result 0 ''reviewed'')\<lparr>ir_provider := Some ''zai/glm-4.6''\<rparr>"

definition sample_receipt :: run_receipt where
  "sample_receipt = closing_receipt default_review (hd sample_reviewers) ''abc1234'' (Some ''fuko-gray[bot]'') sample_outcome"

definition sample_dump :: "run_receipt \<Rightarrow> string" where
  "sample_dump r = label_dump r"

definition sample_validate :: "string \<Rightarrow> run_receipt option" where
  "sample_validate s = (if s = escape_gt (sample_dump sample_receipt) then Some sample_receipt else None)"

theorem status_reads_the_outcome_witness:
  "\<exists>row \<in> set (fuko_states sample_validate ''abc1234''
      [settled_comment sample_dump ''fuko-gray[bot]'' (hd sample_reviewers) sample_receipt] None None).
    sr_state row = ''degraded''"
proof -
  have "carried_by sample_dump sample_validate (\<lambda>r. r) sample_receipt"
    by (simp add: carried_by_def sample_validate_def) code_simp
  moreover have "unopened (visible_header (entry_label (hd sample_reviewers)) (role_name (rm_role (hd sample_reviewers))) sample_receipt)"
    by code_simp
  moreover have "receipt_author_allowed (strip ''fuko-gray[bot]'') (allowed_logins None)"
    by code_simp
  moreover have "ir_returncode sample_outcome = 0" "answered_by (hd sample_reviewers) sample_outcome \<noteq> entry_label (hd sample_reviewers)"
    by code_simp+
  ultimately show ?thesis
    using status_reads_the_outcome [of "''abc1234''" sample_dump sample_validate default_review "hd sample_reviewers"
        "Some ''fuko-gray[bot]''" sample_outcome "''fuko-gray[bot]''" None "[]"]
    unfolding sample_receipt_def [symmetric] by fastforce
qed

end
