(* ===== verification/Normalizers.thy ===== *)
theory Normalizers
  imports Status
begin

text \<open>
  \<open>sidecar/normalizers.py\<close>: every vendor's PR comments as review signals. Recognisers work on the
  author or on the shape of the prose; a \<open>fuko-signal\<close> marker in the comment wins over both.
  \<open>hashlib.sha1\<close> and \<open>html.unescape\<close> of the standard library and the JSON codec of the markers are
  arguments. The properties say that no comment is dropped without being reported and that a marker
  decides the machine fields.
\<close>

section \<open>Inputs\<close>

text \<open>An inline comment, an issue comment or a submitted review of the GitHub API: the fields read.\<close>

record pr_comment =
  pc_login :: "string option"
  pc_body :: "string option"
  pc_path :: "string option"
  pc_start_line :: "int option"
  pc_line :: "int option"
  pc_url :: "string option"
  pc_reply_to :: "int option"
  pc_id :: string

text \<open>What the functions take from the standard library and pydantic.\<close>

record signal_io =
  io_sha1 :: "string \<Rightarrow> string"
  io_unescape :: "string \<Rightarrow> string"
  io_validate :: "string \<Rightarrow> review_signal option"

definition body_of :: "pr_comment \<Rightarrow> string" where "body_of c = or_empty (pc_body c)"

text \<open>\<open>a or b\<close> on numbers and \<open>s.split(sep, 1)\<close>: the text before the first \<open>sep\<close>, and after it if it occurs.\<close>

definition int_or :: "int option \<Rightarrow> int option \<Rightarrow> int option" where
  "int_or a b = (case a of Some n \<Rightarrow> if n = 0 then b else Some n | None \<Rightarrow> b)"

fun cut_at :: "string \<Rightarrow> string \<Rightarrow> string \<times> string option" where
  "cut_at sep [] = ([], if sep = [] then Some [] else None)"
| "cut_at sep (c # cs) =
     (if startswith (c # cs) sep then ([], Some (drop (length sep) (c # cs)))
      else (let (a, b) = cut_at sep cs in (c # a, b)))"

definition before :: "string \<Rightarrow> string \<Rightarrow> string" where "before sep s = fst (cut_at sep s)"

definition after :: "string \<Rightarrow> string \<Rightarrow> string" where
  "after sep s = (case snd (cut_at sep s) of None \<Rightarrow> s | Some t \<Rightarrow> t)"

definition first_line :: "string \<Rightarrow> string" where "first_line s = before nl s"

definition number :: "string \<Rightarrow> int" where "number s = int (undigits 0 s)"

definition str_line :: "int option \<Rightarrow> string" where
  "str_line n = (case n of None \<Rightarrow> '''' | Some k \<Rightarrow> if k = 0 then '''' else str_int k)"

definition comment_line :: "pr_comment \<Rightarrow> int option" where
  "comment_line c = int_or (pc_start_line c) (pc_line c)"

definition comment_end_line :: "pr_comment \<Rightarrow> int option" where
  "comment_end_line c = (if int_or (pc_start_line c) None = None then None else pc_line c)"

section \<open>PR-Agent\<close>

definition PRAGENT_PREFIX :: string where "PRAGENT_PREFIX = ''**Suggestion:**''"

definition PRAGENT_ANCHOR_RE :: rx where
  "PRAGENT_ANCHOR_RE = cats [Bol, star (Cls (\<lambda>c. c = CHR '' '' \<or> c = CHR 0x09)), Lit PRAGENT_PREFIX]"

definition LABEL_RE :: rx where
  "LABEL_RE = cats [Lit ''['', Grp 1 (plus (Cls (\<lambda>c. c \<noteq> CHR '','' \<and> c \<noteq> CHR '']''))), Lit '','', star space_rx,
     Lit ''importance:'', star space_rx, Grp 2 (plus (Cls digit)), Lit '']'']"

definition PRAGENT_CATEGORY :: "(string, string) dict" where
  "PRAGENT_CATEGORY =
     [(''security'', ''security''), (''performance'', ''perf''), (''possible issue'', ''bug''),
      (''possible bug'', ''bug''), (''bug'', ''bug''), (''best practice'', ''style''),
      (''maintainability'', ''design''), (''enhancement'', ''design''), (''typo'', ''docs'')]"

definition severity_from_importance :: "int \<Rightarrow> string" where
  "severity_from_importance n =
     (if n \<ge> 9 then ''critical'' else if n \<ge> 7 then ''high'' else if n \<ge> 4 then ''medium'' else ''low'')"

definition is_pragent_comment :: "string \<Rightarrow> bool" where
  "is_pragent_comment body = found PRAGENT_ANCHOR_RE body"

definition FENCE :: string where "FENCE = ''```''"

definition suggests :: "string \<Rightarrow> bool" where "suggests body = contains (FENCE @ ''suggestion'') body"

text \<open>\<open>d.get(k, default)\<close>.\<close>

definition dict_get :: "('k, 'v) dict \<Rightarrow> 'k \<Rightarrow> 'v \<Rightarrow> 'v" where
  "dict_get d k v = (case map_of d k of None \<Rightarrow> v | Some x \<Rightarrow> x)"

definition re_before :: "rx \<Rightarrow> string \<Rightarrow> string" where
  "re_before r s = (case search r s of None \<Rightarrow> s | Some m \<Rightarrow> rm_before m)"

definition pragent_signal :: "signal_io \<Rightarrow> pr_comment \<Rightarrow> string \<Rightarrow> review_signal" where
  "pragent_signal io c model =
     (let body = body_of c; line = comment_line c; match = search LABEL_RE body;
          title = take 200 (strip (before FENCE (re_before LABEL_RE (after PRAGENT_PREFIX body))))
      in (default_signal (make_id (io_sha1 io) [or_empty (pc_path c), str_line line, title]))
           \<lparr>rs_file := pc_path c, rs_line := line, rs_end_line := comment_end_line c,
            rs_severity := (case match of None \<Rightarrow> ''medium'' | Some m \<Rightarrow> severity_from_importance (number (group 2 m))),
            rs_declared := (match \<noteq> None),
            rs_category := (case match of None \<Rightarrow> ''bug''
              | Some m \<Rightarrow> dict_get PRAGENT_CATEGORY (lower (strip (group 1 m))) ''bug''),
            rs_title := title, rs_body := body, rs_suggestion := suggests body, rs_thread_url := pc_url c,
            rs_backend := ''pr-agent'', rs_model := model\<rparr>)"

definition pragent_signals :: "signal_io \<Rightarrow> pr_comment list \<Rightarrow> string \<Rightarrow> (pr_comment \<times> review_signal) list" where
  "pragent_signals io comments model =
     map (\<lambda>c. (c, pragent_signal io c model)) (filter (\<lambda>c. is_pragent_comment (body_of c)) comments)"

section \<open>Copilot\<close>

definition SECURITY_RE :: rx where
  "SECURITY_RE = alts (map ILit [''secur'', ''vulnerab'', ''inject'', ''xss'', ''csrf'', ''secret'', ''password'',
     ''creden'', ''attack'', ''malicious'', ''traversal'', ''exfiltrat''])"

definition PERF_RE :: rx where
  "PERF_RE = alts [ILit ''perform'', ILit ''latency'', ILit ''memory leak'', ILit ''n+1'',
     cats [Wb, ILit ''slow'', Wb], cats [Wb, ILit ''O('']]"

definition is_copilot_comment :: "pr_comment \<Rightarrow> bool" where
  "is_copilot_comment c = by_login COPILOT_LOGINS (pc_login c)"

definition infer_category :: "string \<Rightarrow> string" where
  "infer_category text = (if found SECURITY_RE text then ''security'' else if found PERF_RE text then ''perf'' else ''bug'')"

definition copilot_signal :: "signal_io \<Rightarrow> pr_comment \<Rightarrow> review_signal" where
  "copilot_signal io c =
     (let body = body_of c; line = comment_line c; title = take 200 (first_line (strip body))
      in (default_signal (make_id (io_sha1 io) [or_empty (pc_path c), str_line line, title]))
           \<lparr>rs_file := pc_path c, rs_line := line, rs_end_line := comment_end_line c,
            rs_category := infer_category body, rs_title := title, rs_body := body,
            rs_suggestion := suggests body, rs_thread_url := pc_url c, rs_backend := ''copilot''\<rparr>)"

definition COPILOT_SUPPRESSED_RE :: rx where
  "COPILOT_SUPPRESSED_RE = cats [ILit ''<details>'', star space_rx, ILit ''<summary>'', star (Cls (\<lambda>c. c \<noteq> CHR ''<'')),
     ILit ''suppress'', star (Cls (\<lambda>c. c \<noteq> CHR ''<'')), ILit ''</summary>'', Grp 1 (lazy (Cls (\<lambda>c. True))),
     ILit ''</details>'']"

definition COPILOT_SUPPRESSED_ENTRY_RE :: rx where
  "COPILOT_SUPPRESSED_ENTRY_RE = cats [Bol, Lit ''**'',
     Grp 1 (Rep 1 None False (Cls (\<lambda>c. c \<noteq> CHR ''*'' \<and> c \<noteq> CHR 0x0A))), Lit '':'', Grp 2 (plus (Cls digit)),
     Lit ''**'', star space_rx, Eol]"

definition BULLET_RE :: rx where
  "BULLET_RE = cats [Bos, Cls (\<lambda>c. c = CHR ''*'' \<or> c = CHR ''-''), star space_rx]"

text \<open>The anchors of a block with the text each one owns: up to the next anchor, or to the end.\<close>

definition anchored :: "string \<Rightarrow> (rmatch \<times> string) list" where
  "anchored inner = (let (ms, tail) = scan COPILOT_SUPPRESSED_ENTRY_RE None inner
                     in zip ms (map rm_before (tl ms) @ [tail]))"

definition suppressed_signal :: "signal_io \<Rightarrow> pr_comment \<Rightarrow> rmatch \<times> string \<Rightarrow> review_signal" where
  "suppressed_signal io review e =
     (let text = strip (snd e); path = strip (group 1 (fst e)); line = number (group 2 (fst e));
          title = take 200 (strip (resub BULLET_RE '''' (first_line text)))
      in (default_signal (make_id (io_sha1 io) [path, str_int line, title]))
           \<lparr>rs_file := Some path, rs_line := Some line, rs_category := infer_category text, rs_title := title,
            rs_body := text, rs_suggestion := suggests text, rs_thread_url := pc_url review,
            rs_backend := ''copilot'', rs_suppressed := True\<rparr>)"

definition copilot_suppressed_signals :: "signal_io \<Rightarrow> pr_comment \<Rightarrow> review_signal list" where
  "copilot_suppressed_signals io review =
     concat (map (\<lambda>block. map (suppressed_signal io review) (anchored (group 1 block)))
       (finditer COPILOT_SUPPRESSED_RE (body_of review)))"

text \<open>\<open>if not marker.thread_url: marker.thread_url = url\<close>.\<close>

definition with_url :: "string option \<Rightarrow> review_signal \<Rightarrow> review_signal" where
  "with_url url s = (if or_empty (rs_thread_url s) = '''' then s\<lparr>rs_thread_url := url\<rparr> else s)"

definition collect_review_signals :: "signal_io \<Rightarrow> pr_comment list \<Rightarrow> review_signal list" where
  "collect_review_signals io reviews =
     concat (map (\<lambda>r. (if is_copilot_comment r then copilot_suppressed_signals io r else [])
                   @ map (with_url (pc_url r)) (extract_markers (io_validate io) (body_of r))) reviews)"

section \<open>CodeRabbit\<close>

definition underscored :: rx where "underscored = cats [Lit ''_'', plus (Cls (\<lambda>c. c \<noteq> CHR ''_'')), Lit ''_'']"

definition CR_CLASS_RE :: rx where
  "CR_CLASS_RE = cats [Bol, underscored, star space_rx, Lit ''|'', star space_rx, underscored, star (Cls not_nl), Eol]"

definition CR_TOKEN_RE :: rx where
  "CR_TOKEN_RE = cats [Lit ''_'', Grp 1 (plus (Cls (\<lambda>c. c \<noteq> CHR ''_''))), Lit ''_'']"

definition BOLD_RE :: rx where
  "BOLD_RE = cats [Lit ''**'', Grp 1 (Rep 1 None False (Cls (\<lambda>c. True))), Lit ''**'']"

definition CR_SEVERITY :: "(string \<times> string) list" where
  "CR_SEVERITY = [(''critical'', ''critical''), (''major'', ''high''), (''minor'', ''medium''), (''trivial'', ''low'')]"

definition is_coderabbit_comment :: "pr_comment \<Rightarrow> bool" where
  "is_coderabbit_comment c = by_login [CR_LOGIN] (pc_login c)"

definition cr_classification :: "string \<Rightarrow> string list option" where
  "cr_classification body =
     map_option (\<lambda>m. map (group 1) (finditer CR_TOKEN_RE (rm_text m))) (search CR_CLASS_RE body)"

definition is_coderabbit_finding :: "string \<Rightarrow> bool" where
  "is_coderabbit_finding body = (cr_classification body \<noteq> None)"

definition cr_category :: "string \<Rightarrow> string" where
  "cr_category token =
     (let t = lower token
      in if contains ''security'' t then ''security'' else if contains ''perf'' t then ''perf''
         else if contains ''nitpick'' t then ''style'' else if contains ''refactor'' t then ''design''
         else if contains ''typo'' t then ''docs'' else ''bug'')"

definition cr_severity :: "string list \<Rightarrow> string option" where
  "cr_severity tokens =
     (case tokens of
        _ # t # _ \<Rightarrow> map_option snd (List.find (\<lambda>(kw, s). contains kw (lower t)) CR_SEVERITY)
      | _ \<Rightarrow> None)"

definition coderabbit_signal :: "signal_io \<Rightarrow> pr_comment \<Rightarrow> review_signal" where
  "coderabbit_signal io c =
     (let body = body_of c; line = comment_line c;
          tokens = (case cr_classification body of None \<Rightarrow> [] | Some ts \<Rightarrow> ts);
          severity = cr_severity tokens;
          title = take 200 (case search BOLD_RE body of Some m \<Rightarrow> strip (group 1 m) | None \<Rightarrow> first_line (strip body))
      in (default_signal (make_id (io_sha1 io) [or_empty (pc_path c), str_line line, title]))
           \<lparr>rs_file := pc_path c, rs_line := line, rs_end_line := comment_end_line c,
            rs_severity := (case severity of None \<Rightarrow> ''medium'' | Some s \<Rightarrow> s), rs_declared := (severity \<noteq> None),
            rs_category := (case tokens of [] \<Rightarrow> ''bug'' | t # _ \<Rightarrow> cr_category t), rs_title := title, rs_body := body,
            rs_suggestion := (suggests body \<or> contains ''Suggested fix'' body), rs_thread_url := pc_url c,
            rs_backend := ''coderabbit''\<rparr>)"

section \<open>PR-Agent's reviewer guide\<close>

definition GUIDE_HEADER :: string where "GUIDE_HEADER = ''PR Reviewer Guide''"
definition GUIDE_SECURITY_CELL :: string where "GUIDE_SECURITY_CELL = ''<strong>Security concerns</strong>''"
definition GUIDE_FOCUS_CELL :: string where
  "GUIDE_FOCUS_CELL = ''<strong>Recommended focus areas for review</strong>''"

text \<open>\<open><tag\b[^>]*>(.*?)</tag>\<close>.\<close>

definition element_re :: "string \<Rightarrow> rx" where
  "element_re tag = cats [ILit (''<'' @ tag), Wb, star (Cls (\<lambda>c. c \<noteq> CHR ''>'')), Lit ''>'',
     Grp 1 (lazy (Cls (\<lambda>c. True))), ILit (''</'' @ tag @ ''>'')]"

definition BR_RE :: rx where "BR_RE = cats [ILit ''<br'', star space_rx, maybe (Lit ''/''), Lit ''>'']"
definition TAG_RE :: rx where "TAG_RE = cats [Lit ''<'', plus (Cls (\<lambda>c. c \<noteq> CHR ''>'')), Lit ''>'']"
definition NL3_RE :: rx where "NL3_RE = Rep 3 None True nl_rx"

definition PATH_LINE_RE :: rx where
  "PATH_LINE_RE = cats [Wb, Grp 1 (cats [plus (Cls (\<lambda>c. word_char c \<or> c = CHR ''.'' \<or> c = CHR ''/'' \<or> c = CHR ''-'')),
     Lit ''.'', Cls letter, star (Cls word_char)]), Lit '':'', Grp 2 (plus (Cls digit)), Wb]"

definition CLOSE_A_RE :: rx where "CLOSE_A_RE = cats [Bos, star space_rx, Lit ''</a>'']"

definition html_to_text :: "signal_io \<Rightarrow> string \<Rightarrow> string" where
  "html_to_text io fragment = strip (resub NL3_RE blank_line (io_unescape io (resub TAG_RE '''' (resub BR_RE nl fragment))))"

definition is_guide_comment :: "string \<Rightarrow> bool" where
  "is_guide_comment body = contains GUIDE_HEADER body"

definition guide_security_signals :: "signal_io \<Rightarrow> string \<Rightarrow> string \<Rightarrow> string option \<Rightarrow> string \<Rightarrow> review_signal list" where
  "guide_security_signals io cell cid url model =
     (let content = after GUIDE_SECURITY_CELL cell; text = html_to_text io content;
          strong = (case search (element_re ''strong'') content of
                      Some m \<Rightarrow> rev (dropWhile (\<lambda>c. c = CHR '':'') (rev (html_to_text io (group 1 m)))) | None \<Rightarrow> '''');
          title = or_else strong ''Security concern''
      in if text = '''' then []
         else [(default_signal (make_id (io_sha1 io) [''guide'', cid, title]))
                 \<lparr>rs_category := ''security'', rs_title := take 200 title, rs_body := text, rs_thread_url := url,
                  rs_backend := ''pr-agent'', rs_model := model\<rparr>])"

definition focus_signal :: "signal_io \<Rightarrow> string \<Rightarrow> string option \<Rightarrow> string \<Rightarrow> string \<Rightarrow> review_signal list" where
  "focus_signal io cid url model block =
     (case search (element_re ''summary'') block of
        None \<Rightarrow> []
      | Some s \<Rightarrow>
          (let html = group 1 s;
               (title, desc_html) = (case search (element_re ''strong'') html of
                   Some m \<Rightarrow> (html_to_text io (group 1 m), resub CLOSE_A_RE '''' (snd (rm_after m)))
                 | None \<Rightarrow> (first_line (html_to_text io html), html))
           in if title = '''' then []
              else (let desc = html_to_text io desc_html; loc = search PATH_LINE_RE desc
                    in [(default_signal (make_id (io_sha1 io) [''guide'', cid, title]))
                          \<lparr>rs_file := map_option (group 1) loc, rs_line := map_option (\<lambda>m. number (group 2 m)) loc,
                           rs_title := take 200 title, rs_body := desc, rs_thread_url := url,
                           rs_backend := ''pr-agent'', rs_model := model\<rparr>])))"

definition guide_focus_signals :: "signal_io \<Rightarrow> string \<Rightarrow> string \<Rightarrow> string option \<Rightarrow> string \<Rightarrow> review_signal list" where
  "guide_focus_signals io cell cid url model =
     concat (map (\<lambda>m. focus_signal io cid url model (group 1 m)) (finditer (element_re ''details'') cell))"

definition guide_signals :: "signal_io \<Rightarrow> pr_comment \<Rightarrow> string \<Rightarrow> review_signal list" where
  "guide_signals io c model =
     (let body = body_of c
      in if \<not> contains GUIDE_HEADER body then []
         else concat (map (\<lambda>m. let cell = group 1 m
             in if contains GUIDE_SECURITY_CELL cell then guide_security_signals io cell (pc_id c) (pc_url c) model
                else if contains GUIDE_FOCUS_CELL cell then guide_focus_signals io cell (pc_id c) (pc_url c) model
                else []) (finditer (element_re ''td'') body)))"

section \<open>Dispatch\<close>

definition prefer_marker :: "signal_io \<Rightarrow> review_signal \<Rightarrow> string \<Rightarrow> review_signal" where
  "prefer_marker io base body =
     (case extract_markers (io_validate io) body of
        [] \<Rightarrow> base
      | marked # _ \<Rightarrow> with_url (rs_thread_url base) (marked\<lparr>rs_title := rs_title base, rs_body := rs_body base\<rparr>))"

definition first_text_line :: "string \<Rightarrow> string" where
  "first_text_line text = (case filter (\<lambda>l. l \<noteq> '''') (map strip (splitlines text)) of [] \<Rightarrow> '''' | l # _ \<Rightarrow> l)"

definition marker_only_signal :: "signal_io \<Rightarrow> pr_comment \<Rightarrow> string \<Rightarrow> review_signal option" where
  "marker_only_signal io c body =
     (case extract_markers (io_validate io) body of
        [] \<Rightarrow> None
      | s # _ \<Rightarrow>
          (let text = strip (strip_visible_label (strip_markers body))
           in Some (with_url (pc_url c) (s\<lparr>rs_body := text, rs_title := take 200 (first_text_line text)\<rparr>))))"

definition normalize_inline_comment :: "signal_io \<Rightarrow> string \<Rightarrow> pr_comment \<Rightarrow> review_signal option" where
  "normalize_inline_comment io model c =
     (let body = body_of c
      in if is_copilot_comment c then Some (prefer_marker io (copilot_signal io c) body)
         else if is_coderabbit_comment c
         then (if \<not> is_coderabbit_finding body then None
               else Some (prefer_marker io (coderabbit_signal io c) body))
         else if is_pragent_comment body then Some (prefer_marker io (pragent_signal io c model) body)
         else marker_only_signal io c body)"

definition is_recognized_author :: "pr_comment \<Rightarrow> bool" where
  "is_recognized_author c = (is_copilot_comment c \<or> is_coderabbit_comment c)"

text \<open>\<open>c.get("in_reply_to_id")\<close> as a condition.\<close>

definition is_reply :: "pr_comment \<Rightarrow> bool" where
  "is_reply c = (int_or (pc_reply_to c) None \<noteq> None)"

definition collect_signals :: "signal_io \<Rightarrow> string \<Rightarrow> pr_comment list \<Rightarrow> review_signal list" where
  "collect_signals io model comments =
     List.map_filter (normalize_inline_comment io model) (filter (\<lambda>c. \<not> is_reply c) comments)"

definition unrecognized_comments :: "signal_io \<Rightarrow> string \<Rightarrow> pr_comment list \<Rightarrow> pr_comment list" where
  "unrecognized_comments io model comments =
     filter (\<lambda>c. \<not> is_reply c \<and> \<not> is_recognized_author c \<and> normalize_inline_comment io model c = None) comments"

definition rehydrate :: "(string, review_signal) dict \<Rightarrow> string option \<Rightarrow> review_signal \<Rightarrow> review_signal" where
  "rehydrate fresh url m =
     with_url url (case map_of fresh (rs_id m) of
                     None \<Rightarrow> m | Some p \<Rightarrow> m\<lparr>rs_title := rs_title p, rs_body := rs_body p\<rparr>)"

definition collect_issue_comment_signals :: "signal_io \<Rightarrow> string \<Rightarrow> pr_comment list \<Rightarrow> review_signal list" where
  "collect_issue_comment_signals io model comments =
     concat (map (\<lambda>c. let fresh = fold (\<lambda>s d. dict_set (rs_id s) s d) (guide_signals io c model) []
                      in map (rehydrate fresh (pc_url c)) (extract_markers (io_validate io) (body_of c))) comments)"

section \<open>Properties of the collection\<close>

definition dropped_by_design :: "signal_io \<Rightarrow> string \<Rightarrow> pr_comment \<Rightarrow> bool" where
  "dropped_by_design io model c =
     (is_reply c \<or> is_coderabbit_comment c \<and> \<not> is_copilot_comment c \<and> \<not> is_coderabbit_finding (body_of c))"

lemma normalize_none:
  "normalize_inline_comment io model c = None \<and> is_recognized_author c \<longleftrightarrow>
     is_coderabbit_comment c \<and> \<not> is_copilot_comment c \<and> \<not> is_coderabbit_finding (body_of c)"
  by (auto simp: normalize_inline_comment_def is_recognized_author_def Let_def)

lemma notice_none: "is_coderabbit_comment c \<and> \<not> is_copilot_comment c \<and> \<not> is_coderabbit_finding (body_of c) \<Longrightarrow>
    normalize_inline_comment io model c = None"
  by (simp add: normalize_inline_comment_def Let_def)

lemma length_map_filter: "length (List.map_filter f xs) = length (filter (\<lambda>x. f x \<noteq> None) xs)"
  by (induction xs) (auto simp: List.map_filter_def)

lemma count_three:
  "length xs = length (filter P xs) + length (filter (\<lambda>x. \<not> P x \<and> Q x) xs) + length (filter (\<lambda>x. \<not> P x \<and> \<not> Q x) xs)"
  by (induction xs) auto

text \<open>C38: no comment is dropped in silence. Every inline comment is a reply or a CodeRabbit notice,
  or it gives exactly one signal, or it is reported by \<open>unrecognized_comments\<close>; the three counts
  add up to the comments.\<close>

theorem every_comment_is_accounted:
  "length comments = length (filter (dropped_by_design io model) comments)
     + length (collect_signals io model comments) + length (unrecognized_comments io model comments)"
proof -
  let ?n = "normalize_inline_comment io model" and ?d = "dropped_by_design io model"
  have "(\<not> ?d c \<and> ?n c \<noteq> None) = (?n c \<noteq> None \<and> \<not> is_reply c)" for c
    using notice_none [of c io model] unfolding dropped_by_design_def by (cases "?n c = None") auto
  then have "filter (\<lambda>c. \<not> ?d c \<and> ?n c \<noteq> None) comments = filter (\<lambda>c. ?n c \<noteq> None) (filter (\<lambda>c. \<not> is_reply c) comments)"
    by (simp only: filter_filter conj_commute)
  then have "length (filter (\<lambda>c. \<not> ?d c \<and> ?n c \<noteq> None) comments) = length (collect_signals io model comments)"
    by (simp add: collect_signals_def length_map_filter)
  moreover have "filter (\<lambda>c. \<not> ?d c \<and> \<not> ?n c \<noteq> None) comments = unrecognized_comments io model comments"
    unfolding unrecognized_comments_def
    by (rule filter_cong) (use normalize_none [of io model] in \<open>auto simp: dropped_by_design_def\<close>)
  ultimately show ?thesis using count_three [of comments ?d "\<lambda>c. ?n c \<noteq> None"] by simp
qed

lemma url_fields [simp]:
  "rs_id (with_url u s) = rs_id s" "rs_model (with_url u s) = rs_model s" "rs_severity (with_url u s) = rs_severity s"
  "rs_category (with_url u s) = rs_category s" "rs_file (with_url u s) = rs_file s" "rs_line (with_url u s) = rs_line s"
  "rs_backend (with_url u s) = rs_backend s" "rs_role (with_url u s) = rs_role s"
  by (simp_all add: with_url_def)

text \<open>A marker decides what a finding is. An inline comment that carries one is normalised, if at
  all, to the id, place, severity, category, model, backend and role its first marker was written
  with, whoever posted it and whatever its prose says; and a marked comment of an author without
  a recogniser is always admitted.\<close>

theorem marker_is_authoritative:
  assumes "extract_markers (io_validate io) (body_of c) = m # ms"
  shows "(case normalize_inline_comment io model c of
      None \<Rightarrow> is_coderabbit_comment c \<and> \<not> is_coderabbit_finding (body_of c)
    | Some s \<Rightarrow> rs_id s = rs_id m \<and> rs_file s = rs_file m \<and> rs_line s = rs_line m \<and> rs_severity s = rs_severity m
        \<and> rs_category s = rs_category m \<and> rs_model s = rs_model m \<and> rs_backend s = rs_backend m \<and> rs_role s = rs_role m)"
  using assms
  by (auto simp: normalize_inline_comment_def Let_def prefer_marker_def marker_only_signal_def)

definition sample_io :: signal_io where
  "sample_io = \<lparr>io_sha1 = (\<lambda>s. s), io_unescape = (\<lambda>s. s), io_validate = id_validate\<rparr>"

definition marked_comment :: pr_comment where
  "marked_comment =
     \<lparr>pc_login = Some ''fuko-gray[bot]'', pc_body = Some (''Off by one.'' @ blank_line @ encode_marker id_dump (default_signal ''fk_1'')),
      pc_path = Some ''a.py'', pc_start_line = None, pc_line = Some 3, pc_url = Some ''u'', pc_reply_to = None, pc_id = ''1''\<rparr>"

theorem marker_is_authoritative_witness:
  "\<exists>s. normalize_inline_comment sample_io ''m'' marked_comment = Some s \<and> rs_id s = ''fk_1'' \<and> rs_severity s = ''medium''"
proof -
  have "extract_markers (io_validate sample_io) (body_of marked_comment) = [default_signal ''fk_1'']" by code_simp
  from marker_is_authoritative [OF this, of "''m''"]
  have "case normalize_inline_comment sample_io ''m'' marked_comment of
      None \<Rightarrow> is_coderabbit_comment marked_comment
    | Some s \<Rightarrow> rs_id s = ''fk_1'' \<and> rs_severity s = ''medium''"
    by (auto simp: default_signal_def split: option.splits)
  moreover have "\<not> is_coderabbit_comment marked_comment" by code_simp
  ultimately show ?thesis by (auto split: option.splits)
qed

end
