(* ===== verification/Transport.thy ===== *)
theory Transport
  imports Ledger_Store
begin

text \<open>
  \<open>sidecar/review_state_client.py\<close>, and the \<open>/rs/\<close> handlers of \<open>sidecar/main.py\<close> behind it: the
  ledger operations over HTTP when a sidecar is configured, else on the local store. Each handler
  is the matching operation of \<open>review_state\<close>, so a request that reaches the sidecar is that
  operation on its store. What the network does to request number \<open>n\<close> is not the repository's:
  it is \<open>wr_network n\<close>. A runner that has both a sidecar and a database of its own shares the
  sidecar's database, as the module assumes. Requests carry values of the validated wire types.
\<close>

section \<open>State\<close>

text \<open>A request arrives and is answered; never arrives; is executed but its answer is lost; is refused
  with an error status; or is executed but answered with a body that does not parse.\<close>

datatype delivery = Answered | Undelivered | AnswerLost | Refused | Garbled

record wire =
  wr_url :: string
  wr_local_db :: bool
  wr_down :: bool
  wr_requests :: nat
  wr_network :: "nat \<Rightarrow> delivery"
  wr_store :: store

datatype call_error = TransportError | OtherError

section \<open>The client\<close>

text \<open>\<open>_remote\<close>: the sidecar's URL, or empty for the local module.\<close>

definition remote :: "wire \<Rightarrow> string" where
  "remote w = (if wr_down w then '''' else wr_url w)"

definition on_store :: "(store \<Rightarrow> 'a \<times> store) \<Rightarrow> wire \<Rightarrow> 'a \<times> wire" where
  "on_store op w = (let (x, s) = op (wr_store w) in (x, w\<lparr>wr_store := s\<rparr>))"

text \<open>The local branch: the same tables, through the runner's own configuration.\<close>

definition local_branch :: "(store \<Rightarrow> 'a \<times> store) \<Rightarrow> wire \<Rightarrow> 'a \<times> wire" where
  "local_branch op w =
     (let (x, s) = op ((wr_store w)\<lparr>st_enabled := wr_local_db w\<rparr>)
      in (x, w\<lparr>wr_store := s\<lparr>st_enabled := st_enabled (wr_store w)\<rparr>\<rparr>))"

text \<open>\<open>_get\<close> and \<open>_post\<close>.\<close>

definition request :: "(store \<Rightarrow> 'a \<times> store) \<Rightarrow> wire \<Rightarrow> (call_error + 'a) \<times> wire" where
  "request op w =
     (let w1 = w\<lparr>wr_requests := Suc (wr_requests w)\<rparr>
      in case wr_network w (wr_requests w) of
           Answered \<Rightarrow> (let (x, w2) = on_store op w1 in (Inr x, w2))
         | Undelivered \<Rightarrow> (Inl TransportError, w1)
         | AnswerLost \<Rightarrow> (Inl TransportError, snd (on_store op w1))
         | Refused \<Rightarrow> (Inl OtherError, w1)
         | Garbled \<Rightarrow> (Inl OtherError, snd (on_store op w1)))"

definition mark_down :: "wire \<Rightarrow> wire" where
  "mark_down w = w\<lparr>wr_down := True\<rparr>"

text \<open>\<open>_guarded\<close>: every failure is the neutral value; a transport failure closes the latch.\<close>

definition guarded :: "'a \<Rightarrow> (call_error + 'a) \<times> wire \<Rightarrow> 'a \<times> wire" where
  "guarded neutral r =
     (case r of
        (Inr x, w) \<Rightarrow> (x, w)
      | (Inl TransportError, w) \<Rightarrow> (neutral, mark_down w)
      | (Inl OtherError, w) \<Rightarrow> (neutral, w))"

text \<open>A call: the local branch, or a request unless there is nothing to send.\<close>

definition wire_call :: "'a \<Rightarrow> bool \<Rightarrow> (store \<Rightarrow> 'a \<times> store) \<Rightarrow> wire \<Rightarrow> 'a \<times> wire" where
  "wire_call neutral nothing op w =
     guarded neutral
       (if remote w = '''' then (let (x, w') = local_branch op w in (Inr x, w'))
        else if nothing then (Inr neutral, w)
        else request op w)"

definition wire_expire_coverage :: "lane \<Rightarrow> strings \<Rightarrow> wire \<Rightarrow> nat \<times> wire" where
  "wire_expire_coverage l files w =
     (case files of
        BareStr _ \<Rightarrow> guarded 0 (Inl OtherError, w)
      | StrSeq fs \<Rightarrow> wire_call 0 (fs = []) (expire_coverage l (Some (StrSeq fs))) w)"

definition wire_open_findings :: "lane \<Rightarrow> wire \<Rightarrow> open_ledger \<times> wire" where
  "wire_open_findings l = wire_call empty_open_ledger False (open_findings l MAX_OPEN_FINDINGS)"

definition wire_live_coverage :: "lane \<Rightarrow> wire \<Rightarrow> prior_coverage list \<times> wire" where
  "wire_live_coverage l = wire_call [] False (live_coverage l MAX_LIVE_COVERAGE)"

definition wire_settled_findings :: "lane \<Rightarrow> wire \<Rightarrow> settled_finding list \<times> wire" where
  "wire_settled_findings l = wire_call [] False (settled_findings l MAX_SETTLED_FINDINGS)"

definition wire_next_round :: "lane \<Rightarrow> wire \<Rightarrow> int \<times> wire" where
  "wire_next_round l = wire_call 1 False (next_round l)"

definition wire_transition :: "lane \<Rightarrow> string \<Rightarrow> string \<Rightarrow> string \<Rightarrow> wire \<Rightarrow> bool \<times> wire" where
  "wire_transition l i status reason = wire_call False False (transition l i status reason)"

definition wire_reopen :: "lane \<Rightarrow> string \<Rightarrow> string \<Rightarrow> wire \<Rightarrow> bool \<times> wire" where
  "wire_reopen l i reason = wire_call False False (reopen l i reason)"

definition wire_touch_findings :: "lane \<Rightarrow> strings \<Rightarrow> wire \<Rightarrow> nat \<times> wire" where
  "wire_touch_findings l ids w =
     (if remote w = '''' then wire_call 0 False (touch_findings l ids) w
      else case ids of
        BareStr _ \<Rightarrow> guarded 0 (Inl OtherError, w)
      | StrSeq is \<Rightarrow> wire_call 0 (is = []) (touch_findings l (StrSeq is)) w)"

definition wire_record_findings ::
  "lane \<Rightarrow> int \<Rightarrow> string \<Rightarrow> agentic_finding list \<Rightarrow> wire \<Rightarrow> nat \<times> wire" where
  "wire_record_findings l rnd head fs = wire_call 0 (fs = []) (record_findings l rnd head fs)"

definition wire_record_coverage ::
  "lane \<Rightarrow> int \<Rightarrow> string \<Rightarrow> examined_region list \<Rightarrow> wire \<Rightarrow> nat \<times> wire" where
  "wire_record_coverage l rnd head es = wire_call 0 (es = []) (record_coverage l rnd head es)"

definition wire_ops :: "wire ledger_ops" where
  "wire_ops =
     \<lparr>lo_expire_coverage = wire_expire_coverage,
      lo_open_findings = wire_open_findings,
      lo_live_coverage = wire_live_coverage,
      lo_settled_findings = wire_settled_findings,
      lo_next_round = wire_next_round,
      lo_transition = wire_transition,
      lo_reopen = wire_reopen,
      lo_touch_findings = (\<lambda>l ids. wire_touch_findings l (StrSeq ids)),
      lo_record_findings = wire_record_findings,
      lo_record_coverage = wire_record_coverage\<rparr>"

section \<open>What a call does\<close>

text \<open>A transport that answers: a sidecar on a network that delivers, or the local store, configured.\<close>

definition wire_up :: "wire \<Rightarrow> bool" where
  "wire_up w \<longleftrightarrow> store_up (wr_store w)
     \<and> (if wr_url w = '''' then wr_local_db w else \<not> wr_down w \<and> (\<forall>n. wr_network w n = Answered))"

definition same_config :: "wire \<Rightarrow> wire \<Rightarrow> bool" where
  "same_config w w' \<longleftrightarrow> wr_url w' = wr_url w \<and> wr_local_db w' = wr_local_db w \<and> wr_network w' = wr_network w
     \<and> st_enabled (wr_store w') = st_enabled (wr_store w) \<and> st_answers (wr_store w') = st_answers (wr_store w)"

definition tables :: "store \<Rightarrow> finding_row list \<times> coverage_row list" where
  "tables s = (st_findings s, st_coverage s)"

definition keeps_world :: "(store \<Rightarrow> 'a \<times> store) \<Rightarrow> bool" where
  "keeps_world op \<longleftrightarrow> (\<forall>s x s'. op s = (x, s') \<longrightarrow> same_world s s')"

text \<open>Every call is the operation on the store's tables, or is lost on the way: then its answer is the
  neutral value, and the operation took place or did not. On a transport that answers it is never lost.\<close>

definition lost :: "'a \<Rightarrow> bool \<Rightarrow> wire \<Rightarrow> 'a \<Rightarrow> bool" where
  "lost neutral nothing w x \<longleftrightarrow> x = neutral \<and> (\<not> wire_up w \<or> nothing)"

definition call_effect ::
  "'a \<Rightarrow> bool \<Rightarrow> (store \<Rightarrow> 'a \<times> store) \<Rightarrow> wire \<Rightarrow> 'a \<Rightarrow> wire \<Rightarrow> bool" where
  "call_effect neutral nothing op w x w' \<longleftrightarrow>
     same_config w w' \<and> (wire_up w \<longrightarrow> wire_up w') \<and>
     (tables (wr_store w') = tables (wr_store w) \<and> lost neutral nothing w x
      \<or> (\<exists>t y t'. tables t = tables (wr_store w) \<and> (wire_up w \<longrightarrow> store_up t) \<and> op t = (y, t')
           \<and> tables (wr_store w') = tables t' \<and> (x = y \<or> x = neutral \<and> \<not> wire_up w)))"

lemma tables_enabled [simp]: "tables (s\<lparr>st_enabled := b\<rparr>) = tables s"
  by (simp add: tables_def)

lemma on_store_config:
  assumes "keeps_world op" "on_store op w = (x, w')"
  shows "\<exists>s'. op (wr_store w) = (x, s') \<and> w' = w\<lparr>wr_store := s'\<rparr> \<and> same_world (wr_store w) s'"
  using assms by (auto simp: on_store_def keeps_world_def split: prod.splits)

lemma call_effectI:
  "same_config w w' \<Longrightarrow> (wire_up w \<Longrightarrow> wire_up w') \<Longrightarrow> tables t = tables (wr_store w)
   \<Longrightarrow> (wire_up w \<Longrightarrow> store_up t) \<Longrightarrow> op t = (y, t') \<Longrightarrow> tables (wr_store w') = tables t'
   \<Longrightarrow> x = y \<or> x = neutral \<and> \<not> wire_up w \<Longrightarrow> call_effect neutral nothing op w x w'"
  unfolding call_effect_def by blast

lemma wire_call_effect:
  assumes "keeps_world op" "wire_call neutral nothing op w = (x, w')"
  shows "call_effect neutral nothing op w x w'"
proof -
  consider (loc) "remote w = ''''" | (skip) "remote w \<noteq> ''''" nothing | (req) "remote w \<noteq> ''''" "\<not> nothing" by blast
  then show ?thesis
  proof cases
    case loc
    let ?t = "(wr_store w)\<lparr>st_enabled := wr_local_db w\<rparr>"
    obtain y t' where o: "op ?t = (y, t')" by fastforce
    with assms(2) loc have r: "x = y" "w' = w\<lparr>wr_store := t'\<lparr>st_enabled := st_enabled (wr_store w)\<rparr>\<rparr>"
      by (simp_all add: wire_call_def local_branch_def guarded_def)
    have t': "same_world ?t t'" using assms(1) o by (simp add: keeps_world_def)
    have up: "wire_up w \<Longrightarrow> store_up ?t"
      using loc by (auto simp: wire_up_def remote_def store_up_def split: if_splits)
    show ?thesis
    proof (rule call_effectI [where t = ?t and t' = t' and y = y])
      show "op ?t = (y, t')" "wire_up w \<Longrightarrow> store_up ?t" by (fact o, fact up)
      show "same_config w w'" using r(2) t' by (simp add: same_config_def same_world_def)
      show "wire_up w \<Longrightarrow> wire_up w'"
        using r(2) t' by (auto simp: wire_up_def store_up_def same_world_def)
    qed (use r in simp_all)
  next
    case skip
    with assms(2) have "x = neutral" "w' = w" by (simp_all add: wire_call_def guarded_def)
    with skip show ?thesis by (simp add: call_effect_def lost_def same_config_def)
  next
    case req
    let ?w1 = "w\<lparr>wr_requests := Suc (wr_requests w)\<rparr>"
    obtain y s' where o: "op (wr_store w) = (y, s')" "same_world (wr_store w) s'"
      using assms(1) unfolding keeps_world_def by (metis surj_pair)
    let ?w2 = "?w1\<lparr>wr_store := s'\<rparr>"
    have on: "on_store op ?w1 = (y, ?w2)" using o(1) by (simp add: on_store_def)
    have c: "wire_call neutral nothing op w = guarded neutral (request op w)"
      using req by (simp add: wire_call_def)
    have conf: "same_config w ?w1" "same_config w (mark_down ?w1)" "same_config w ?w2" "same_config w (mark_down ?w2)"
      using o(2) by (simp_all add: same_config_def mark_down_def same_world_def)
    have up: "wire_up w \<Longrightarrow> wr_network w n = Answered \<and> store_up (wr_store w)" for n
      using req(1) by (auto simp: wire_up_def remote_def split: if_splits)
    have up2: "wire_up w \<Longrightarrow> wire_up ?w2"
      using o(2) by (auto simp: wire_up_def store_up_def same_world_def)
    have tab: "tables (wr_store (mark_down v)) = tables (wr_store v)" for v by (simp add: mark_down_def)
    have answered: "call_effect neutral nothing op w y ?w2"
      by (rule call_effectI [where t = "wr_store w" and t' = s' and y = y]) (use conf(3) up2 o(1) up in auto)
    have gone: "call_effect neutral nothing op w neutral v"
      if "\<not> wire_up w" "same_config w v" "tables (wr_store v) = tables (wr_store w)" for v
      using that by (simp add: call_effect_def lost_def)
    have half: "call_effect neutral nothing op w neutral v"
      if "\<not> wire_up w" "same_config w v" "tables (wr_store v) = tables s'" for v
      by (rule call_effectI [where t = "wr_store w" and t' = s' and y = y]) (use o(1) that in auto)
    show ?thesis
    proof (cases "wr_network w (wr_requests w)")
      case Answered
      with c assms(2) on have "x = y" "w' = ?w2" by (simp_all add: request_def guarded_def)
      with answered show ?thesis by simp
    next
      case Undelivered
      then have "\<not> wire_up w" using up [of "wr_requests w"] by auto
      moreover from Undelivered c assms(2) have "x = neutral" "w' = mark_down ?w1"
        by (simp_all add: request_def guarded_def Let_def)
      ultimately show ?thesis using gone conf(2) tab by simp
    next
      case AnswerLost
      then have "\<not> wire_up w" using up [of "wr_requests w"] by auto
      moreover from AnswerLost c assms(2) on have "x = neutral" "w' = mark_down ?w2"
        by (simp_all add: request_def guarded_def Let_def)
      ultimately show ?thesis using half conf(4) tab by simp
    next
      case Refused
      then have "\<not> wire_up w" using up [of "wr_requests w"] by auto
      moreover from Refused c assms(2) have "x = neutral" "w' = ?w1"
        by (simp_all add: request_def guarded_def Let_def)
      ultimately show ?thesis using gone conf(1) by simp
    next
      case Garbled
      then have "\<not> wire_up w" using up [of "wr_requests w"] by auto
      moreover from Garbled c assms(2) on have "x = neutral" "w' = ?w2"
        by (simp_all add: request_def guarded_def Let_def)
      ultimately show ?thesis using half conf(3) by simp
    qed
  qed
qed

section \<open>The operations keep the world\<close>

lemma keeps_world_ops:
  "keeps_world (transition l i st reason)" "keeps_world (reopen l i reason)"
  "keeps_world (touch_findings l (StrSeq ids))" "keeps_world (record_findings l rnd head fs)"
  "keeps_world (record_coverage l rnd head es)" "keeps_world (expire_coverage l (Some (StrSeq gs)))"
  "keeps_world (open_findings l n)" "keeps_world (settled_findings l n)"
  "keeps_world (live_coverage l n)" "keeps_world (next_round l)"
  unfolding keeps_world_def
  by (auto dest: transition_effect reopen_effect touch_effect record_effect record_coverage_effect
      expire_effect open_effect settled_effect live_effect next_round_effect simp: same_tables_def)

section \<open>The wire keeps the contract\<close>

lemma call_cases [consumes 2, case_names lost arrived]:
  assumes "wire_call neutral nothing op w = (x, w')" "keeps_world op"
  obtains "wire_up w \<Longrightarrow> wire_up w'" "st_findings (wr_store w') = st_findings (wr_store w)"
      "st_coverage (wr_store w') = st_coverage (wr_store w)" "x = neutral" "wire_up w \<Longrightarrow> nothing"
  | t y t' where "wire_up w \<Longrightarrow> wire_up w'" "op t = (y, t')" "wire_up w \<Longrightarrow> store_up t"
      "st_findings t = st_findings (wr_store w)" "st_coverage t = st_coverage (wr_store w)"
      "st_findings (wr_store w') = st_findings t'" "st_coverage (wr_store w') = st_coverage t'"
      "x = y \<or> x = neutral \<and> \<not> wire_up w"
proof -
  from wire_call_effect [OF assms(2,1)] have "wire_up w \<Longrightarrow> wire_up w'"
    and "tables (wr_store w') = tables (wr_store w) \<and> lost neutral nothing w x
      \<or> (\<exists>t y t'. tables t = tables (wr_store w) \<and> (wire_up w \<longrightarrow> store_up t) \<and> op t = (y, t')
           \<and> tables (wr_store w') = tables t' \<and> (x = y \<or> x = neutral \<and> \<not> wire_up w))"
    by (auto simp: call_effect_def)
  then show thesis
    using that unfolding tables_def lost_def prod.inject by blast
qed

lemma read_law:
  assumes "wire_call neutral False op w = (x, w')" "keeps_world op"
    and "\<And>s y s'. op s = (y, s') \<Longrightarrow> st_findings s' = st_findings s \<and> st_coverage s' = st_coverage s \<and> P (st_findings s) y"
    and "P (st_findings (wr_store w)) neutral"
  shows "(wire_up w \<longrightarrow> wire_up w') \<and> st_findings (wr_store w') = st_findings (wr_store w)
    \<and> st_coverage (wr_store w') = st_coverage (wr_store w) \<and> P (st_findings (wr_store w)) x"
  using assms(1,2)
proof (cases rule: call_cases)
  case lost
  with assms(4) show ?thesis by simp
next
  case (arrived t y t')
  from assms(3) [OF arrived(2)] arrived(1,4-8) assms(4) show ?thesis by metis
qed

abbreviation wire_findings :: "wire \<Rightarrow> finding_row list" where
  "wire_findings w \<equiv> st_findings (wr_store w)"

abbreviation wire_coverage :: "wire \<Rightarrow> coverage_row list" where
  "wire_coverage w \<equiv> st_coverage (wr_store w)"

interpretation rs: ledger_store wire_ops wire_findings wire_coverage wire_up
proof
  fix l i st reason w b w'
  assume "lo_transition wire_ops l i st reason w = (b, w')"
  then have c: "wire_call False False (transition l i st reason) w = (b, w')"
    by (simp add: wire_ops_def wire_transition_def)
  from c keeps_world_ops(1) show "(wire_up w \<longrightarrow> wire_up w') \<and> wire_coverage w' = wire_coverage w \<and>
      (if b then closes l i st (wire_findings w) (wire_findings w')
       else wire_findings w' = wire_findings w \<or> \<not> wire_up w \<and> closes l i st (wire_findings w) (wire_findings w'))"
  proof (cases rule: call_cases)
    case (arrived t y t')
    from transition_effect [OF arrived(2)] arrived show ?thesis by (auto split: if_splits)
  qed simp
next
  fix l i reason w b w'
  assume "lo_reopen wire_ops l i reason w = (b, w')"
  then have c: "wire_call False False (reopen l i reason) w = (b, w')"
    by (simp add: wire_ops_def wire_reopen_def)
  from c keeps_world_ops(2) show "(wire_up w \<longrightarrow> wire_up w') \<and> wire_coverage w' = wire_coverage w \<and>
      (if b then (\<exists>r \<in> set (wire_findings w). reopen_hits l i r)
         \<and> raises l i (wire_findings w) (wire_findings w')
       else wire_findings w' = wire_findings w \<or> \<not> wire_up w \<and> raises l i (wire_findings w) (wire_findings w'))"
  proof (cases rule: call_cases)
    case (arrived t y t')
    from reopen_effect [OF arrived(2)] arrived show ?thesis by (auto split: if_splits)
  qed simp
next
  fix l ids w n w'
  assume "lo_touch_findings wire_ops l ids w = (n, w')"
  then obtain nothing where c: "wire_call 0 nothing (touch_findings l (StrSeq ids)) w = (n, w')"
    by (auto simp: wire_ops_def wire_touch_findings_def split: if_splits)
  from c keeps_world_ops(3) show "(wire_up w \<longrightarrow> wire_up w') \<and> wire_coverage w' = wire_coverage w \<and>
      (wire_findings w' = wire_findings w \<or> touches l (wire_findings w) (wire_findings w'))"
  proof (cases rule: call_cases)
    case (arrived t y t')
    from touch_effect [OF arrived(2)] arrived show ?thesis by auto
  qed simp
next
  fix l rnd head fs w n w'
  assume "lo_record_findings wire_ops l rnd head fs w = (n, w')"
  then have c: "wire_call 0 (fs = []) (record_findings l rnd head fs) w = (n, w')"
    by (simp add: wire_ops_def wire_record_findings_def)
  from c keeps_world_ops(4) show "(wire_up w \<longrightarrow> wire_up w') \<and> wire_coverage w' = wire_coverage w \<and>
      (n = 0 \<and> wire_findings w' = wire_findings w \<and> (wire_up w \<longrightarrow> fs = [])
       \<or> (wire_up w \<longrightarrow> n = length fs) \<and> appends l rnd head fs (wire_findings w) (wire_findings w'))"
  proof (cases rule: call_cases)
    case (arrived t y t')
    from record_effect [OF arrived(2)] arrived show ?thesis by auto
  qed auto
next
  fix l rnd head es w n w'
  assume "lo_record_coverage wire_ops l rnd head es w = (n, w')"
  then have c: "wire_call 0 (es = []) (record_coverage l rnd head es) w = (n, w')"
    by (simp add: wire_ops_def wire_record_coverage_def)
  from c keeps_world_ops(5) show "(wire_up w \<longrightarrow> wire_up w') \<and> wire_findings w' = wire_findings w \<and>
      (n = 0 \<and> wire_coverage w' = wire_coverage w
       \<or> (wire_up w \<longrightarrow> n = length es) \<and> covers l rnd head es (wire_coverage w) (wire_coverage w'))"
  proof (cases rule: call_cases)
    case (arrived t y t')
    from record_coverage_effect [OF arrived(2)] arrived show ?thesis by auto
  qed auto
next
  fix l files w n w'
  assume e: "lo_expire_coverage wire_ops l files w = (n, w')"
  show "(wire_up w \<longrightarrow> wire_up w') \<and> wire_findings w' = wire_findings w \<and>
      expires l (wire_coverage w) (wire_coverage w') \<and>
      (\<forall>fs. files = StrSeq fs \<longrightarrow> wire_up w
         \<longrightarrow> (\<forall>r \<in> set (wire_coverage w'). \<not> expire_hits l (Some fs) r))"
  proof (cases files)
    case (BareStr b)
    with e have "w' = w" by (simp add: wire_ops_def wire_expire_coverage_def guarded_def)
    with BareStr show ?thesis by (simp add: expires_refl)
  next
    case (StrSeq gs)
    with e have c: "wire_call 0 (gs = []) (expire_coverage l (Some (StrSeq gs))) w = (n, w')"
      by (simp add: wire_ops_def wire_expire_coverage_def)
    from c keeps_world_ops(6) show ?thesis
    proof (cases rule: call_cases)
      case (arrived t y t')
      from expire_effect [OF arrived(2)] arrived StrSeq show ?thesis by simp
    next
      case lost
      with StrSeq show ?thesis by (auto simp: expires_refl expire_hits_def)
    qed
  qed
next
  fix l w ol w'
  assume "lo_open_findings wire_ops l w = (ol, w')"
  then have c: "wire_call empty_open_ledger False (open_findings l MAX_OPEN_FINDINGS) w = (ol, w')"
    by (simp add: wire_ops_def wire_open_findings_def)
  show "(wire_up w \<longrightarrow> wire_up w') \<and> wire_findings w' = wire_findings w \<and> wire_coverage w' = wire_coverage w \<and>
      (\<exists>rows. ol_rows ol = map (\<lambda>r. \<lparr>sf_id = fr_id r, sf_prior = prior_of_row r\<rparr>) rows
         \<and> set rows \<subseteq> {r \<in> set (wire_findings w). fr_lane r = l \<and> fr_status r = ''open''}
         \<and> (distinct (wire_findings w) \<longrightarrow> distinct rows) \<and> 0 \<le> ol_truncated ol)"
  proof (rule read_law [OF c keeps_world_ops(7)])
    show "\<exists>rows. ol_rows empty_open_ledger = map (\<lambda>r. \<lparr>sf_id = fr_id r, sf_prior = prior_of_row r\<rparr>) rows
         \<and> set rows \<subseteq> {r \<in> set (wire_findings w). fr_lane r = l \<and> fr_status r = ''open''}
         \<and> (distinct (wire_findings w) \<longrightarrow> distinct rows) \<and> 0 \<le> ol_truncated empty_open_ledger"
      by (simp add: empty_open_ledger_def)
  qed (drule open_effect, simp add: same_tables_def)
next
  fix l w rows w'
  assume "lo_settled_findings wire_ops l w = (rows, w')"
  then have c: "wire_call [] False (settled_findings l MAX_SETTLED_FINDINGS) w = (rows, w')"
    by (simp add: wire_ops_def wire_settled_findings_def)
  show "(wire_up w \<longrightarrow> wire_up w') \<and> wire_findings w' = wire_findings w \<and> wire_coverage w' = wire_coverage w \<and>
      (\<forall>x \<in> set rows. \<exists>r \<in> set (wire_findings w). sd_id x = fr_id r \<and> sd_file x = fr_file r
         \<and> sd_title x = fr_title r \<and> fr_lane r = l \<and> fr_status r \<in> set REOPENABLE_STATUSES)"
    by (rule read_law [OF c keeps_world_ops(8)]) (drule settled_effect, simp_all add: same_tables_def)
next
  fix l w cs w'
  assume "lo_live_coverage wire_ops l w = (cs, w')"
  then have c: "wire_call [] False (live_coverage l MAX_LIVE_COVERAGE) w = (cs, w')"
    by (simp add: wire_ops_def wire_live_coverage_def)
  have "(wire_up w \<longrightarrow> wire_up w') \<and> wire_findings w' = wire_findings w \<and> wire_coverage w' = wire_coverage w \<and> True"
    by (rule read_law [OF c keeps_world_ops(9)]) (drule live_effect, simp_all add: same_tables_def)
  then show "(wire_up w \<longrightarrow> wire_up w') \<and> wire_findings w' = wire_findings w \<and> wire_coverage w' = wire_coverage w"
    by simp
next
  fix l w k w'
  assume "lo_next_round wire_ops l w = (k, w')"
  then have c: "wire_call 1 False (next_round l) w = (k, w')"
    by (simp add: wire_ops_def wire_next_round_def)
  have "(wire_up w \<longrightarrow> wire_up w') \<and> wire_findings w' = wire_findings w \<and> wire_coverage w' = wire_coverage w \<and> True"
    by (rule read_law [OF c keeps_world_ops(10)]) (drule next_round_effect, simp_all add: same_tables_def)
  then show "(wire_up w \<longrightarrow> wire_up w') \<and> wire_findings w' = wire_findings w \<and> wire_coverage w' = wire_coverage w"
    by simp
qed

end
