(* ===== verification/Ledger_Refinement.thy ===== *)
theory Ledger_Refinement
  imports Transport
begin

text \<open>
  The round's policy run on two transports. The locale \<open>ledger_sim\<close> says that every operation of
  one transport answers as the operation of the other and keeps the states related; from it the
  whole of \<open>carry_in\<close> and \<open>settle\<close> agree. It is interpreted on the wire, while it is up, against
  the store behind it.
\<close>

section \<open>Simulation\<close>

definition agree :: "('s \<Rightarrow> 't \<Rightarrow> bool) \<Rightarrow> 'a \<times> 's \<Rightarrow> 'a \<times> 't \<Rightarrow> bool" where
  "agree R p q \<longleftrightarrow> fst p = fst q \<and> R (snd p) (snd q)"

lemma agree_pair [simp]: "agree R (x, s) (y, t) \<longleftrightarrow> x = y \<and> R s t"
  by (simp add: agree_def)

lemma agreeE:
  assumes "agree R p q"
  obtains x s t where "p = (x, s)" "q = (x, t)" "R s t"
  using assms by (cases p; cases q) auto

locale ledger_sim =
  fixes ops :: "'s ledger_ops" and ops' :: "'t ledger_ops" and R :: "'s \<Rightarrow> 't \<Rightarrow> bool"
  assumes transition_sim: "R s t \<Longrightarrow>
      agree R (lo_transition ops l i st reason s) (lo_transition ops' l i st reason t)"
    and reopen_sim: "R s t \<Longrightarrow> agree R (lo_reopen ops l i reason s) (lo_reopen ops' l i reason t)"
    and touch_sim: "R s t \<Longrightarrow>
      agree R (lo_touch_findings ops l ids s) (lo_touch_findings ops' l ids t)"
    and record_sim: "R s t \<Longrightarrow>
      agree R (lo_record_findings ops l rnd head fs s) (lo_record_findings ops' l rnd head fs t)"
    and cover_sim: "R s t \<Longrightarrow>
      agree R (lo_record_coverage ops l rnd head es s) (lo_record_coverage ops' l rnd head es t)"
    and expire_sim: "R s t \<Longrightarrow>
      agree R (lo_expire_coverage ops l (StrSeq gs) s) (lo_expire_coverage ops' l (StrSeq gs) t)"
    and open_sim: "R s t \<Longrightarrow> agree R (lo_open_findings ops l s) (lo_open_findings ops' l t)"
    and settled_sim: "R s t \<Longrightarrow>
      agree R (lo_settled_findings ops l s) (lo_settled_findings ops' l t)"
    and live_sim: "R s t \<Longrightarrow> agree R (lo_live_coverage ops l s) (lo_live_coverage ops' l t)"
    and round_sim: "R s t \<Longrightarrow> agree R (lo_next_round ops l s) (lo_next_round ops' l t)"

context ledger_sim
begin

lemma retire_loop_sim:
  "R s t \<Longrightarrow> agree R (retire_loop ops l gone head rs s) (retire_loop ops' l gone head rs t)"
proof (induction rs arbitrary: s t)
  case (Cons r rs)
  show ?case
  proof (cases "gone (pf_file (sf_prior r))")
    case True
    let ?why = "''file absent from the tree at '' @ head"
    from transition_sim [OF Cons.prems, of l "sf_id r" "''stale''" ?why]
    show ?thesis using True Cons.IH by (auto elim!: agreeE)
  next
    case False
    then show ?thesis using Cons.IH [OF Cons.prems] by (auto elim!: agreeE)
  qed
qed simp

lemma retire_missing_sim:
  "R s t \<Longrightarrow> agree R (retire_missing ops fs l rs root head s) (retire_missing ops' fs l rs root head t)"
  by (auto simp: retire_missing_def retire_loop_sim split: option.split)

lemma carried_coverage_sim:
  assumes "R s t"
  shows "agree R (carried_coverage ops fs l root s) (carried_coverage ops' fs l root t)"
proof -
  from live_sim [OF assms] obtain rows s1 t1 where
    1: "lo_live_coverage ops l s = (rows, s1)" "lo_live_coverage ops' l t = (rows, t1)" "R s1 t1"
    by (rule agreeE)
  show ?thesis
  proof (cases "tree_root fs root")
    case None
    with 1 show ?thesis by (simp add: carried_coverage_def Let_def)
  next
    case (Some p)
    obtain base real_base where p: "p = (base, real_base)" by (rule prod.exhaust)
    let ?gone = "sorted_list_of_set
        (set (filter (is_gone fs base real_base) (map pc_file (filter retraceable rows))))"
    from expire_sim [OF 1(3), of l ?gone] obtain n s2 t2 where
      2: "lo_expire_coverage ops l (StrSeq ?gone) s1 = (n, s2)"
        "lo_expire_coverage ops' l (StrSeq ?gone) t1 = (n, t2)" "R s2 t2"
      by (rule agreeE)
    from 1 2 Some p show ?thesis
      by (simp add: carried_coverage_def Let_def
          del: set_filter set_map sorted_list_of_set_eq_Nil_iff)
  qed
qed

lemma carry_in_sim:
  assumes "R s t"
  shows "agree R (carry_in ops fs l root head (StrSeq touched) cl fl s)
    (carry_in ops' fs l root head (StrSeq touched) cl fl t)"
proof -
  let ?targets = "sorted_list_of_set (set touched)"
  let ?open = "\<lambda>ops s. if fl
      then (let (opened, sa) = lo_open_findings ops l s;
                (live, sb) = retire_missing ops fs l (ol_rows opened) root head sa
            in ((live, int (length (ol_rows opened)) + ol_truncated opened, ol_truncated opened), sb))
      else (([], 0, 0), s)"
  let ?cover = "\<lambda>ops s. if cl then carried_coverage ops fs l root s else (([], 0, 0), s)"
  have opened: "agree R (?open ops s) (?open ops' t)" if "R s t" for s t
  proof (cases fl)
    case True
    from open_sim [OF that] obtain ol s1 t1 where
      1: "lo_open_findings ops l s = (ol, s1)" "lo_open_findings ops' l t = (ol, t1)" "R s1 t1"
      by (rule agreeE)
    from retire_missing_sim [OF 1(3)] obtain live s2 t2 where
      "retire_missing ops fs l (ol_rows ol) root head s1 = (live, s2)"
      "retire_missing ops' fs l (ol_rows ol) root head t1 = (live, t2)" "R s2 t2" by (rule agreeE)
    with 1 True show ?thesis by simp
  qed (simp add: that)
  from expire_sim [OF assms, of l ?targets] obtain n s1 t1 where
    1: "lo_expire_coverage ops l (StrSeq ?targets) s = (n, s1)"
      "lo_expire_coverage ops' l (StrSeq ?targets) t = (n, t1)" "R s1 t1" by (rule agreeE)
  from opened [OF 1(3)] obtain o2 s2 t2 where
    2: "?open ops s1 = (o2, s2)" "?open ops' t1 = (o2, t2)" "R s2 t2" by (rule agreeE)
  have "agree R (?cover ops s2) (?cover ops' t2)" using carried_coverage_sim [OF 2(3)] 2(3) by simp
  then obtain c3 s3 t3 where
    3: "?cover ops s2 = (c3, s3)" "?cover ops' t2 = (c3, t3)" "R s3 t3" by (rule agreeE)
  from round_sim [OF 3(3), of l] obtain k s4 t4 where
    4: "lo_next_round ops l s3 = (k, s4)" "lo_next_round ops' l t3 = (k, t4)" "R s4 t4" by (rule agreeE)
  obtain live window trunc where o2: "o2 = (live, window, trunc)" by (rule prod_cases3)
  obtain cov hollow retired where c3: "c3 = (cov, hollow, retired)" by (rule prod_cases3)
  show ?thesis
    unfolding carry_in_def expiry_targets_def strings.case Let_def 1(1,2) prod.case
    by (simp only: 2(1,2) [unfolded Let_def] 3(1,2) 4(1,2) prod.case o2 c3 agree_pair 4(3))
qed

lemma apply_verdicts_sim:
  "R s t \<Longrightarrow> agree R (apply_verdicts ops rows l es v s) (apply_verdicts ops' rows l es v t)"
proof (induction es arbitrary: v s t)
  case (Cons e es)
  show ?case
  proof (cases "map_of rows (pfs_id e)")
    case None
    then show ?thesis using Cons by simp
  next
    case (Some row_id)
    from transition_sim [OF Cons.prems] obtain b s1 t1 where
      "lo_transition ops l row_id (pfs_status e) (strip (pfs_reason e)) s = (b, s1)"
      "lo_transition ops' l row_id (pfs_status e) (strip (pfs_reason e)) t = (b, t1)" "R s1 t1"
      by (rule agreeE)
    with Some Cons show ?thesis by (simp add: Let_def)
  qed
qed simp

lemma match_finding_sim:
  assumes "R s t"
  shows "agree R (match_finding ops l rnd f (m, s)) (match_finding ops' l rnd f (m, t))"
proof (cases "map_of (ms_cand m) (finding_claim f)")
  case None
  then show ?thesis using assms by (simp add: match_finding_def Let_def split: option.split)
next
  case (Some row)
  from reopen_sim [OF assms, of l "sd_id row" "reopen_reason row rnd"] obtain b s1 t1 where
    "lo_reopen ops l (sd_id row) (reopen_reason row rnd) s = (b, s1)"
    "lo_reopen ops' l (sd_id row) (reopen_reason row rnd) t = (b, t1)" "R s1 t1"
    by (rule agreeE)
  with Some assms show ?thesis by (simp add: match_finding_def Let_def split: option.split)
qed

lemma fold_match_sim:
  "R s t \<Longrightarrow> agree R (fold (match_finding ops l rnd) fs (m, s)) (fold (match_finding ops' l rnd) fs (m, t))"
proof (induction fs arbitrary: m s t)
  case (Cons f fs)
  from match_finding_sim [OF Cons.prems, of l rnd f m] obtain m1 s1 t1 where
    "match_finding ops l rnd f (m, s) = (m1, s1)" "match_finding ops' l rnd f (m, t) = (m1, t1)" "R s1 t1"
    by (rule agreeE)
  with Cons.IH [OF this(3)] show ?case by simp
qed simp

lemma settle_sim:
  assumes "R s t"
  shows "agree R (settle ops c l head ps fs es cl fl s) (settle ops' c l head ps fs es cl fl t)"
proof -
  let ?verdicts = "if fl then accepted_status (cs_state c) ps else []"
  let ?start = "\<lparr>vs_touch = [], vs_closed = 0, vs_settled = {}\<rparr>"
  from apply_verdicts_sim [OF assms] obtain v s1 t1 where
    1: "apply_verdicts ops (cs_rows c) l ?verdicts ?start s = (v, s1)"
      "apply_verdicts ops' (cs_rows c) l ?verdicts ?start t = (v, t1)" "R s1 t1" by (rule agreeE)
  let ?cand = "\<lambda>ops s. if fs \<noteq> [] then reopen_candidates ops l s else ([], s)"
  have "agree R (?cand ops s1) (?cand ops' t1)"
    using settled_sim [OF 1(3), of l] 1(3) by (auto simp: reopen_candidates_def elim!: agreeE)
  then obtain d s2 t2 where 2: "?cand ops s1 = (d, s2)" "?cand ops' t1 = (d, t2)" "R s2 t2"
    by (rule agreeE)
  let ?m = "\<lparr>ms_open = still_open_rows c (vs_settled v), ms_cand = d, ms_fresh = [],
      ms_touch = vs_touch v, ms_deduped = [], ms_reopened = []\<rparr>"
  from fold_match_sim [OF 2(3)] obtain m s3 t3 where
    3: "fold (match_finding ops l (cs_round c)) fs (?m, s2) = (m, s3)"
      "fold (match_finding ops' l (cs_round c)) fs (?m, t2) = (m, t3)" "R s3 t3" by (rule agreeE)
  from touch_sim [OF 3(3)] obtain n s4 t4 where
    4: "lo_touch_findings ops l (ms_touch m) s3 = (n, s4)"
      "lo_touch_findings ops' l (ms_touch m) t3 = (n, t4)" "R s4 t4" by (rule agreeE)
  from record_sim [OF 4(3)] obtain k s5 t5 where
    5: "lo_record_findings ops l (cs_round c) head (map snd (ms_fresh m)) s4 = (k, s5)"
      "lo_record_findings ops' l (cs_round c) head (map snd (ms_fresh m)) t4 = (k, t5)" "R s5 t5"
    by (rule agreeE)
  have "R (if fl then s5 else s1) (if fl then t5 else t1)" using 1(3) 5(3) by simp
  from cover_sim [OF this] obtain j s6 t6 where
    6: "lo_record_coverage ops l (cs_round c) head (keyed es) (if fl then s5 else s1) = (j, s6)"
      "lo_record_coverage ops' l (cs_round c) head (keyed es) (if fl then t5 else t1) = (j, t6)" "R s6 t6"
    by (rule agreeE)
  show ?thesis
    using 1 2 3 4 5 6 by (cases fl; cases cl) (simp_all add: settle_def Let_def del: fold.simps)
qed

end

section \<open>The wire, while it is up, is the store\<close>

definition carries :: "wire \<Rightarrow> store \<Rightarrow> bool" where
  "carries w s \<longleftrightarrow> wire_up w \<and> wr_store w = s"

lemma wire_call_carries:
  assumes "carries w s" "keeps_world op" and "nothing \<Longrightarrow> op s = (neutral, s)"
  shows "agree carries (wire_call neutral nothing op w) (op s)"
proof -
  obtain y s' where o: "op s = (y, s')" by fastforce
  have up: "wire_up w" and s: "wr_store w = s" using assms(1) by (simp_all add: carries_def)
  from up have su: "st_enabled s" "\<forall>n. st_answers s n" using s by (auto simp: wire_up_def store_up_def)
  have kw: "st_enabled s' = st_enabled s" "st_answers s' = st_answers s"
    using assms(2) o by (auto simp: keeps_world_def same_world_def)
  show ?thesis
  proof (cases "wr_url w = ''''")
    case True
    with up have "wr_local_db w" by (simp add: wire_up_def)
    then have same: "s\<lparr>st_enabled := wr_local_db w\<rparr> = s" using su by simp
    have "s'\<lparr>st_enabled := st_enabled s\<rparr> = s'" using kw(1) by simp
    then have "wire_call neutral nothing op w = (y, w\<lparr>wr_store := s'\<rparr>)"
      using True o same s by (simp add: wire_call_def remote_def local_branch_def guarded_def)
    moreover have "wire_up (w\<lparr>wr_store := s'\<rparr>)"
      using up kw s by (simp add: wire_up_def store_up_def)
    ultimately show ?thesis using o by (simp add: carries_def)
  next
    case False
    with up have r: "remote w \<noteq> ''''" "wr_network w (wr_requests w) = Answered"
      by (simp_all add: wire_up_def remote_def)
    show ?thesis
    proof (cases nothing)
      case True
      with assms(1,3) r(1) show ?thesis by (simp add: wire_call_def guarded_def)
    next
      case False
      let ?v = "w\<lparr>wr_requests := Suc (wr_requests w), wr_store := s'\<rparr>"
      have "wire_call neutral nothing op w = (y, ?v)"
        using False r o s by (simp add: wire_call_def request_def guarded_def on_store_def Let_def)
      moreover have "wire_up ?v" using up kw s by (simp add: wire_up_def store_up_def)
      ultimately show ?thesis using o by (simp add: carries_def)
    qed
  qed
qed

lemma nothing_to_send:
  "touch_findings l (StrSeq []) s = (0, s)" "record_findings l rnd head [] s = (0, s)"
  "record_coverage l rnd head [] s = (0, s)" "expire_coverage l (Some (StrSeq [])) s = (0, s)"
  by (simp_all add: touch_findings_def record_findings_def record_coverage_def expire_coverage_def
      best_effort_def pure_result_def)

interpretation wire_sim: ledger_sim wire_ops local_ops carries
proof
  fix w s l ids
  assume c: "carries w s"
  show "agree carries (lo_touch_findings wire_ops l ids w) (lo_touch_findings local_ops l ids s)"
    using wire_call_carries [OF c keeps_world_ops(3), where nothing = False and neutral = 0]
      wire_call_carries [OF c keeps_world_ops(3), where nothing = "ids = []" and neutral = 0]
    by (auto simp: wire_ops_def local_ops_def wire_touch_findings_def nothing_to_send)
qed (simp_all add: wire_ops_def local_ops_def local_expire_coverage_def wire_transition_def
    wire_reopen_def wire_record_findings_def wire_record_coverage_def wire_expire_coverage_def
    wire_open_findings_def wire_settled_findings_def wire_live_coverage_def wire_next_round_def
    wire_call_carries keeps_world_ops nothing_to_send)

section \<open>The latch\<close>

definition transport_failure :: "delivery \<Rightarrow> bool" where
  "transport_failure d \<longleftrightarrow> d = Undelivered \<or> d = AnswerLost"

text \<open>Since request number \<open>n0\<close>, only the last request may have met a transport failure, and then
  the latch is closed; no request at all was made if it was closed (\<open>d\<close>) from the start.\<close>

definition latched :: "bool \<Rightarrow> nat \<Rightarrow> (nat \<Rightarrow> delivery) \<Rightarrow> wire \<Rightarrow> bool" where
  "latched d n0 net w \<longleftrightarrow> wr_network w = net \<and> n0 \<le> wr_requests w
     \<and> (d \<longrightarrow> wr_down w \<and> wr_requests w = n0)
     \<and> (\<forall>n. n0 \<le> n \<and> n < wr_requests w \<and> transport_failure (net n)
          \<longrightarrow> Suc n = wr_requests w \<and> wr_down w)"

definition same_latched :: "bool \<Rightarrow> nat \<Rightarrow> (nat \<Rightarrow> delivery) \<Rightarrow> wire \<Rightarrow> wire \<Rightarrow> bool" where
  "same_latched d n0 net w v \<longleftrightarrow> v = w \<and> latched d n0 net w"

lemma latched_same:
  "latched d n0 net w \<Longrightarrow> wr_network v = wr_network w \<Longrightarrow> wr_requests v = wr_requests w
   \<Longrightarrow> wr_down v = wr_down w \<Longrightarrow> latched d n0 net v"
  by (simp add: latched_def)

lemma latched_next:
  assumes "latched d n0 net w" "\<not> wr_down w" "wr_network v = wr_network w"
    "wr_requests v = Suc (wr_requests w)" "transport_failure (net (wr_requests w)) \<Longrightarrow> wr_down v"
  shows "latched d n0 net v"
  using assms unfolding latched_def by (auto simp: less_Suc_eq)

lemma wire_call_latched:
  assumes "latched d n0 net w"
  shows "latched d n0 net (snd (wire_call neutral nothing op w))"
proof -
  consider (loc) "remote w = ''''" | (skip) "remote w \<noteq> ''''" nothing | (req) "remote w \<noteq> ''''" "\<not> nothing"
    by blast
  then show ?thesis
  proof cases
    case loc
    then show ?thesis
      by (auto simp: wire_call_def guarded_def local_branch_def split: prod.split intro: latched_same [OF assms])
  next
    case skip
    with assms show ?thesis by (simp add: wire_call_def guarded_def)
  next
    case req
    then have open_latch: "\<not> wr_down w" by (auto simp: remote_def split: if_splits)
    have net: "wr_network w = net" using assms by (simp add: latched_def)
    show ?thesis
      by (rule latched_next [OF assms open_latch])
        (use req net in \<open>auto simp: wire_call_def request_def guarded_def on_store_def mark_down_def
           transport_failure_def Let_def split: delivery.splits prod.splits\<close>)
  qed
qed

lemma agree_self: "agree (same_latched d n0 net) p p \<longleftrightarrow> latched d n0 net (snd p)"
  by (simp add: agree_def same_latched_def)

interpretation latch: ledger_sim wire_ops wire_ops "same_latched d n0 net" for d n0 net
  by unfold_locales
    (auto simp: wire_ops_def wire_transition_def
      wire_reopen_def wire_record_findings_def wire_record_coverage_def wire_expire_coverage_def
      wire_open_findings_def wire_settled_findings_def wire_live_coverage_def wire_next_round_def
      wire_touch_findings_def agree_self same_latched_def wire_call_latched split: if_split)

section \<open>A round over the wire\<close>

definition sample_wire :: "(nat \<Rightarrow> delivery) \<Rightarrow> wire" where
  "sample_wire net =
     \<lparr>wr_url = ''http://s'', wr_local_db = False, wr_down = False, wr_requests = 0,
      wr_network = net, wr_store = sample_store\<rparr>"

definition sample_wire_carry :: "(nat \<Rightarrow> delivery) \<Rightarrow> (carried_state \<times> carry_note list) \<times> wire" where
  "sample_wire_carry net =
     carry_in wire_ops sample_fs sample_lane ''/w'' ''h2'' (StrSeq []) False True (sample_wire net)"

definition sample_wire_round :: "(nat \<Rightarrow> delivery) \<Rightarrow> settlement \<times> wire" where
  "sample_wire_round net =
     settle wire_ops (fst (fst (sample_wire_carry net))) sample_lane ''h2'' sample_status
       sample_findings [] False True (snd (sample_wire_carry net))"

lemma sample_wire_carry_eq:
  "carry_in wire_ops sample_fs sample_lane ''/w'' ''h2'' (StrSeq []) False True (sample_wire net) =
     ((fst (fst (sample_wire_carry net)), snd (fst (sample_wire_carry net))), snd (sample_wire_carry net))"
  by (simp add: sample_wire_carry_def)

lemma sample_wire_round_eq:
  "settle wire_ops (fst (fst (sample_wire_carry net))) sample_lane ''h2'' sample_status
     sample_findings [] False True (snd (sample_wire_carry net)) =
     (fst (sample_wire_round net), snd (sample_wire_round net))"
  by (simp add: sample_wire_round_def)

text \<open>C7: the wire refines the store. While the transport answers, a whole round run through the
  client (\<open>carry_in\<close>, then \<open>settle\<close> on any review) gives the carried state, the notes and the
  settlement of the same round run directly on the store behind it, and leaves that store in the
  same state.\<close>

theorem wire_round_refines_store:
  assumes "wire_up w"
    and "carry_in wire_ops fs l root head (StrSeq touched) cl fl w = ((c, notes), w1)"
    and "settle wire_ops c l head' ps findings examined cl' fl' w1 = (se, w2)"
  shows "wire_up w2 \<and>
    (\<exists>s1. carry_in local_ops fs l root head (StrSeq touched) cl fl (wr_store w) = ((c, notes), s1)
       \<and> settle local_ops c l head' ps findings examined cl' fl' s1 = (se, wr_store w2))"
proof -
  have "carries w (wr_store w)" using assms(1) by (simp add: carries_def)
  from wire_sim.carry_in_sim [OF this, of fs l root head touched cl fl] assms(2) obtain s1 where
    1: "carry_in local_ops fs l root head (StrSeq touched) cl fl (wr_store w) = ((c, notes), s1)"
      "carries w1 s1" by (auto elim!: agreeE)
  from wire_sim.settle_sim [OF 1(2), of c l head' ps findings examined cl' fl'] assms(3)
  have "settle local_ops c l head' ps findings examined cl' fl' s1 = (se, wr_store w2) \<and> wire_up w2"
    by (auto simp: carries_def elim!: agreeE)
  with 1(1) show ?thesis by blast
qed

theorem wire_round_refines_store_witness:
  "wire_up (snd (sample_wire_round (\<lambda>_. Answered)))
   \<and> (\<exists>s1. settle local_ops (fst (fst (sample_wire_carry (\<lambda>_. Answered)))) sample_lane ''h2'' sample_status
        sample_findings [] False True s1
        = (fst (sample_wire_round (\<lambda>_. Answered)), wr_store (snd (sample_wire_round (\<lambda>_. Answered)))))"
proof -
  have up: "wire_up (sample_wire (\<lambda>_. Answered))"
    using sample_up by (simp add: wire_up_def sample_wire_def)
  show ?thesis using wire_round_refines_store [OF up sample_wire_carry_eq sample_wire_round_eq] by blast
qed

text \<open>C33: the latch bounds the cost of a dead sidecar. Over a whole round, on any network, at most
  one request meets a transport failure: after it the rest of the round makes no request.\<close>

theorem round_waits_once:
  "case carry_in wire_ops fs l root head (StrSeq touched) cl fl w of ((c, notes), w1) \<Rightarrow>
     case settle wire_ops c l head' ps findings examined cl' fl' w1 of (se, w2) \<Rightarrow>
       wr_network w2 = wr_network w \<and> wr_requests w \<le> wr_requests w2
       \<and> (if wr_down w then wr_requests w2 = wr_requests w
          else card {n. wr_requests w \<le> n \<and> n < wr_requests w2 \<and> transport_failure (wr_network w n)} \<le> 1)"
proof -
  obtain c ns w1 where 1: "carry_in wire_ops fs l root head (StrSeq touched) cl fl w = ((c, ns), w1)"
    by (metis surj_pair)
  obtain se w2 where 2: "settle wire_ops c l head' ps findings examined cl' fl' w1 = (se, w2)"
    by (metis surj_pair)
  let ?d = "wr_down w" and ?net = "wr_network w" and ?n0 = "wr_requests w"
  have "same_latched ?d ?n0 ?net w w" by (auto simp: same_latched_def latched_def)
  then have "same_latched ?d ?n0 ?net w1 w1"
    using latch.carry_in_sim [of ?d ?n0 ?net w w fs l root head touched cl fl] 1 by simp
  then have "same_latched ?d ?n0 ?net w2 w2"
    using latch.settle_sim [of ?d ?n0 ?net w1 w1 c l head' ps findings examined cl' fl'] 2 by simp
  then have l: "latched ?d ?n0 ?net w2" by (simp add: same_latched_def)
  then have "{n. ?n0 \<le> n \<and> n < wr_requests w2 \<and> transport_failure (?net n)} \<subseteq> {wr_requests w2 - 1}"
    by (auto simp: latched_def)
  from card_mono [OF _ this]
  have "card {n. ?n0 \<le> n \<and> n < wr_requests w2 \<and> transport_failure (?net n)} \<le> 1" by simp
  with l 1 2 show ?thesis by (simp add: latched_def)
qed

text \<open>Whatever the network does to its requests (lost, refused, answered with garbage, executed
  and the answer lost), a round over the wire leaves the findings and coverage rows of every other
  lane as they were, and \<open>settle\<close> changes the status of a row, other than back to \<open>open\<close>, only
  by an accepted verdict of the round on it.\<close>

theorem wire_round_is_safe:
  assumes "carry_in wire_ops fs l root head touched cl fl w = ((c, notes), w1)"
    and "settle wire_ops c l head' ps findings examined cl' fl' w1 = (se, w2)"
    and "m \<noteq> l"
  shows "filter (\<lambda>r. fr_lane r = m) (wire_findings w2) = filter (\<lambda>r. fr_lane r = m) (wire_findings w)
    \<and> filter (\<lambda>r. cr_lane r = m) (wire_coverage w2) = filter (\<lambda>r. cr_lane r = m) (wire_coverage w)
    \<and> list_all (\<lambda>(r, r'). fr_status r' = fr_status r \<or> fr_status r' = ''open''
         \<or> judged (cs_rows c) (accepted_status (cs_state c) ps) (fr_id r) (fr_status r'))
       (zip (wire_findings w1) (wire_findings w2))"
proof -
  note both = rs.carry_in_steps [OF assms(1), unfolded rs.steps_def]
    rs.settle_steps [OF assms(2), unfolded rs.steps_def]
  let ?J = "judged (cs_rows c) (accepted_status (cs_state c) ps)"
  have "filter (\<lambda>r. fr_lane r = m) (wire_findings w2) = filter (\<lambda>r. fr_lane r = m) (wire_findings w)"
    using both by (elim conjE) (simp only: grows_other_lanes [OF _ assms(3)])
  moreover have "filter (\<lambda>r. cr_lane r = m) (wire_coverage w2) = filter (\<lambda>r. cr_lane r = m) (wire_coverage w)"
    using both by (elim conjE) (simp only: cover_grows_other_lanes [OF _ assms(3)])
  moreover have "moves ?J l r r'" if "(r, r') \<in> set (zip (wire_findings w1) (wire_findings w2))" for r r'
  proof -
    from that obtain i where "i < length (wire_findings w1)" "r = wire_findings w1 ! i" "r' = wire_findings w2 ! i"
      by (auto simp: in_set_zip)
    with grows_nth [OF both(2) [THEN conjunct1]] show ?thesis by simp
  qed
  ultimately show ?thesis by (auto simp: moves_def list_all_iff)
qed

definition flaky :: "nat \<Rightarrow> delivery" where
  "flaky n = (if n = 3 then Garbled else if n = 4 then AnswerLost else Answered)"

theorem wire_round_is_safe_witness:
  "filter (\<lambda>r. fr_lane r = (''o/r'', 7, ''b'')) (wire_findings (snd (sample_wire_round flaky))) =
     [sample_row (CHR ''e'') (''o/r'', 7, ''b'') ''a.py'' ''open'']
   \<and> wr_down (snd (sample_wire_round flaky))"
proof -
  have "wr_down (snd (sample_wire_round flaky))" by code_simp
  then show ?thesis
    using wire_round_is_safe [OF sample_wire_carry_eq sample_wire_round_eq, of "(''o/r'', 7, ''b'')" flaky]
    by (simp add: sample_lane_def sample_store_def sample_row_def sample_wire_def)
qed

end
