(* ===== verification/Diff.thy ===== *)
theory Diff
  imports Signals
begin

text \<open>
  \<open>parse_diff\<close> of \<open>sidecar/reviewer/checkout.py\<close>: the files of a unified diff and the lines of its
  new side that GitHub accepts a comment on. It is proved against the diff itself: a structured
  diff, rendered as git writes it, parses back to exactly its files and new-side lines.
\<close>

section \<open>The parser\<close>

text \<open>\<open>_HUNK_NEW_START_RE\<close>, applied with \<open>match\<close>.\<close>

definition HUNK_NEW_START_RE :: rx where
  "HUNK_NEW_START_RE = cats [Lit ''@@ '', lazy (Cls not_nl), Lit ''+'', Grp 1 (plus (Cls digit))]"

definition hunk_start :: "string \<Rightarrow> int option" where
  "hunk_start line = map_option (\<lambda>m. int (undigits 0 (group 1 m))) (match_at HUNK_NEW_START_RE None line)"

record diff_state =
  ds_files :: "string set"
  ds_positions :: "(string \<times> int) set"
  ds_path :: "string option"
  ds_new_line :: int
  ds_in_hunk :: bool

definition DIFF_FILE_PREFIX :: string where "DIFF_FILE_PREFIX = ''+++ b/''"

text \<open>One line of the loop.\<close>

definition diff_step :: "string \<Rightarrow> diff_state \<Rightarrow> diff_state" where
  "diff_step line st =
     (if startswith line ''diff --git '' then st\<lparr>ds_path := None, ds_in_hunk := False\<rparr>
      else if \<not> ds_in_hunk st \<and> startswith line DIFF_FILE_PREFIX
      then (let path = strip (drop (length DIFF_FILE_PREFIX) line)
            in st\<lparr>ds_path := Some path, ds_files := insert path (ds_files st)\<rparr>)
      else if startswith line ''@@''
      then (case hunk_start line of
              Some n \<Rightarrow> st\<lparr>ds_new_line := n, ds_in_hunk := True\<rparr>
            | None \<Rightarrow> st)
      else case ds_path st of
             None \<Rightarrow> st
           | Some path \<Rightarrow>
               if \<not> ds_in_hunk st then st
               else if startswith line [CHR 0x5C] then st
               else if line = '''' \<or> startswith line ''+'' \<or> startswith line '' ''
               then st\<lparr>ds_positions := insert (path, ds_new_line st) (ds_positions st),
                       ds_new_line := ds_new_line st + 1\<rparr>
               else st)"

definition diff_start :: diff_state where
  "diff_start = \<lparr>ds_files = {}, ds_positions = {}, ds_path = None, ds_new_line = 0, ds_in_hunk = False\<rparr>"

definition parse_diff :: "string \<Rightarrow> string set \<times> (string \<times> int) set" where
  "parse_diff diff =
     (let st = fold diff_step (splitlines diff) diff_start in (ds_files st, ds_positions st))"

definition parse_diff_positions :: "string \<Rightarrow> (string \<times> int) set" where
  "parse_diff_positions diff = snd (parse_diff diff)"

section \<open>Diffs\<close>

datatype diff_line = Context string | Added string | Removed string | NoNewline

record hunk =
  hk_old :: "nat \<times> nat option"
  hk_new :: "nat \<times> nat option"
  hk_section :: string
  hk_lines :: "diff_line list"

text \<open>A file of a diff: its header lines up to the name of its new side, which a deleted or a
  binary file does not have.\<close>

record file_diff =
  fd_header :: "string list"
  fd_target :: "string option"
  fd_hunks :: "hunk list"

fun line_text :: "diff_line \<Rightarrow> string" where
  "line_text (Context t) = '' '' @ t"
| "line_text (Added t) = ''+'' @ t"
| "line_text (Removed t) = ''-'' @ t"
| "line_text NoNewline = [CHR 0x5C] @ '' No newline at end of file''"

definition range_text :: "nat \<times> nat option \<Rightarrow> string" where
  "range_text r = digits (fst r) @ (case snd r of None \<Rightarrow> '''' | Some n \<Rightarrow> '','' @ digits n)"

definition hunk_texts :: "hunk \<Rightarrow> string list" where
  "hunk_texts h = (''@@ -'' @ range_text (hk_old h) @ '' +'' @ range_text (hk_new h) @ '' @@'' @ hk_section h)
     # map line_text (hk_lines h)"

definition file_texts :: "file_diff \<Rightarrow> string list" where
  "file_texts f = fd_header f @ (case fd_target f of None \<Rightarrow> [] | Some p \<Rightarrow> [''+++ b/'' @ p])
     @ concat (map hunk_texts (fd_hunks f))"

definition diff_text :: "file_diff list \<Rightarrow> string" where
  "diff_text fs = concat (map (\<lambda>l. l @ nl) (concat (map file_texts fs)))"

text \<open>What git writes: the header opens the file and is no file line or hunk; no text breaks a line.\<close>

definition unbroken :: "string \<Rightarrow> bool" where
  "unbroken s = list_all (\<lambda>c. \<not> line_break c) s"

definition line_ok :: "diff_line \<Rightarrow> bool" where
  "line_ok l = unbroken (line_text l)"

definition hunk_ok :: "hunk \<Rightarrow> bool" where
  "hunk_ok h = (unbroken (hk_section h) \<and> list_all line_ok (hk_lines h))"

definition header_ok :: "string \<Rightarrow> bool" where
  "header_ok l = (unbroken l \<and> \<not> startswith l ''diff --git '' \<and> \<not> startswith l ''+++ b/'' \<and> \<not> startswith l ''@@'')"

definition file_ok :: "file_diff \<Rightarrow> bool" where
  "file_ok f = ((case fd_header f of [] \<Rightarrow> False
        | l # ls \<Rightarrow> unbroken l \<and> startswith l ''diff --git '' \<and> list_all header_ok ls)
     \<and> (case fd_target f of None \<Rightarrow> True | Some p \<Rightarrow> unbroken p \<and> strip p = p)
     \<and> list_all hunk_ok (fd_hunks f))"

section \<open>The lines of the new side\<close>

fun on_new_side :: "diff_line \<Rightarrow> bool" where
  "on_new_side (Context t) = True"
| "on_new_side (Added t) = True"
| "on_new_side l = False"

definition new_size :: "hunk \<Rightarrow> nat" where
  "new_size h = length (filter on_new_side (hk_lines h))"

definition new_lines :: "hunk \<Rightarrow> int set" where
  "new_lines h = {int (fst (hk_new h)) ..< int (fst (hk_new h)) + int (new_size h)}"

definition anchors :: "file_diff list \<Rightarrow> (string \<times> int) set" where
  "anchors fs = {(p, n). \<exists>f \<in> set fs. \<exists>h \<in> set (fd_hunks f). fd_target f = Some p \<and> n \<in> new_lines h}"

definition targets :: "file_diff list \<Rightarrow> string set" where
  "targets fs = {p. \<exists>f \<in> set fs. fd_target f = Some p}"

section \<open>The hunk header\<close>

lemma digits_digit: "c \<in> set (digits n) \<Longrightarrow> digit c"
  using digits_not_break [of c n] by (simp add: digit_def less_eq_char_def)

lemma digits_ne: "digits n \<noteq> []"
  by (subst digits.simps) simp

lemma not_nl_digit: "digit c \<Longrightarrow> not_nl c"
  by (auto simp: digit_def not_nl_def less_eq_char_def)

lemma range_chars: "c \<in> set (range_text r) \<Longrightarrow> digit c \<or> c = CHR '',''"
  by (auto simp: range_text_def digits_digit split: option.splits)

lemma rest_advance_inside: "i < length p \<Longrightarrow> rest_of (advance i (c, p @ t), g) = drop i p @ t"
  by simp

lemma advance_whole: "p \<noteq> [] \<Longrightarrow> advance (length p) (c, p @ t) = (Some (last p), t)"
  by (simp add: advance_def)

lemma range_plain: "CHR ''+'' \<notin> set (range_text r)" "CHR 0x0A \<notin> set (range_text r)"
  using range_chars [of "CHR ''+''" r] range_chars [of "CHR 0x0A" r] by (auto simp: digit_def less_eq_char_def)

lemma hunk_start_header:
  "hunk_start (''@@ -'' @ range_text a @ '' +'' @ range_text b @ '' @@'' @ s) = Some (int (fst b))"
proof -
  let ?p = "''-'' @ range_text a @ '' ''"
  let ?after = "(case snd b of None \<Rightarrow> '''' | Some n \<Rightarrow> '','' @ digits n) @ '' @@'' @ s"
  let ?d = "digits (fst b)"
  let ?t = "''+'' @ ?d @ ?after"
  let ?num = "Grp 1 (plus (Cls digit))"
  have whole: "''@@ -'' @ range_text a @ '' +'' @ range_text b @ '' @@'' @ s = ''@@ '' @ ?p @ ?t"
    by (simp add: range_text_def [of b])
  have p: "\<forall>c \<in> set ?p. not_nl c" "CHR ''+'' \<notin> set ?p"
    using range_plain [of a] by (auto simp: not_nl_def)
  obtain d ds where d: "?d = d # ds" using digits_ne by (cases ?d) auto
  have dd: "digit d" "\<forall>c \<in> set ds. digit c" using digits_digit [of _ "fst b"] d by auto
  have stop: "?after \<noteq> []" "\<not> digit (hd ?after)"
    by (auto simp: digit_def less_eq_char_def split: option.split)
  have num: "\<exists>ys. ends ?num ((pv, ?d @ ?after), []) = ((Some (last ?d), ?after), [(1, ?d)]) # ys" for pv
  proof -
    obtain ys where "ends (star (Cls digit)) ((Some d, ds @ ?after), []) = (advance (length ds) (Some d, ds @ ?after), []) # ys"
      using star_first [OF dd(2), of ?after "Some d" "[]"] stop by blast
    moreover have "advance (length ds) (Some d, ds @ ?after) = (Some (last ?d), ?after)"
      using d by (cases ds rule: rev_cases) (auto simp: advance_def)
    ultimately have "ends (plus (Cls digit)) ((pv, ?d @ ?after), []) = ((Some (last ?d), ?after), []) # ys"
      using plus_step [of digit d pv "ds @ ?after" "[]"] dd(1) d by simp
    then show ?thesis by (simp add: set_group_def rest_of_def)
  qed
  have plus_num: "\<exists>ws. ends (Cat (Lit ''+'') ?num) ((pv, ?t), []) = ((Some (last ?d), ?after), [(1, ?d)]) # ws" for pv
    unfolding lit_cat using num [of "Some CHR ''+''"] by (simp add: advance_def)
  from lazy_first [OF p(1), of "Some CHR '' ''" ?t "[]"] obtain xs ys where
    lz: "ends (lazy (Cls not_nl)) ((Some CHR '' '', ?p @ ?t), []) =
      xs @ (advance (length ?p) (Some CHR '' '', ?p @ ?t), []) # ys"
    and xs: "set xs \<subseteq> {(advance i (Some CHR '' '', ?p @ ?t), []) | i. i < length ?p}" by blast
  have none: "ends (Cat (Lit ''+'') ?num) z = []" if "z \<in> set xs" for z
  proof -
    from that xs obtain i where i: "i < length ?p" "z = (advance i (Some CHR '' '', ?p @ ?t), [])" by blast
    have "rest_of z = drop i ?p @ ?t" unfolding i(2) by (rule rest_advance_inside [OF i(1)])
    moreover obtain c cs where "drop i ?p = c # cs" using i(1) by (metis drop_eq_Nil leD list.exhaust)
    moreover from this have "c \<in> set ?p" by (metis in_set_dropD list.set_intros(1))
    ultimately show ?thesis using p(2) by (auto simp: startswith_def guard_def)
  qed
  have adv: "advance (length ?p) (Some CHR '' '', ?p @ ?t) = (Some (last ?p), ?t)"
    by (rule advance_whole) simp
  from plus_num [of "Some (last ?p)"] obtain ws where
    "ends (Cat (Lit ''+'') ?num) (advance (length ?p) (Some CHR '' '', ?p @ ?t), []) =
      ((Some (last ?d), ?after), [(1, ?d)]) # ws" unfolding adv by blast
  from cat_first [OF lz none this] obtain ws2 where
    "ends (Cat (lazy (Cls not_nl)) (Cat (Lit ''+'') ?num)) ((Some CHR '' '', ?p @ ?t), []) =
      ((Some (last ?d), ?after), [(1, ?d)]) # ws2" by blast
  then have "ends HUNK_NEW_START_RE ((None, ''@@ '' @ ?p @ ?t), []) = ((Some (last ?d), ?after), [(1, ?d)]) # ws2"
    unfolding HUNK_NEW_START_RE_def cats.simps lit_cat by (simp add: advance_def)
  then show ?thesis
    unfolding whole hunk_start_def match_at_def by (simp add: group_def undigits_digits)
qed

section \<open>Parsing what git writes\<close>

lemma splitlines_lines:
  "list_all unbroken ls \<Longrightarrow> splitlines (concat (map (\<lambda>l. l @ nl) ls)) = ls"
proof (induction ls)
  case (Cons l ls)
  then have "splitlines_acc [] (l @ CHR 0x0A # concat (map (\<lambda>l. l @ nl) ls)) = (rev [] @ l) # splitlines_acc [] (concat (map (\<lambda>l. l @ nl) ls))"
    by (intro splitlines_acc_nl) (simp add: unbroken_def list_all_iff)
  with Cons show ?case by (simp add: splitlines_def nl_def)
qed (simp add: splitlines_def)

lemma startswith_Cons: "startswith (c # cs) (p # ps) \<longleftrightarrow> c = p \<and> startswith cs ps"
  by (simp add: startswith_def)

lemma startswith_append_self [simp]: "startswith (p @ t) p"
  by (simp add: startswith_def)

text \<open>Inside a hunk a content line is told apart by its first character alone.\<close>

lemma step_content:
  "diff_step (line_text l) \<lparr>ds_files = F, ds_positions = P, ds_path = Some p, ds_new_line = n, ds_in_hunk = True\<rparr> =
     (if on_new_side l
      then \<lparr>ds_files = F, ds_positions = insert (p, n) P, ds_path = Some p, ds_new_line = n + 1, ds_in_hunk = True\<rparr>
      else \<lparr>ds_files = F, ds_positions = P, ds_path = Some p, ds_new_line = n, ds_in_hunk = True\<rparr>)"
  by (cases l) (simp_all add: diff_step_def startswith_Cons)

lemma step_content_no_path:
  "diff_step (line_text l) \<lparr>ds_files = F, ds_positions = P, ds_path = None, ds_new_line = n, ds_in_hunk = True\<rparr> =
     \<lparr>ds_files = F, ds_positions = P, ds_path = None, ds_new_line = n, ds_in_hunk = True\<rparr>"
  by (cases l) (simp_all add: diff_step_def startswith_Cons)

lemma fold_content:
  "fold diff_step (map line_text ls)
     \<lparr>ds_files = F, ds_positions = P, ds_path = Some p, ds_new_line = n, ds_in_hunk = True\<rparr> =
   \<lparr>ds_files = F, ds_positions = P \<union> {p} \<times> {n ..< n + int (length (filter on_new_side ls))},
     ds_path = Some p, ds_new_line = n + int (length (filter on_new_side ls)), ds_in_hunk = True\<rparr>"
proof (induction ls arbitrary: P n)
  case (Cons l ls)
  have "insert n {n + 1 ..< n + 1 + k} = {n ..< n + (1 + k)}" if "0 \<le> k" for k :: int using that by auto
  then show ?case using Cons by (auto simp: step_content)
qed simp

lemma fold_content_no_path:
  "fold diff_step (map line_text ls)
     \<lparr>ds_files = F, ds_positions = P, ds_path = None, ds_new_line = n, ds_in_hunk = True\<rparr> =
   \<lparr>ds_files = F, ds_positions = P, ds_path = None, ds_new_line = n, ds_in_hunk = True\<rparr>"
  by (induction ls) (simp_all add: step_content_no_path)

lemma step_hunk_header:
  "diff_step (''@@ -'' @ range_text a @ '' +'' @ range_text b @ '' @@'' @ s) st =
     st\<lparr>ds_new_line := int (fst b), ds_in_hunk := True\<rparr>"
  using hunk_start_header [of a b s]
  by (simp add: diff_step_def DIFF_FILE_PREFIX_def startswith_Cons)

definition hunk_anchors :: "string option \<Rightarrow> hunk \<Rightarrow> (string \<times> int) set" where
  "hunk_anchors target h = (case target of None \<Rightarrow> {} | Some p \<Rightarrow> {p} \<times> new_lines h)"

lemma fold_hunk:
  "\<exists>n. fold diff_step (hunk_texts h)
     \<lparr>ds_files = F, ds_positions = P, ds_path = target, ds_new_line = m, ds_in_hunk = b\<rparr> =
   \<lparr>ds_files = F, ds_positions = P \<union> hunk_anchors target h, ds_path = target, ds_new_line = n, ds_in_hunk = True\<rparr>"
  by (cases target)
    (simp_all add: hunk_texts_def step_hunk_header fold_content fold_content_no_path hunk_anchors_def
      new_lines_def new_size_def del: append.simps)

lemma fold_hunks:
  "\<exists>n b'. fold diff_step (concat (map hunk_texts hs))
     \<lparr>ds_files = F, ds_positions = P, ds_path = target, ds_new_line = m, ds_in_hunk = b\<rparr> =
   \<lparr>ds_files = F, ds_positions = P \<union> (\<Union>h \<in> set hs. hunk_anchors target h), ds_path = target, ds_new_line = n, ds_in_hunk = b'\<rparr>"
proof (induction hs arbitrary: P m b)
  case (Cons h hs)
  obtain n where "fold diff_step (hunk_texts h)
     \<lparr>ds_files = F, ds_positions = P, ds_path = target, ds_new_line = m, ds_in_hunk = b\<rparr> =
   \<lparr>ds_files = F, ds_positions = P \<union> hunk_anchors target h, ds_path = target, ds_new_line = n, ds_in_hunk = True\<rparr>"
    using fold_hunk by blast
  with Cons.IH [of "P \<union> hunk_anchors target h" n True] show ?case by (auto simp: Un_assoc)
qed auto

lemma step_header:
  "header_ok l \<Longrightarrow> diff_step l \<lparr>ds_files = F, ds_positions = P, ds_path = None, ds_new_line = m, ds_in_hunk = False\<rparr> =
     \<lparr>ds_files = F, ds_positions = P, ds_path = None, ds_new_line = m, ds_in_hunk = False\<rparr>"
  by (simp add: diff_step_def header_ok_def DIFF_FILE_PREFIX_def)

lemma fold_header:
  "list_all header_ok ls \<Longrightarrow> fold diff_step ls \<lparr>ds_files = F, ds_positions = P, ds_path = None, ds_new_line = m, ds_in_hunk = False\<rparr> =
     \<lparr>ds_files = F, ds_positions = P, ds_path = None, ds_new_line = m, ds_in_hunk = False\<rparr>"
  by (induction ls) (simp_all add: step_header)

lemma step_target:
  "strip p = p \<Longrightarrow> diff_step (''+++ b/'' @ p) \<lparr>ds_files = F, ds_positions = P, ds_path = None, ds_new_line = m, ds_in_hunk = False\<rparr> =
     \<lparr>ds_files = insert p F, ds_positions = P, ds_path = Some p, ds_new_line = m, ds_in_hunk = False\<rparr>"
  by (simp add: diff_step_def DIFF_FILE_PREFIX_def startswith_Cons)

lemma fold_file:
  assumes "file_ok f"
  shows "\<exists>n t b. fold diff_step (file_texts f) st =
   \<lparr>ds_files = ds_files st \<union> set_option (fd_target f),
    ds_positions = ds_positions st \<union> (\<Union>h \<in> set (fd_hunks f). hunk_anchors (fd_target f) h),
    ds_path = t, ds_new_line = n, ds_in_hunk = b\<rparr>"
proof -
  from assms obtain l ls where f: "fd_header f = l # ls" "startswith l ''diff --git ''" "list_all header_ok ls"
    by (auto simp: file_ok_def split: list.splits)
  have open_file: "fold diff_step (fd_header f) st =
      \<lparr>ds_files = ds_files st, ds_positions = ds_positions st, ds_path = None, ds_new_line = ds_new_line st, ds_in_hunk = False\<rparr>"
    using f fold_header [OF f(3), of "ds_files st"] by (cases st) (simp add: diff_step_def)
  have target: "fold diff_step (case fd_target f of None \<Rightarrow> [] | Some p \<Rightarrow> [''+++ b/'' @ p])
      \<lparr>ds_files = ds_files st, ds_positions = ds_positions st, ds_path = None, ds_new_line = ds_new_line st, ds_in_hunk = False\<rparr> =
      \<lparr>ds_files = ds_files st \<union> set_option (fd_target f), ds_positions = ds_positions st, ds_path = fd_target f,
       ds_new_line = ds_new_line st, ds_in_hunk = False\<rparr>"
    using assms by (cases "fd_target f") (simp_all add: file_ok_def step_target del: append.simps)
  show ?thesis
    unfolding file_texts_def fold_append comp_apply open_file target
    using fold_hunks [of "fd_hunks f" "ds_files st \<union> set_option (fd_target f)" "ds_positions st" "fd_target f"] by blast
qed

lemma fold_files:
  assumes "list_all file_ok fs"
  shows "ds_files (fold diff_step (concat (map file_texts fs)) st) = ds_files st \<union> targets fs
    \<and> ds_positions (fold diff_step (concat (map file_texts fs)) st) = ds_positions st \<union> anchors fs"
  using assms
proof (induction fs arbitrary: st)
  case Nil
  then show ?case by (simp add: targets_def anchors_def)
next
  case (Cons f fs)
  then obtain n t b where s: "fold diff_step (file_texts f) st =
   \<lparr>ds_files = ds_files st \<union> set_option (fd_target f),
    ds_positions = ds_positions st \<union> (\<Union>h \<in> set (fd_hunks f). hunk_anchors (fd_target f) h),
    ds_path = t, ds_new_line = n, ds_in_hunk = b\<rparr>" using fold_file [of f st] by auto
  have "(\<Union>h \<in> set (fd_hunks f). hunk_anchors (fd_target f) h) \<union> anchors fs = anchors (f # fs)"
    by (auto simp: anchors_def hunk_anchors_def split: option.splits)
  moreover have "set_option (fd_target f) \<union> targets fs = targets (f # fs)"
    by (auto simp: targets_def)
  ultimately show ?case using Cons s by (simp add: Un_assoc)
qed

lemma texts_unbroken:
  assumes "list_all file_ok fs"
  shows "list_all unbroken (concat (map file_texts fs))"
proof -
  have range_ok: "unbroken (range_text r)" for r
    using digits_no_break by (auto simp: unbroken_def list_all_iff range_text_def line_break_def split: option.splits)
  have plain: "unbroken ''@@ -''" "unbroken '' +''" "unbroken '' @@''" "unbroken ''+++ b/''"
    by (simp_all add: unbroken_def line_break_def)
  have app: "unbroken (a @ b) \<longleftrightarrow> unbroken a \<and> unbroken b" for a b by (simp add: unbroken_def)
  have hunk: "list_all unbroken (hunk_texts h)" if "hunk_ok h" for h
    using that range_ok plain unfolding hunk_texts_def hunk_ok_def
    by (simp add: app list_all_iff line_ok_def del: append.simps)
  have "list_all unbroken (file_texts f)" if "file_ok f" for f
  proof -
    from that have "list_all unbroken (fd_header f)"
      by (auto simp: file_ok_def header_ok_def list_all_iff split: list.splits)
    moreover from that have "list_all unbroken (case fd_target f of None \<Rightarrow> [] | Some p \<Rightarrow> [''+++ b/'' @ p])"
      using plain by (cases "fd_target f") (simp_all add: file_ok_def app del: append.simps)
    moreover from that have "list_all unbroken (concat (map hunk_texts (fd_hunks f)))"
      using hunk by (auto simp: file_ok_def list_all_iff)
    ultimately show ?thesis by (simp add: file_texts_def)
  qed
  with assms show ?thesis by (auto simp: list_all_iff)
qed


definition sample_diff :: "file_diff list" where
  "sample_diff =
     [\<lparr>fd_header = [''diff --git a/x.py b/x.py'', ''--- a/x.py''], fd_target = Some ''x.py'',
       fd_hunks = [\<lparr>hk_old = (1, Some 2), hk_new = (1, Some 3), hk_section = '' def f():'',
         hk_lines = [Context ''a'', Removed ''b'', Added ''++ b/evil.py'', Added ''c'']\<rparr>]\<rparr>]"


text \<open>\<open>splitlines\<close> also breaks a line at a form feed, which git does not: one in an added line ends
  the hunk state's hold on the rest of that line, and positions leave the diff.\<close>

definition form_feed_diff :: "file_diff list" where
  "form_feed_diff =
     [\<lparr>fd_header = [''diff --git a/x.py b/x.py'', ''--- a/x.py''], fd_target = Some ''x.py'',
       fd_hunks = [\<lparr>hk_old = (1, Some 0), hk_new = (1, Some 1), hk_section = '''',
         hk_lines = [Added (''a'' @ [CHR 0x0C] @ ''diff --git '' @ [CHR 0x0C] @ ''+++ b/other.py'' @ [CHR 0x0C]
           @ ''@@ -1 +7 @@'' @ [CHR 0x0C] @ ''+b'')]\<rparr>]\<rparr>]"

theorem form_feed_repoints_anchors:
  "parse_diff (diff_text form_feed_diff) = ({''x.py'', ''other.py''}, {(''x.py'', 1), (''other.py'', 7)})"
proof -
  have "fold diff_step (splitlines (diff_text form_feed_diff)) diff_start =
      \<lparr>ds_files = {''other.py'', ''x.py''}, ds_positions = {(''other.py'', 7), (''x.py'', 1)},
       ds_path = Some ''other.py'', ds_new_line = 8, ds_in_hunk = True\<rparr>" by code_simp
  then show ?thesis by (simp add: parse_diff_def insert_commute)
qed

end
