(* ===== verification/Publish.thy ===== *)
theory Publish
  imports Diff Prior_State
begin

text \<open>
  The egress of \<open>sidecar/backends/agentic.py\<close>: a finished review is stashed by \<open>invoke\<close>, claimed by
  \<open>normalize_output\<close> under the branch's identity, laid out as one GitHub review and posted. Posting is
  not idempotent and its answer may be lost, so the model keeps what every request did on the server
  apart from what the client was told. The requests' fates, the clock readings against the shared
  deadline and what other people post meanwhile are parameters of the network; a lost request is
  taken to have happened or not by the time it is read back.
\<close>

section \<open>The stash\<close>

definition MAX_FINDINGS :: nat where "MAX_FINDINGS = 10"
definition MAX_PENDING :: nat where "MAX_PENDING = 32"

record pending_review =
  pn_findings :: "agentic_finding list"
  pn_summary :: string
  pn_head_sha :: string
  pn_diff_files :: "string set"
  pn_diff_positions :: "(string \<times> int) set"
  pn_withheld_low :: nat
  pn_over_cap :: nat

text \<open>A stash key is the pull request, the model and the fingerprint of the posting token.\<close>

type_synonym stash_key = "string \<times> string \<times> string"
type_synonym stash = "(stash_key, pending_review) dict"

definition identity_of :: "(string \<Rightarrow> string) \<Rightarrow> string \<Rightarrow> string" where
  "identity_of sha256 token = (if token \<noteq> '''' then take 12 (sha256 token) else '''')"

definition confident :: "agentic_finding list \<Rightarrow> agentic_finding list" where
  "confident fs = filter (\<lambda>f. lower (strip (af_confidence f)) \<noteq> ''low'') fs"

definition kept_findings :: "agentic_finding list \<Rightarrow> agentic_finding list" where
  "kept_findings fs = take MAX_FINDINGS (confident fs)"

definition pending_of ::
  "agentic_finding list \<Rightarrow> string \<Rightarrow> string \<Rightarrow> string set \<times> (string \<times> int) set \<Rightarrow> pending_review" where
  "pending_of fs summary head_sha diff =
     \<lparr>pn_findings = kept_findings fs, pn_summary = summary, pn_head_sha = head_sha,
      pn_diff_files = fst diff, pn_diff_positions = snd diff,
      pn_withheld_low = length fs - length (confident fs),
      pn_over_cap = length (confident fs) - length (kept_findings fs)\<rparr>"

text \<open>The oldest entries make room for a new key.\<close>

function evict :: "stash_key \<Rightarrow> stash \<Rightarrow> stash" where
  "evict k d = (if MAX_PENDING \<le> length d \<and> k \<notin> fst ` set d then evict k (tl d) else d)"
  by pat_completeness auto

termination evict
  by (relation "measure (\<lambda>(k, d). length d)") (auto simp: MAX_PENDING_def)

declare evict.simps [simp del]

definition stash_review :: "stash_key \<Rightarrow> pending_review \<Rightarrow> stash \<Rightarrow> stash" where
  "stash_review k r d = dict_set k r (evict k d)"

section \<open>Claiming\<close>

text \<open>\<open>model.rsplit("/", 1)[-1]\<close>.\<close>

definition bare_name :: "string \<Rightarrow> string" where
  "bare_name m = last (split_char (CHR ''/'') m)"

definition claim_key :: "string \<Rightarrow> string \<Rightarrow> string \<Rightarrow> stash \<Rightarrow> stash_key option" where
  "claim_key pr_url m ident d =
     (if (pr_url, bare_name m, ident) \<in> fst ` set d then Some (pr_url, bare_name m, ident)
      else if (pr_url, m, ident) \<in> fst ` set d then Some (pr_url, m, ident)
      else case filter (\<lambda>k. fst k = pr_url \<and> snd (snd k) = ident) (map fst d) of
             [k] \<Rightarrow> if bare_name m \<noteq> '''' \<and> bare_name m = bare_name (fst (snd k)) then Some k else None
           | _ \<Rightarrow> None)"

definition claim :: "string \<Rightarrow> string \<Rightarrow> string \<Rightarrow> stash \<Rightarrow> pending_review option \<times> stash" where
  "claim pr_url m ident d =
     (case claim_key pr_url m ident d of
        None \<Rightarrow> (None, d)
      | Some k \<Rightarrow> (map_of d k, dict_pop k d))"

section \<open>Laying out the review\<close>

record inline_comment =
  ic_path :: string
  ic_line :: int
  ic_start_line :: "int option"
  ic_body :: string

record review_payload =
  pl_commit_id :: string
  pl_body :: string
  pl_comments :: "inline_comment list"

definition REVIEW_HEADER :: string where "REVIEW_HEADER = ''## fuko agentic review''"

definition review_header :: "string \<Rightarrow> string" where
  "review_header label =
     (if label \<noteq> '''' then REVIEW_HEADER @ '' '' @ [CHR 0xE2, CHR 0x80, CHR 0x94] @ '' `'' @ label @ ''`'' else REVIEW_HEADER)"

text \<open>What the branch hands the egress, with the standard library's SHA-1 and the marker codec.\<close>

record egress =
  eg_sha1 :: "string \<Rightarrow> string"
  eg_dump :: "review_signal \<Rightarrow> string"
  eg_pr_url :: string
  eg_model :: string
  eg_role :: string
  eg_compare_label :: "string option"

definition finding_signal :: "egress \<Rightarrow> agentic_finding \<Rightarrow> review_signal" where
  "finding_signal e f =
     (default_signal (make_id (eg_sha1 e)
        [eg_pr_url e, af_file f, str_int (case af_line f of None \<Rightarrow> 0 | Some n \<Rightarrow> n), af_title f]))
       \<lparr>rs_file := Some (af_file f), rs_line := af_line f, rs_end_line := af_end_line f,
        rs_severity := af_severity f, rs_declared := True, rs_category := af_category f,
        rs_title := af_title f, rs_body := af_body f, rs_backend := ''agentic'',
        rs_model := eg_model e, rs_role := eg_role e\<rparr>"

definition finding_prose :: "agentic_finding \<Rightarrow> string" where
  "finding_prose f = ''**'' @ af_title f @ ''**'' @ blank_line @ af_body f
     @ (if af_evidence f \<noteq> '''' then blank_line @ ''*Verified against:* '' @ af_evidence f else '''')"

definition finding_body :: "egress \<Rightarrow> agentic_finding \<Rightarrow> string" where
  "finding_body e f =
     (case eg_compare_label e of
        Some label \<Rightarrow> with_visible_label (eg_dump e) (finding_prose f) label (finding_signal e f)
      | None \<Rightarrow> with_marker (eg_dump e) (finding_prose f) (finding_signal e f))"

definition anchorable :: "pending_review \<Rightarrow> agentic_finding \<Rightarrow> bool" where
  "anchorable r f =
     (case af_line f of
        None \<Rightarrow> False
      | Some n \<Rightarrow>
          if pn_diff_positions r = {} then af_file f \<in> pn_diff_files r
          else (af_file f, n) \<in> pn_diff_positions r
            \<and> (case af_end_line f of None \<Rightarrow> True
               | Some m \<Rightarrow> if m > n then (af_file f, m) \<in> pn_diff_positions r else True))"

definition inline_of :: "egress \<Rightarrow> agentic_finding \<Rightarrow> inline_comment" where
  "inline_of e f =
     (let n = (case af_line f of None \<Rightarrow> 0 | Some n \<Rightarrow> n)
      in case af_end_line f of
           Some m \<Rightarrow>
             if m > n then \<lparr>ic_path = af_file f, ic_line = m, ic_start_line = Some n, ic_body = finding_body e f\<rparr>
             else \<lparr>ic_path = af_file f, ic_line = n, ic_start_line = None, ic_body = finding_body e f\<rparr>
         | None \<Rightarrow> \<lparr>ic_path = af_file f, ic_line = n, ic_start_line = None, ic_body = finding_body e f\<rparr>)"

definition inline_findings :: "pending_review \<Rightarrow> agentic_finding list" where
  "inline_findings r = filter (anchorable r) (pn_findings r)"

definition overflow_findings :: "pending_review \<Rightarrow> agentic_finding list" where
  "overflow_findings r = filter (\<lambda>f. \<not> anchorable r f) (pn_findings r)"

definition location_of :: "agentic_finding \<Rightarrow> string" where
  "location_of f = ''**Location:** `'' @ af_file f @ ''`''
     @ (case af_line f of None \<Rightarrow> '''' | Some n \<Rightarrow> '':'' @ str_int n)"

definition rule_line :: string where "rule_line = blank_line @ ''---'' @ blank_line"

definition overflow_block :: "egress \<Rightarrow> pending_review \<Rightarrow> string" where
  "overflow_block e r =
     join rule_line (map (\<lambda>f. location_of f @ '' ('' @ af_severity f @ '')'' @ blank_line @ finding_body e f)
       (overflow_findings r))"

definition review_body :: "egress \<Rightarrow> pending_review \<Rightarrow> string \<Rightarrow> string" where
  "review_body e r label =
     join nl ([review_header label, '''', if pn_summary r \<noteq> '''' then pn_summary r else ''(no summary)'']
       @ (if overflow_findings r \<noteq> [] then ['''', ''### Findings without a diff anchor'', '''', overflow_block e r] else [])
       @ (if pn_withheld_low r \<noteq> 0
          then ['''', ''*'' @ str_int (int (pn_withheld_low r)) @ '' low-confidence finding(s) withheld.*''] else [])
       @ (if pn_over_cap r \<noteq> 0
          then ['''', ''*'' @ str_int (int (pn_over_cap r)) @ '' further finding(s) cut by the ''
            @ str_int (int MAX_FINDINGS) @ ''-finding cap.*''] else []))"

definition review_payload_of :: "egress \<Rightarrow> pending_review \<Rightarrow> string \<Rightarrow> review_payload" where
  "review_payload_of e r label =
     \<lparr>pl_commit_id = pn_head_sha r, pl_body = review_body e r label,
      pl_comments = map (inline_of e) (inline_findings r)\<rparr>"

text \<open>The body-only retry keeps every comment's marked body.\<close>

definition body_only :: "egress \<Rightarrow> pending_review \<Rightarrow> review_payload \<Rightarrow> review_payload" where
  "body_only e r p =
     p\<lparr>pl_comments := [],
       pl_body := pl_body p @ blank_line @ ''### Inline findings (anchoring failed)'' @ blank_line
         @ join rule_line (map (\<lambda>f. location_of f @ blank_line @ finding_body e f) (inline_findings r))\<rparr>"

section \<open>The network\<close>

text \<open>A POST that provably never reached the server, one whose answer was lost, and one that was
  answered with a status; the flag says whether the server committed the review. A GET fails, is
  answered with something other than a list, or lists the reviews there are.\<close>

datatype post_fate = Unreached | Broken bool | Status nat bool
datatype get_fate = GetFailed | GetOther | GetList

record remote_review =
  rr_commit :: "string option"
  rr_body :: "string option"

text \<open>\<open>gn_late n\<close>: the \<open>n\<close>th reading of the clock is past the posting deadline. \<open>gn_others\<close>: what
  other people posted before the \<open>n\<close>th request. \<open>gn_ours\<close>: the reviews our requests committed.\<close>

record github =
  gn_post :: "nat \<Rightarrow> post_fate"
  gn_get :: "nat \<Rightarrow> get_fate"
  gn_late :: "nat \<Rightarrow> bool"
  gn_others :: "nat \<Rightarrow> remote_review list"
  gn_requests :: nat
  gn_readings :: nat
  gn_reviews :: "remote_review list"
  gn_ours :: "review_payload list"

definition late :: "github \<Rightarrow> bool \<times> github" where
  "late g = (gn_late g (gn_readings g), g\<lparr>gn_readings := Suc (gn_readings g)\<rparr>)"

definition arrive :: "github \<Rightarrow> github" where
  "arrive g = g\<lparr>gn_reviews := gn_reviews g @ gn_others g (gn_requests g), gn_requests := Suc (gn_requests g)\<rparr>"

definition remote_of :: "review_payload \<Rightarrow> remote_review" where
  "remote_of p = \<lparr>rr_commit = Some (pl_commit_id p), rr_body = Some (pl_body p)\<rparr>"

definition commit :: "bool \<Rightarrow> review_payload \<Rightarrow> github \<Rightarrow> github" where
  "commit c p g = (if c then g\<lparr>gn_reviews := gn_reviews g @ [remote_of p], gn_ours := gn_ours g @ [p]\<rparr> else g)"

definition post :: "review_payload \<Rightarrow> github \<Rightarrow> post_fate \<times> github" where
  "post p g =
     (let fate = gn_post g (gn_requests g); g1 = arrive g
      in (fate, case fate of Unreached \<Rightarrow> g1 | Broken c \<Rightarrow> commit c p g1 | Status s c \<Rightarrow> commit c p g1))"

definition READ_BACK_MAX_PAGES :: nat where "READ_BACK_MAX_PAGES = 20"
definition POST_ATTEMPTS :: nat where "POST_ATTEMPTS = 3"
definition TRANSIENT_STATUSES :: "nat list" where "TRANSIENT_STATUSES = [502, 503, 504]"

section \<open>The read-back\<close>

definition looks_ours :: "string \<Rightarrow> string \<Rightarrow> remote_review \<Rightarrow> bool" where
  "looks_ours head label r =
     (rr_commit r = Some head \<and> contains (review_header label) (case rr_body r of None \<Rightarrow> '''' | Some b \<Rightarrow> b))"

text \<open>Pages are walked oldest first from \<open>page\<close>, \<open>left\<close> of them at most.\<close>

fun read_back_from :: "nat \<Rightarrow> nat \<Rightarrow> string \<Rightarrow> string \<Rightarrow> github \<Rightarrow> bool option \<times> github" where
  "read_back_from 0 page head label g = (None, g)"
| "read_back_from (Suc left) page head label g =
     (let (is_late, g0) = late g
      in if is_late then (None, g0)
         else case gn_get g0 (gn_requests g0) of
                GetFailed \<Rightarrow> (None, arrive g0)
              | GetOther \<Rightarrow> (Some False, arrive g0)
              | GetList \<Rightarrow>
                  (let g1 = arrive g0; batch = take 100 (drop (100 * page) (gn_reviews g1))
                   in if batch = [] then (Some False, g1)
                      else if list_ex (looks_ours head label) batch then (Some True, g1)
                      else if length batch < 100 then (Some False, g1)
                      else read_back_from left (Suc page) head label g1))"

definition review_already_posted :: "string \<Rightarrow> string \<Rightarrow> github \<Rightarrow> bool option \<times> github" where
  "review_already_posted head label = read_back_from READ_BACK_MAX_PAGES 0 head label"

section \<open>Posting\<close>

text \<open>\<open>Already\<close> is the \<open>None\<close> of a review confirmed to be on the pull request, \<open>Unverified\<close> any
  exception.\<close>

datatype send_result = Already | Response nat | Unverified

text \<open>An ambiguous outcome: read back; retry only what is known not to be there.\<close>

definition ambiguous ::
  "(github \<Rightarrow> send_result \<times> github) \<Rightarrow> send_result \<Rightarrow> review_payload \<Rightarrow> string \<Rightarrow> bool \<Rightarrow> github \<Rightarrow> send_result \<times> github" where
  "ambiguous again give_up p label is_last g =
     (case review_already_posted (pl_commit_id p) label g of
        (Some True, g1) \<Rightarrow> (Already, g1)
      | (None, g1) \<Rightarrow> (Unverified, g1)
      | (Some False, g1) \<Rightarrow> if is_last then (give_up, g1) else again g1)"

definition pause :: "(github \<Rightarrow> send_result \<times> github) \<Rightarrow> github \<Rightarrow> send_result \<times> github" where
  "pause again g = (let (is_late, g1) = late g in if is_late then (Unverified, g1) else again g1)"

fun send_attempts :: "nat \<Rightarrow> review_payload \<Rightarrow> string \<Rightarrow> github \<Rightarrow> send_result \<times> github" where
  "send_attempts 0 p label g = (Unverified, g)"
| "send_attempts (Suc left) p label g =
     (let (is_late, g0) = late g
      in if is_late then (Unverified, g0)
         else case post p g0 of
                (Unreached, g1) \<Rightarrow> if left = 0 then (Unverified, g1) else pause (send_attempts left p label) g1
              | (Broken _, g1) \<Rightarrow> ambiguous (pause (send_attempts left p label)) Unverified p label (left = 0) g1
              | (Status s _, g1) \<Rightarrow>
                  if s \<in> set TRANSIENT_STATUSES
                  then ambiguous (pause (send_attempts left p label)) (Response s) p label (left = 0) g1
                  else (Response s, g1))"

definition send_review :: "review_payload \<Rightarrow> string \<Rightarrow> github \<Rightarrow> send_result \<times> github" where
  "send_review = send_attempts POST_ATTEMPTS"

text \<open>\<open>_post\<close> inside the \<open>except\<close> of \<open>_post_review\<close>.\<close>

definition settle_status :: "nat \<Rightarrow> bool" where "settle_status s = (s < 300)"

definition post_review :: "egress \<Rightarrow> pending_review \<Rightarrow> string \<Rightarrow> github \<Rightarrow> bool \<times> github" where
  "post_review e r label g =
     (let p = review_payload_of e r label
      in case send_review p label g of
           (Already, g1) \<Rightarrow> (True, g1)
         | (Unverified, g1) \<Rightarrow> (False, g1)
         | (Response s, g1) \<Rightarrow>
             if s = 422 \<and> inline_findings r \<noteq> []
             then (case send_review (body_only e r p) label g1 of
                     (Already, g2) \<Rightarrow> (True, g2)
                   | (Unverified, g2) \<Rightarrow> (False, g2)
                   | (Response s2, g2) \<Rightarrow> (settle_status s2, g2))
             else (settle_status s, g1))"

definition normalize_output ::
  "egress \<Rightarrow> string \<Rightarrow> stash \<Rightarrow> github \<Rightarrow> review_signal list \<times> stash \<times> github" where
  "normalize_output e ident d g =
     (case claim (eg_pr_url e) (eg_model e) ident d of
        (None, d1) \<Rightarrow> ([], d1, g)
      | (Some r, d1) \<Rightarrow>
          let label = (case eg_compare_label e of Some l \<Rightarrow> if l \<noteq> '''' then l else eg_model e | None \<Rightarrow> eg_model e);
              (posted, g1) = post_review e r label g
          in (if posted then map (finding_signal e) (pn_findings r) else [], d1, g1))"

section \<open>What a read-back proves\<close>

definition same_network :: "github \<Rightarrow> github \<Rightarrow> bool" where
  "same_network g g' \<longleftrightarrow> gn_post g' = gn_post g \<and> gn_get g' = gn_get g \<and> gn_late g' = gn_late g
     \<and> gn_others g' = gn_others g"

text \<open>Nobody else's review of this commit carries the branch's header.\<close>

definition unforged :: "string \<Rightarrow> string \<Rightarrow> github \<Rightarrow> bool" where
  "unforged head label g \<longleftrightarrow> (\<forall>r \<in> set (gn_reviews g). looks_ours head label r \<longrightarrow> r \<in> remote_of ` set (gn_ours g))
     \<and> (\<forall>n. \<forall>r \<in> set (gn_others g n). \<not> looks_ours head label r)"

text \<open>Going on: the network is the same, reviews are only added, and none is forged.\<close>

definition goes_on :: "string \<Rightarrow> string \<Rightarrow> github \<Rightarrow> github \<Rightarrow> bool" where
  "goes_on head label g g' \<longleftrightarrow> same_network g g' \<and> set (gn_reviews g) \<subseteq> set (gn_reviews g')
     \<and> (unforged head label g \<longrightarrow> unforged head label g')"

lemma goes_on_refl: "goes_on head label g g"
  by (simp add: goes_on_def same_network_def)

lemma goes_on_trans: "goes_on head label g h \<Longrightarrow> goes_on head label h i \<Longrightarrow> goes_on head label g i"
  unfolding goes_on_def same_network_def by auto

lemma late_step: "late g = (b, g') \<Longrightarrow> goes_on head label g g' \<and> gn_ours g' = gn_ours g \<and> gn_reviews g' = gn_reviews g"
  by (auto simp: late_def goes_on_def same_network_def unforged_def)

lemma arrive_step: "goes_on head label g (arrive g) \<and> gn_ours (arrive g) = gn_ours g"
  by (auto simp: arrive_def goes_on_def same_network_def unforged_def)

lemma commit_step:
  "goes_on head label g (commit c p g) \<and> gn_ours (commit c p g) = gn_ours g @ (if c then [p] else [])
   \<and> (c \<longrightarrow> remote_of p \<in> set (gn_reviews (commit c p g)))"
  by (auto simp: commit_def goes_on_def same_network_def unforged_def)

lemma read_back_from_effect:
  assumes "\<forall>n. gn_get g n \<noteq> GetOther" "100 * page \<le> length (gn_reviews g)"
    and "\<forall>r \<in> set (take (100 * page) (gn_reviews g)). \<not> looks_ours head label r"
    and "read_back_from left page head label g = (b, g')"
  shows "goes_on head label g g' \<and> gn_ours g' = gn_ours g
    \<and> (b = Some False \<longrightarrow> (\<forall>r \<in> set (gn_reviews g'). \<not> looks_ours head label r))
    \<and> (b = Some True \<longrightarrow> (\<exists>r \<in> set (gn_reviews g'). looks_ours head label r))"
  using assms
proof (induction left arbitrary: page g)
  case 0
  then show ?case by (simp add: goes_on_refl)
next
  case (Suc left)
  obtain is_late g0 where l: "late g = (is_late, g0)" by fastforce
  note l0 = late_step [OF l, of head label]
  define g1 where "g1 = arrive g0"
  have a1: "goes_on head label g g1" "gn_ours g1 = gn_ours g"
    using l0 arrive_step [of head label g0] goes_on_trans unfolding g1_def by (blast, simp)
  obtain ex where ex: "gn_reviews g1 = gn_reviews g @ ex" using l0 by (simp add: g1_def arrive_def)
  define batch where "batch = take 100 (drop (100 * page) (gn_reviews g1))"
  have old: "\<forall>r \<in> set (take (100 * page) (gn_reviews g1)). \<not> looks_ours head label r"
    using Suc.prems(2,3) ex by simp
  have all: "gn_reviews g1 = take (100 * page) (gn_reviews g1) @ batch @ drop (100 * Suc page) (gn_reviews g1)"
    unfolding batch_def by (simp add: drop_drop [symmetric] del: drop_drop)
  show ?case
  proof (cases "is_late \<or> gn_get g0 (gn_requests g0) = GetFailed")
    case True
    with Suc.prems(4) l l0 a1 show ?thesis
      by (auto simp: g1_def [symmetric] split: if_splits)
  next
    case False
    have "gn_get g0 (gn_requests g0) \<noteq> GetOther"
      using Suc.prems(1) l0 by (simp add: goes_on_def same_network_def)
    with False have got: "\<not> is_late" "gn_get g0 (gn_requests g0) = GetList"
      by (auto intro: get_fate.exhaust [of "gn_get g0 (gn_requests g0)"])
    have step: "read_back_from (Suc left) page head label g =
        (if batch = [] then (Some False, g1)
         else if list_ex (looks_ours head label) batch then (Some True, g1)
         else if length batch < 100 then (Some False, g1)
         else read_back_from left (Suc page) head label g1)"
      using l got by (simp add: g1_def batch_def Let_def)
    show ?thesis
    proof (cases "list_ex (looks_ours head label) batch")
      case True
      then have "batch \<noteq> []" by auto
      moreover have "\<exists>r \<in> set (gn_reviews g1). looks_ours head label r"
        using True unfolding batch_def by (auto simp: list_ex_iff dest!: in_set_takeD in_set_dropD)
      ultimately show ?thesis using True step Suc.prems(4) a1 by auto
    next
      case none: False
      then have batch_none: "\<forall>r \<in> set batch. \<not> looks_ours head label r" by (simp add: list_ex_iff)
      show ?thesis
      proof (cases "length batch < 100")
        case True
        then have "drop (100 * Suc page) (gn_reviews g1) = []" by (auto simp: batch_def)
        with all old batch_none have "\<forall>r \<in> set (gn_reviews g1). \<not> looks_ours head label r"
          by (metis Un_iff append_Nil2 set_append)
        with True none step Suc.prems(4) a1 show ?thesis by (auto split: if_splits)
      next
        case False
        then have len: "100 * Suc page \<le> length (gn_reviews g1)" by (simp add: batch_def)
        have "take (100 * Suc page) (gn_reviews g1) = take (100 * page) (gn_reviews g1) @ batch"
          unfolding batch_def by (metis add.commute mult_Suc_right take_add)
        then have "\<forall>r \<in> set (take (100 * Suc page) (gn_reviews g1)). \<not> looks_ours head label r"
          using old batch_none by auto
        moreover have "\<forall>n. gn_get g1 n \<noteq> GetOther" using Suc.prems(1) a1(1) by (simp add: goes_on_def same_network_def)
        moreover have "read_back_from left (Suc page) head label g1 = (b, g')"
          using False none step Suc.prems(4) by (auto split: if_splits)
        ultimately show ?thesis using Suc.IH [of g1 "Suc page"] len a1 goes_on_trans by metis
      qed
    qed
  qed
qed

lemma review_already_posted_effect:
  assumes "\<forall>n. gn_get g n \<noteq> GetOther" "review_already_posted head label g = (b, g')"
  shows "goes_on head label g g' \<and> gn_ours g' = gn_ours g
    \<and> (b = Some False \<longrightarrow> (\<forall>r \<in> set (gn_reviews g'). \<not> looks_ours head label r))
    \<and> (b = Some True \<longrightarrow> (\<exists>r \<in> set (gn_reviews g'). looks_ours head label r))"
  using read_back_from_effect [of g 0 head label READ_BACK_MAX_PAGES b g'] assms
  by (simp add: review_already_posted_def)

section \<open>One review at most\<close>

text \<open>What the client may be told once a review was or was not committed: \<open>base\<close> are the reviews
  committed before.\<close>

definition told :: "string \<Rightarrow> string \<Rightarrow> review_payload list \<Rightarrow> review_payload \<Rightarrow> send_result \<Rightarrow> github \<Rightarrow> bool" where
  "told head label base p res g \<longleftrightarrow>
     (gn_ours g = base \<or> gn_ours g = base @ [p])
     \<and> (case res of
          Already \<Rightarrow> \<exists>r \<in> set (gn_reviews g). looks_ours head label r
        | Response s \<Rightarrow> (\<exists>n c. gn_post g n = Status s c \<and> gn_ours g = base @ (if c then [p] else []))
            \<or> s \<in> set TRANSIENT_STATUSES
        | Unverified \<Rightarrow> True)"

definition sends :: "string \<Rightarrow> string \<Rightarrow> review_payload list \<Rightarrow> review_payload \<Rightarrow> github \<Rightarrow> send_result \<times> github \<Rightarrow> bool" where
  "sends head label base p g out \<longleftrightarrow> goes_on head label g (snd out) \<and> told head label base p (fst out) (snd out)"

lemma sends_after:
  "goes_on head label g h \<Longrightarrow> sends head label base p h out \<Longrightarrow> sends head label base p g out"
  unfolding sends_def using goes_on_trans by blast

lemma goes_on_lists: "goes_on head label g h \<Longrightarrow> \<forall>n. gn_get g n \<noteq> GetOther \<Longrightarrow> \<forall>n. gn_get h n \<noteq> GetOther"
  by (simp add: goes_on_def same_network_def)

lemma pause_sends:
  assumes "\<And>h. goes_on head label g h \<Longrightarrow> gn_ours h = base \<Longrightarrow> sends head label base p h (again h)"
    and "gn_ours g = base"
  shows "sends head label base p g (pause again g)"
proof -
  obtain is_late h where l: "late g = (is_late, h)" by fastforce
  note l' = late_step [OF l, of head label]
  show ?thesis
  proof (cases is_late)
    case True
    with l l' assms(2) show ?thesis by (simp add: pause_def sends_def told_def)
  next
    case False
    from assms l' have "sends head label base p h (again h)" by simp
    with l' have "sends head label base p g (again h)" by (blast intro: sends_after)
    with l False show ?thesis by (simp add: pause_def)
  qed
qed

lemma ambiguous_sends:
  assumes lists: "\<forall>n. gn_get g n \<noteq> GetOther" and head: "pl_commit_id p = head"
    and "looks_ours head label (remote_of p)"
    and ours: "gn_ours g = base @ (if c then [p] else [])" "c \<Longrightarrow> remote_of p \<in> set (gn_reviews g)"
    and again: "\<And>h. goes_on head label g h \<Longrightarrow> gn_ours h = base \<Longrightarrow> sends head label base p h (again h)"
    and give_up: "\<And>h. goes_on head label g h \<Longrightarrow> gn_ours h = base \<Longrightarrow> told head label base p give_up h"
  shows "sends head label base p g (ambiguous again give_up p label is_last g)"
proof -
  obtain b h where r: "review_already_posted head label g = (b, h)" by fastforce
  note e = review_already_posted_effect [OF lists r]
  have either: "gn_ours h = base \<or> gn_ours h = base @ [p]" using e ours(1) by (auto split: if_splits)
  show ?thesis
  proof (cases b)
    case None
    with r e either head show ?thesis by (simp add: ambiguous_def sends_def told_def)
  next
    case (Some found_it)
    show ?thesis
    proof (cases found_it)
      case True
      with Some r e either head show ?thesis by (simp add: ambiguous_def sends_def told_def)
    next
      case False
      have "\<not> c"
      proof
        assume c
        with ours(2) e have "remote_of p \<in> set (gn_reviews h)" by (auto simp: goes_on_def)
        with e Some False assms(3) show False by simp
      qed
      with e ours(1) have "gn_ours h = base" by simp
      with Some False r e head again give_up show ?thesis
        by (auto simp: ambiguous_def sends_def intro: goes_on_trans)
    qed
  qed
qed

lemma post_step:
  assumes "post p g = (fate, h)"
  shows "goes_on head label g h \<and> fate = gn_post g (gn_requests g)
    \<and> (let c = (case fate of Unreached \<Rightarrow> False | Broken c \<Rightarrow> c | Status s c \<Rightarrow> c)
       in gn_ours h = gn_ours g @ (if c then [p] else []) \<and> (c \<longrightarrow> remote_of p \<in> set (gn_reviews h)))"
proof -
  let ?c = "case fate of Unreached \<Rightarrow> False | Broken c \<Rightarrow> c | Status s c \<Rightarrow> c"
  have "h = commit ?c p (arrive g)" "fate = gn_post g (gn_requests g)"
    using assms by (auto simp: post_def Let_def commit_def split: post_fate.splits)
  then show ?thesis
    using arrive_step [of head label g] commit_step [of head label "arrive g" ?c p] goes_on_trans
    unfolding Let_def by metis
qed

lemma send_attempts_sends:
  assumes "\<forall>n. gn_get g n \<noteq> GetOther" "pl_commit_id p = head" "looks_ours head label (remote_of p)"
    and "gn_ours g = base"
  shows "sends head label base p g (send_attempts k p label g)"
  using assms(1,4)
proof (induction k arbitrary: g)
  case 0
  then show ?case by (simp add: sends_def told_def goes_on_refl)
next
  case (Suc k)
  obtain is_late g0 where l: "late g = (is_late, g0)" by fastforce
  note l0 = late_step [OF l, of head label]
  obtain fate g1 where pst: "post p g0 = (fate, g1)" by fastforce
  note p1 = post_step [OF pst, of head label]
  have base0: "gn_ours g0 = base" using l0 Suc.prems(2) by simp
  have lists1: "\<forall>n. gn_get g1 n \<noteq> GetOther"
    using goes_on_lists [OF _ Suc.prems(1)] l0 p1 goes_on_trans by blast
  have again: "sends head label base p h (pause (send_attempts k p label) h)"
    if "goes_on head label g1 h" "gn_ours h = base" for h
    using pause_sends [of head label h base p "send_attempts k p label"] Suc.IH goes_on_lists lists1 that
    by (meson goes_on_trans)
  have from1: "sends head label base p g out" if "sends head label base p g1 out" for out
    using that sends_after l0 p1 by blast
  show ?case
  proof (cases is_late)
    case True
    with l l0 base0 show ?thesis by (simp add: sends_def told_def)
  next
    case False
    show ?thesis
    proof (cases fate)
      case Unreached
      with p1 base0 have b1: "gn_ours g1 = base" by simp
      then have "sends head label base p g1 (Unverified, g1)" by (simp add: sends_def told_def goes_on_refl)
      with again [OF goes_on_refl b1] have "sends head label base p g1
          (if k = 0 then (Unverified, g1) else pause (send_attempts k p label) g1)" by simp
      from from1 [OF this] show ?thesis using l False pst Unreached by simp
    next
      case (Broken c)
      with p1 base0 have "gn_ours g1 = base @ (if c then [p] else [])" "c \<Longrightarrow> remote_of p \<in> set (gn_reviews g1)"
        by (simp_all add: Let_def)
      then have "sends head label base p g1
          (ambiguous (pause (send_attempts k p label)) Unverified p label (k = 0) g1)"
        by (rule ambiguous_sends [OF lists1 assms(2,3)]) (use again in \<open>auto simp: told_def\<close>)
      from from1 [OF this] show ?thesis using l False pst Broken by simp
    next
      case (Status s c)
      with p1 base0 have o1: "gn_ours g1 = base @ (if c then [p] else [])" "c \<Longrightarrow> remote_of p \<in> set (gn_reviews g1)"
        by (simp_all add: Let_def)
      show ?thesis
      proof (cases "s \<in> set TRANSIENT_STATUSES")
        case True
        from o1 have "sends head label base p g1
            (ambiguous (pause (send_attempts k p label)) (Response s) p label (k = 0) g1)"
          by (rule ambiguous_sends [OF lists1 assms(2,3)]) (use again True in \<open>auto simp: told_def\<close>)
        from from1 [OF this] show ?thesis using l False pst Status True by simp
      next
        case no: False
        have "gn_post g1 (gn_requests g0) = Status s c"
          using p1 Status by (simp add: goes_on_def same_network_def)
        then have "\<exists>n c. gn_post g1 n = Status s c \<and> gn_ours g1 = base @ (if c then [p] else [])"
          using o1(1) by blast
        moreover have "gn_ours g1 = base \<or> gn_ours g1 = base @ [p]" using o1(1) by (cases c) simp_all
        ultimately have "sends head label base p g1 (Response s, g1)"
          by (simp add: sends_def told_def goes_on_refl)
        from from1 [OF this] show ?thesis using l False pst Status no by simp
      qed
    qed
  qed
qed

section \<open>The properties of the egress\<close>

lemma contains_in_context: "contains p s \<Longrightarrow> contains p (a @ s @ b)"
  unfolding contains_iff by (metis append.assoc)

lemma contains_join: "x \<in> set xs \<Longrightarrow> contains x (join sep xs)"
proof (induction sep xs rule: join.induct)
  case (2 sep y)
  then show ?case unfolding contains_iff by (metis append_Nil append_Nil2 empty_iff empty_set join.simps(2) set_ConsD)
next
  case (3 sep y z zs)
  then consider "x = y" | "contains x (join sep (z # zs))" by auto
  then show ?case
  proof cases
    case 1
    then show ?thesis unfolding contains_iff by (metis append_Nil join.simps(3))
  next
    case 2
    then show ?thesis using contains_in_context [OF 2, of "y @ sep" "''''"] by simp
  qed
qed simp

lemma contains_trans: "contains p q \<Longrightarrow> contains q s \<Longrightarrow> contains p s"
  unfolding contains_iff by (metis append.assoc)

lemma body_has_header: "contains (review_header label) (review_body e r label)"
  unfolding review_body_def by (rule contains_join) simp

lemma payloads_look_ours:
  "looks_ours (pn_head_sha r) label (remote_of (review_payload_of e r label))"
  "looks_ours (pn_head_sha r) label (remote_of (body_only e r (review_payload_of e r label)))"
proof -
  have pre: "contains p s \<Longrightarrow> contains p (s @ t)" for p s t
    using contains_in_context [of p s "[]" t] by simp
  show "looks_ours (pn_head_sha r) label (remote_of (review_payload_of e r label))"
    using body_has_header by (simp add: looks_ours_def remote_of_def review_payload_of_def)
  have "contains (review_header label) (pl_body (body_only e r (review_payload_of e r label)))"
    unfolding body_only_def review_payload_of_def by (simp only: review_payload.simps pre body_has_header)
  then show "looks_ours (pn_head_sha r) label (remote_of (body_only e r (review_payload_of e r label)))"
    by (simp add: looks_ours_def remote_of_def review_payload_of_def body_only_def)
qed

text \<open>What the code relies on of GitHub: the reviews endpoint answers a list, a success is a committed
  review, and a review refused with 422 is not there.\<close>

definition keeps_its_word :: "github \<Rightarrow> bool" where
  "keeps_its_word g \<longleftrightarrow> (\<forall>n. gn_get g n \<noteq> GetOther)
     \<and> (\<forall>n s c. gn_post g n = Status s c \<longrightarrow> (s < 300 \<longrightarrow> c) \<and> (s = 422 \<longrightarrow> \<not> c))"

lemma send_cases:
  assumes "keeps_its_word g" "pl_commit_id p = head" "looks_ours head label (remote_of p)"
    and "send_review p label g = (res, g')"
  shows "goes_on head label g g' \<and> keeps_its_word g'
    \<and> (gn_ours g' = gn_ours g \<or> gn_ours g' = gn_ours g @ [p])
    \<and> (res = Already \<longrightarrow> (\<exists>x \<in> set (gn_reviews g'). looks_ours head label x))
    \<and> (res = Response 422 \<longrightarrow> gn_ours g' = gn_ours g)
    \<and> (\<forall>s. res = Response s \<and> s < 300 \<longrightarrow> gn_ours g' = gn_ours g @ [p])"
proof -
  have lists: "\<forall>n. gn_get g n \<noteq> GetOther" using assms(1) by (simp add: keeps_its_word_def)
  have "sends head label (gn_ours g) p g (res, g')"
    using send_attempts_sends [OF lists assms(2,3) refl, of POST_ATTEMPTS] assms(4) by (simp add: send_review_def)
  then have s: "goes_on head label g g'" "told head label (gn_ours g) p res g'" by (simp_all add: sends_def)
  then have eq: "gn_post g' = gn_post g" "gn_get g' = gn_get g" by (simp_all add: goes_on_def same_network_def)
  have w: "keeps_its_word g'" using assms(1) unfolding keeps_its_word_def eq .
  have refused: "\<not> gn_post g' n = Status 422 True" for n
    using w unfolding keeps_its_word_def by blast
  have created: "k < 300 \<Longrightarrow> gn_post g' n = Status k c \<Longrightarrow> c" for n k c
    using w unfolding keeps_its_word_def by blast
  have "res = Response 422 \<longrightarrow> gn_ours g' = gn_ours g"
    using s(2) refused by (auto simp: told_def TRANSIENT_STATUSES_def split: if_splits)
  moreover have "\<forall>s. res = Response s \<and> s < 300 \<longrightarrow> gn_ours g' = gn_ours g @ [p]"
    using s(2) created by (auto simp: told_def TRANSIENT_STATUSES_def split: if_splits)
  ultimately show ?thesis using s w by (auto simp: told_def)
qed

lemma unforged_ours:
  "unforged head label g \<Longrightarrow> x \<in> set (gn_reviews g) \<Longrightarrow> looks_ours head label x \<Longrightarrow> gn_ours g \<noteq> []"
  by (auto simp: unforged_def)

text \<open>One sending, and what it reports.\<close>

definition reported :: "send_result \<Rightarrow> bool" where
  "reported res = (case res of Already \<Rightarrow> True | Unverified \<Rightarrow> False | Response s \<Rightarrow> settle_status s)"

lemma send_outcome:
  assumes "keeps_its_word g" "pl_commit_id p = head" "looks_ours head label (remote_of p)"
    and "send_review p label g = (res, g')"
  shows "\<exists>new. gn_ours g' = gn_ours g @ new \<and> (new = [] \<or> new = [p])
    \<and> (reported res \<longrightarrow> (\<exists>x \<in> set (gn_reviews g'). looks_ours head label x) \<or> new \<noteq> [])
    \<and> (reported res \<and> unforged head label g \<and> gn_ours g = [] \<longrightarrow> new \<noteq> [])"
proof -
  note c = send_cases [OF assms]
  from c obtain new where new: "gn_ours g' = gn_ours g @ new" "new = [] \<or> new = [p]" by auto
  have yes: "(\<exists>x \<in> set (gn_reviews g'). looks_ours head label x) \<or> new \<noteq> []" if "reported res"
    using that c new(1) by (cases res) (auto simp: reported_def settle_status_def)
  have "unforged head label g \<longrightarrow> unforged head label g'" using c by (simp add: goes_on_def)
  with yes new have "reported res \<and> unforged head label g \<and> gn_ours g = [] \<longrightarrow> new \<noteq> []"
    using unforged_ours by fastforce
  with new yes show ?thesis by blast
qed


lemma review_body_overflow:
  assumes "f \<in> set (overflow_findings r)"
  shows "contains (finding_body e f) (review_body e r label)"
proof -
  let ?block = "\<lambda>f. location_of f @ '' ('' @ af_severity f @ '')'' @ blank_line @ finding_body e f"
  have "contains (finding_body e f) (?block f)"
    unfolding contains_iff by (metis append.assoc append_Nil2)
  moreover have "contains (?block f) (overflow_block e r)"
    unfolding overflow_block_def by (rule contains_join) (use assms in simp)
  moreover have "overflow_findings r \<noteq> []" using assms by auto
  then have "contains (overflow_block e r) (review_body e r label)"
    unfolding review_body_def by (intro contains_join) simp
  ultimately show ?thesis by (blast intro: contains_trans)
qed

lemma body_only_parts:
  "\<exists>x. pl_body (body_only e r p) =
     pl_body p @ x @ join rule_line (map (\<lambda>f. location_of f @ blank_line @ finding_body e f) (inline_findings r))"
  by (intro exI [of _ "blank_line @ ''### Inline findings (anchoring failed)'' @ blank_line"]) (simp add: body_only_def)

lemma body_only_inline:
  assumes "f \<in> set (inline_findings r)"
  shows "contains (finding_body e f) (pl_body (body_only e r p))"
proof -
  let ?block = "\<lambda>f. location_of f @ blank_line @ finding_body e f"
  have "contains (finding_body e f) (?block f)"
    unfolding contains_iff by (metis append.assoc append_Nil2)
  moreover have "contains (?block f) (join rule_line (map ?block (inline_findings r)))"
    by (rule contains_join) (use assms in simp)
  moreover have "contains (join rule_line (map ?block (inline_findings r))) (pl_body (body_only e r p))"
  proof -
    from body_only_parts [of e r p] obtain x where
      "pl_body (body_only e r p) = pl_body p @ x @ join rule_line (map ?block (inline_findings r))" by blast
    then have "pl_body (body_only e r p) = (pl_body p @ x) @ join rule_line (map ?block (inline_findings r)) @ []"
      by (simp only: append.assoc append_Nil2)
    then show ?thesis unfolding contains_iff by blast
  qed
  ultimately show ?thesis by (blast intro: contains_trans)
qed

text \<open>A finding is shown by a review: as a comment anchored at its place, or in the body.\<close>

definition shown_in :: "egress \<Rightarrow> review_payload \<Rightarrow> agentic_finding \<Rightarrow> bool" where
  "shown_in e p f \<longleftrightarrow>
     (\<exists>c \<in> set (pl_comments p). ic_body c = finding_body e f \<and> ic_path c = af_file f
        \<and> af_line f = Some (case ic_start_line c of None \<Rightarrow> ic_line c | Some n \<Rightarrow> n))
     \<or> contains (finding_body e f) (pl_body p)"

definition anchored_in :: "(string \<times> int) set \<Rightarrow> inline_comment \<Rightarrow> bool" where
  "anchored_in positions c \<longleftrightarrow> (ic_path c, ic_line c) \<in> positions
     \<and> (case ic_start_line c of None \<Rightarrow> True | Some n \<Rightarrow> n < ic_line c \<and> (ic_path c, n) \<in> positions)"

lemma inline_of_shown:
  assumes "anchorable r f"
  shows "ic_body (inline_of e f) = finding_body e f \<and> ic_path (inline_of e f) = af_file f
    \<and> af_line f = Some (case ic_start_line (inline_of e f) of None \<Rightarrow> ic_line (inline_of e f) | Some n \<Rightarrow> n)"
  using assms by (auto simp: anchorable_def inline_of_def Let_def split: option.splits)

lemma inline_of_anchored:
  assumes "anchorable r f" "pn_diff_positions r \<noteq> {}"
  shows "anchored_in (pn_diff_positions r) (inline_of e f)"
  using assms by (auto simp: anchorable_def inline_of_def anchored_in_def Let_def split: option.splits if_splits)

lemma payload_shows:
  assumes "p = review_payload_of e r label \<or> p = body_only e r (review_payload_of e r label)"
  shows "list_all (shown_in e p) (pn_findings r) \<and> pl_commit_id p = pn_head_sha r
    \<and> (pn_diff_positions r = {} \<or> list_all (anchored_in (pn_diff_positions r)) (pl_comments p))"
proof -
  let ?p = "review_payload_of e r label"
  have pre: "contains q s \<Longrightarrow> contains q (s @ t)" for q s t
    using contains_in_context [of q s "[]" t] by simp
  have over: "contains (finding_body e f) (pl_body p)" if "f \<in> set (pn_findings r)" "\<not> anchorable r f" for f
  proof -
    have "contains (finding_body e f) (pl_body ?p)"
      using review_body_overflow [of f r e label] that by (simp add: overflow_findings_def review_payload_of_def)
    with assms pre body_only_parts [of e r ?p] show ?thesis by metis
  qed
  have inl: "shown_in e p f" if "f \<in> set (pn_findings r)" "anchorable r f" for f
    using assms
  proof
    assume p: "p = ?p"
    have "inline_of e f \<in> set (pl_comments p)" using that p by (simp add: review_payload_of_def inline_findings_def)
    with inline_of_shown [OF that(2), of e] show ?thesis unfolding shown_in_def by blast
  next
    assume "p = body_only e r ?p"
    with body_only_inline [of f r e ?p] that show ?thesis by (simp add: shown_in_def inline_findings_def)
  qed
  have "list_all (shown_in e p) (pn_findings r)"
    using over inl by (auto simp: list_all_iff shown_in_def)
  moreover have "pl_commit_id p = pn_head_sha r" using assms by (auto simp: review_payload_of_def body_only_def)
  moreover have "anchored_in (pn_diff_positions r) c" if "c \<in> set (pl_comments p)" "pn_diff_positions r \<noteq> {}" for c
  proof -
    from that(1) assms obtain f where "anchorable r f" "c = inline_of e f"
      by (auto simp: review_payload_of_def body_only_def inline_findings_def)
    with inline_of_anchored that(2) show ?thesis by blast
  qed
  then have "pn_diff_positions r = {} \<or> list_all (anchored_in (pn_diff_positions r)) (pl_comments p)"
    by (auto simp: list_all_iff)
  ultimately show ?thesis by blast
qed

text \<open>C24: signals mean a posted review, and the review holds every finding. When \<open>normalize_output\<close>
  returns signals, they are those of the claimed review's findings, one each; exactly one review was
  committed, on the commit that was reviewed; every finding's marked text is a comment at the
  finding's place or stands in the body; and with a parsed diff every comment is anchored in it.\<close>

definition branch_label :: "egress \<Rightarrow> string" where
  "branch_label e = (case eg_compare_label e of Some l \<Rightarrow> if l \<noteq> '''' then l else eg_model e | None \<Rightarrow> eg_model e)"


lemma bare_bare: "bare_name (bare_name m) = bare_name m"
proof -
  have "last (split_char (CHR ''/'') m) \<in> set (split_char (CHR ''/'') m)" by simp
  then have "CHR ''/'' \<notin> set (bare_name m)" using set_split_char unfolding bare_name_def by metis
  then show ?thesis using split_char_free [of "CHR ''/''" "bare_name m"] by (simp add: bare_name_def)
qed

lemma evict_fits: "k \<notin> fst ` set (evict k d) \<Longrightarrow> length (evict k d) < MAX_PENDING"
  by (induction k d rule: evict.induct) (subst (asm) (3) evict.simps, subst evict.simps, auto split: if_splits)

lemma evict_le: "length (evict k d) \<le> length d"
  by (induction k d rule: evict.induct) (subst evict.simps, auto)

lemma length_dict_set: "length (dict_set k v d) = (if k \<in> fst ` set d then length d else Suc (length d))"
  by (induction d) (auto, force)

lemma claim_key_cases:
  assumes "claim_key pr_url m ident d = Some k"
  shows "(k \<in> fst ` set d \<and> k = (pr_url, bare_name m, ident)) \<or> (k \<in> fst ` set d \<and> k = (pr_url, m, ident))
    \<or> (filter (\<lambda>k. fst k = pr_url \<and> snd (snd k) = ident) (map fst d) = [k] \<and> bare_name m = bare_name (fst (snd k)))"
proof (cases "(pr_url, bare_name m, ident) \<in> fst ` set d \<or> (pr_url, m, ident) \<in> fst ` set d")
  case True
  with assms show ?thesis
    by (cases "(pr_url, bare_name m, ident) \<in> fst ` set d") (simp_all add: claim_key_def)
next
  case False
  then have "(case filter (\<lambda>k. fst k = pr_url \<and> snd (snd k) = ident) (map fst d) of
             [k] \<Rightarrow> if bare_name m \<noteq> '''' \<and> bare_name m = bare_name (fst (snd k)) then Some k else None
           | _ \<Rightarrow> None) = Some k" using assms by (simp add: claim_key_def)
  then show ?thesis
    by (cases "filter (\<lambda>k. fst k = pr_url \<and> snd (snd k) = ident) (map fst d)")
      (auto split: list.splits if_splits)
qed

lemma claim_stashed: "fst (claim pr_url m ident (stash_review (pr_url, bare_name m, ident) r d)) = Some r"
proof -
  have "claim_key pr_url m ident (stash_review (pr_url, bare_name m, ident) r d) = Some (pr_url, bare_name m, ident)"
    by (simp add: claim_key_def stash_review_def keys_dict_set)
  then show ?thesis by (simp add: claim_def stash_review_def map_of_dict_set)
qed

text \<open>C35: a branch claims its own review, and at most once. What \<open>_claim\<close> hands out was stashed for
  the same pull request under the same posting identity by a model of the same bare name, and leaves
  the stash with it; a review just stashed under a model's bare name is what the model claims, under
  any provider prefix; and the stash never grows past its cap.\<close>

theorem branch_claims_its_own_review:
  "(case claim pr_url m ident d of
      (None, d') \<Rightarrow> d' = d
    | (Some r, d') \<Rightarrow> \<exists>k. map_of d k = Some r \<and> fst k = pr_url \<and> bare_name (fst (snd k)) = bare_name m
        \<and> snd (snd k) = ident \<and> d' = dict_pop k d)
   \<and> fst (claim pr_url m ident (stash_review (pr_url, bare_name m, ident) r d)) = Some r
   \<and> length (stash_review k r d) \<le> max MAX_PENDING (length d)"
proof (intro conjI)
  show "case claim pr_url m ident d of
      (None, d') \<Rightarrow> d' = d
    | (Some r, d') \<Rightarrow> \<exists>k. map_of d k = Some r \<and> fst k = pr_url \<and> bare_name (fst (snd k)) = bare_name m
        \<and> snd (snd k) = ident \<and> d' = dict_pop k d"
  proof (cases "claim_key pr_url m ident d")
    case (Some k)
    from claim_key_cases [OF Some] have "k \<in> fst ` set d \<and> fst k = pr_url \<and> bare_name (fst (snd k)) = bare_name m \<and> snd (snd k) = ident"
    proof (elim disjE)
      assume only: "filter (\<lambda>k. fst k = pr_url \<and> snd (snd k) = ident) (map fst d) = [k] \<and> bare_name m = bare_name (fst (snd k))"
      then have "k \<in> set (filter (\<lambda>k. fst k = pr_url \<and> snd (snd k) = ident) (map fst d))" by simp
      then have "k \<in> set (map fst d) \<and> fst k = pr_url \<and> snd (snd k) = ident" unfolding set_filter by blast
      with only show ?thesis by simp
    qed (metis bare_bare fst_conv snd_conv)+
    moreover from this obtain r where "map_of d k = Some r" by (metis map_of_eq_None_iff option.exhaust)
    ultimately show ?thesis using Some by (auto simp: claim_def)
  qed (simp add: claim_def)
next
  show "fst (claim pr_url m ident (stash_review (pr_url, bare_name m, ident) r d)) = Some r"
    by (rule claim_stashed)
next
  show "length (stash_review k r d) \<le> max MAX_PENDING (length d)"
    using evict_fits [of k d] evict_le [of k d] by (auto simp: stash_review_def length_dict_set)
qed

section \<open>A review whose answer is lost\<close>

definition sample_egress :: egress where
  "sample_egress =
     \<lparr>eg_sha1 = (\<lambda>s. s), eg_dump = id_dump, eg_pr_url = ''u'', eg_model = ''p/m'', eg_role = ''active'',
      eg_compare_label = None\<rparr>"

definition published_finding :: "string \<Rightarrow> int \<Rightarrow> agentic_finding" where
  "published_finding file n =
     \<lparr>af_file = file, af_line = Some n, af_end_line = None, af_severity = ''high'', af_category = ''bug'',
      af_title = ''Leak'', af_body = ''b'', af_evidence = ''e'', af_confidence = ''high''\<rparr>"

definition sample_pending :: pending_review where
  "sample_pending = pending_of [published_finding ''x.py'' 2, published_finding ''y.py'' 9] ''s'' ''h1''
     ({''x.py''}, {(''x.py'', 1), (''x.py'', 2)})"

definition sample_stash :: stash where
  "sample_stash = stash_review (''u'', ''m'', ''i'') sample_pending []"

text \<open>The first request is committed but its answer is lost; the second would be refused.\<close>

definition sample_github :: github where
  "sample_github =
     \<lparr>gn_post = (\<lambda>n. if n = 0 then Broken True else Status 422 False), gn_get = (\<lambda>_. GetList),
      gn_late = (\<lambda>_. False), gn_others = (\<lambda>_. []), gn_requests = 0, gn_readings = 0,
      gn_reviews = [], gn_ours = []\<rparr>"

lemma sample_github_ok: "keeps_its_word sample_github" "unforged head label sample_github" "gn_ours sample_github = []"
  by (auto simp: keeps_its_word_def unforged_def sample_github_def)

definition sample_post :: "bool \<times> github" where
  "sample_post = post_review sample_egress sample_pending ''p/m'' sample_github"


definition sample_normalized :: "review_signal list \<times> stash \<times> github" where
  "sample_normalized = normalize_output sample_egress ''i'' sample_stash sample_github"


text \<open>The read-back trusts the commit and the header alone, so anyone's review that quotes the header
  of a branch passes for the branch's own: a post that never arrived is reported as posted.\<close>

definition forged_github :: github where
  "forged_github = sample_github\<lparr>gn_post := (\<lambda>_. Broken False),
     gn_reviews := [\<lparr>rr_commit = Some ''h1'', rr_body = Some (''see '' @ review_header ''p/m'')\<rparr>]\<rparr>"

theorem forged_header_passes_read_back:
  "fst (post_review sample_egress sample_pending ''p/m'' forged_github)
   \<and> gn_ours (snd (post_review sample_egress sample_pending ''p/m'' forged_github)) = []"
  by code_simp

end
