(* ===== verification/Latch.thy ===== *)
theory Latch
  imports Fuko_Prelude
begin

text \<open>
  \<open>db_best_effort\<close> of \<open>sidecar/db.py\<close> and its fast-fail latch. Threads of the process share the
  latch, so the calls are the steps of a relation on a system of any number of calls in flight: each
  is admitted with the generation it saw or refused, gets its connection or fails, and runs its
  body. Times are milliseconds of the monotonic clock. The log records what callers and operators see.
\<close>

section \<open>The latch\<close>

definition BEST_EFFORT_COOLDOWN :: int where "BEST_EFFORT_COOLDOWN = 60000"

record latch =
  lt_until :: int
  lt_gen :: nat

definition latch_open :: latch where "latch_open = \<lparr>lt_until = 0, lt_gen = 0\<rparr>"

definition latch_closed :: "int \<Rightarrow> latch \<Rightarrow> bool" where
  "latch_closed now l \<longleftrightarrow> lt_until l \<noteq> 0 \<and> now < lt_until l"

text \<open>\<open>None\<close> is \<open>StoreUnavailable\<close>.\<close>

definition enter_probe :: "int \<Rightarrow> latch \<Rightarrow> nat option" where
  "enter_probe now l = (if latch_closed now l then None else Some (lt_gen l))"

text \<open>The flag says whether the outage is announced.\<close>

definition latch :: "int \<Rightarrow> latch \<Rightarrow> bool \<times> latch" where
  "latch now l = (\<not> latch_closed now l, \<lparr>lt_until = now + BEST_EFFORT_COOLDOWN, lt_gen = Suc (lt_gen l)\<rparr>)"

definition unlatch :: "nat \<Rightarrow> latch \<Rightarrow> latch" where
  "unlatch gen l = (if lt_gen l \<noteq> gen then l else l\<lparr>lt_until := 0\<rparr>)"

text \<open>The pool's statistics: no pool or unreadable is \<open>None\<close>; an absent entry reads as 0.\<close>

type_synonym pool_stats = "(nat option \<times> nat option) option"

definition stat :: "nat option \<Rightarrow> nat" where "stat x = (case x of None \<Rightarrow> 0 | Some n \<Rightarrow> n)"

definition looks_saturated :: "pool_stats \<Rightarrow> bool" where
  "looks_saturated stats =
     (case stats of None \<Rightarrow> False | Some (held_conns, available) \<Rightarrow> stat held_conns > 0 \<and> stat available = 0)"

datatype db_error = PoolTimeoutError pool_stats | OperationalError | StatementError

definition latches :: "db_error \<Rightarrow> bool" where
  "latches e = (case e of PoolTimeoutError stats \<Rightarrow> \<not> looks_saturated stats | OperationalError \<Rightarrow> True | StatementError \<Rightarrow> False)"

section \<open>Calls in flight\<close>

datatype call_phase = Probing nat | Holding

datatype db_event = Admitted int | Refused int | Latched int | Announced int | Answered | Failed

record db_system =
  db_now :: int
  db_latch :: latch
  db_calls :: "nat \<Rightarrow> call_phase option"
  db_log :: "db_event list"

definition db_start :: "int \<Rightarrow> db_system" where
  "db_start t = \<lparr>db_now = t, db_latch = latch_open, db_calls = Map.empty, db_log = []\<rparr>"

definition log_event :: "db_event \<Rightarrow> db_system \<Rightarrow> db_system" where
  "log_event e s = s\<lparr>db_log := db_log s @ [e]\<rparr>"

text \<open>An exception out of the \<open>with\<close> statement, from the acquisition or from the body.\<close>

definition fail_call :: "nat \<Rightarrow> db_error \<Rightarrow> db_system \<Rightarrow> db_system" where
  "fail_call i e s =
     (let s1 = s\<lparr>db_calls := (db_calls s)(i := None)\<rparr>
      in if latches e
         then (let (announce, l) = latch (db_now s) (db_latch s);
                   s2 = log_event (Latched (db_now s)) (s1\<lparr>db_latch := l\<rparr>)
               in log_event Failed (if announce then log_event (Announced (db_now s)) s2 else s2))
         else log_event Failed s1)"

inductive db_step :: "db_system \<Rightarrow> db_system \<Rightarrow> bool" where
  tick: "0 \<le> d \<Longrightarrow> db_step s (s\<lparr>db_now := db_now s + d\<rparr>)"
| refused: "enter_probe (db_now s) (db_latch s) = None \<Longrightarrow> db_step s (log_event (Refused (db_now s)) s)"
| admitted: "db_calls s i = None \<Longrightarrow> enter_probe (db_now s) (db_latch s) = Some gen \<Longrightarrow>
    db_step s (log_event (Admitted (db_now s)) (s\<lparr>db_calls := (db_calls s)(i \<mapsto> Probing gen)\<rparr>))"
| acquired: "db_calls s i = Some (Probing gen) \<Longrightarrow>
    db_step s (s\<lparr>db_latch := unlatch gen (db_latch s), db_calls := (db_calls s)(i \<mapsto> Holding)\<rparr>)"
| failed: "db_calls s i = Some phase \<Longrightarrow> db_step s (fail_call i e s)"
| answered: "db_calls s i = Some Holding \<Longrightarrow>
    db_step s (log_event Answered (s\<lparr>db_calls := (db_calls s)(i := None)\<rparr>))"

inductive_cases db_stepE: "db_step s t"

inductive db_reach :: "db_system \<Rightarrow> db_system \<Rightarrow> bool" where
  start: "db_reach s s"
| step: "db_reach s t \<Longrightarrow> db_step t u \<Longrightarrow> db_reach s u"

section \<open>The invariant\<close>

fun last_failure :: "db_event list \<Rightarrow> int option" where
  "last_failure [] = None"
| "last_failure (e # es) =
     (case last_failure es of Some t \<Rightarrow> Some t | None \<Rightarrow> (case e of Latched t \<Rightarrow> Some t | _ \<Rightarrow> None))"

lemma last_failure_append:
  "last_failure (es @ [e]) = (case e of Latched t \<Rightarrow> Some t | _ \<Rightarrow> last_failure es)"
  by (induction es) (auto split: db_event.splits option.splits)

text \<open>Every admission comes at least a cooldown after every failure logged before it.\<close>

definition held :: "db_event list \<Rightarrow> bool" where
  "held es \<longleftrightarrow> (\<forall>i j t u. i < j \<and> j < length es \<and> es ! i = Latched t \<and> es ! j = Admitted u
     \<longrightarrow> t + BEST_EFFORT_COOLDOWN \<le> u)"

text \<open>After the last failure at \<open>t\<close> the latch is closed until the cooldown is over, or was reopened
  then; a call in flight that could reopen it was admitted then.\<close>

definition latch_inv :: "db_system \<Rightarrow> bool" where
  "latch_inv s \<longleftrightarrow> 0 \<le> db_now s \<and> held (db_log s)
     \<and> (\<forall>t. Latched t \<in> set (db_log s) \<longrightarrow> 0 \<le> t \<and> t \<le> db_now s)
     \<and> (\<forall>i g. db_calls s i = Some (Probing g) \<longrightarrow> g \<le> lt_gen (db_latch s))
     \<and> (last_failure (db_log s) = None \<longrightarrow> lt_until (db_latch s) = 0)
     \<and> (\<forall>t. last_failure (db_log s) = Some t \<longrightarrow>
            (\<forall>u. Latched u \<in> set (db_log s) \<longrightarrow> u \<le> t)
            \<and> (lt_until (db_latch s) = t + BEST_EFFORT_COOLDOWN
               \<or> lt_until (db_latch s) = 0 \<and> t + BEST_EFFORT_COOLDOWN \<le> db_now s)
            \<and> (\<forall>i. db_calls s i = Some (Probing (lt_gen (db_latch s))) \<longrightarrow> t + BEST_EFFORT_COOLDOWN \<le> db_now s))"

lemma held_append:
  "held (es @ [e]) \<longleftrightarrow> held es \<and> (\<forall>u. e = Admitted u \<longrightarrow> (\<forall>t. Latched t \<in> set es \<longrightarrow> t + BEST_EFFORT_COOLDOWN \<le> u))"
proof
  assume h: "held (es @ [e])"
  have "held es"
    unfolding held_def
  proof (intro allI impI)
    fix i j t u
    assume a: "i < j \<and> j < length es \<and> es ! i = Latched t \<and> es ! j = Admitted u"
    then have "(es @ [e]) ! i = Latched t" "(es @ [e]) ! j = Admitted u" "j < length (es @ [e])"
      by (simp_all add: nth_append)
    with h a show "t + BEST_EFFORT_COOLDOWN \<le> u" unfolding held_def by blast
  qed
  moreover have "t + BEST_EFFORT_COOLDOWN \<le> u" if "e = Admitted u" "Latched t \<in> set es" for t u
  proof -
    from that(2) obtain i where i: "i < length es" "es ! i = Latched t" by (auto simp: in_set_conv_nth)
    then have "(es @ [e]) ! i = Latched t" "(es @ [e]) ! length es = Admitted u" using that(1) by (simp_all add: nth_append)
    with h i(1) show ?thesis unfolding held_def by (metis length_append_singleton lessI)
  qed
  ultimately show "held es \<and> (\<forall>u. e = Admitted u \<longrightarrow> (\<forall>t. Latched t \<in> set es \<longrightarrow> t + BEST_EFFORT_COOLDOWN \<le> u))"
    by blast
next
  assume h: "held es \<and> (\<forall>u. e = Admitted u \<longrightarrow> (\<forall>t. Latched t \<in> set es \<longrightarrow> t + BEST_EFFORT_COOLDOWN \<le> u))"
  show "held (es @ [e])"
    unfolding held_def
  proof (intro allI impI)
    fix i j t u
    assume a: "i < j \<and> j < length (es @ [e]) \<and> (es @ [e]) ! i = Latched t \<and> (es @ [e]) ! j = Admitted u"
    then have i: "es ! i = Latched t" "i < length es" by (auto simp: nth_append split: if_splits)
    show "t + BEST_EFFORT_COOLDOWN \<le> u"
    proof (cases "j < length es")
      case True
      with a i h show ?thesis unfolding held_def by (metis nth_append)
    next
      case False
      with a have "e = Admitted u" by (auto simp: nth_append less_Suc_eq)
      with h i show ?thesis by (metis nth_mem)
    qed
  qed
qed

lemma last_failure_mem: "last_failure es = Some t \<Longrightarrow> Latched t \<in> set es"
  by (induction es) (auto split: option.splits db_event.splits)

lemma last_failure_None: "last_failure es = None \<Longrightarrow> Latched t \<notin> set es"
  by (induction es) (auto split: option.splits db_event.splits)

text \<open>An event that is no admission and no failure changes nothing the invariant reads.\<close>

lemma inv_silent:
  "latch_inv s \<Longrightarrow> (\<And>t. e \<noteq> Latched t) \<Longrightarrow> (\<And>u. e \<noteq> Admitted u) \<Longrightarrow> latch_inv (log_event e s)"
  by (cases e) (auto simp: latch_inv_def log_event_def held_append last_failure_append)

lemma cooldown_pos: "0 < BEST_EFFORT_COOLDOWN"
  by (simp add: BEST_EFFORT_COOLDOWN_def)

lemma inv_admitted:
  assumes "latch_inv s" "enter_probe (db_now s) (db_latch s) = Some gen"
  shows "latch_inv (log_event (Admitted (db_now s)) (s\<lparr>db_calls := (db_calls s)(i \<mapsto> Probing gen)\<rparr>))"
proof -
  have gen: "gen = lt_gen (db_latch s)" and opn: "lt_until (db_latch s) = 0 \<or> lt_until (db_latch s) \<le> db_now s"
    using assms(2) by (auto simp: enter_probe_def latch_closed_def split: if_splits)
  show ?thesis
  proof (cases "last_failure (db_log s)")
    case None
    then have "Latched t \<notin> set (db_log s)" for t by (rule last_failure_None)
    with assms(1) None gen show ?thesis
      by (auto simp: latch_inv_def log_event_def held_append last_failure_append)
  next
    case (Some t)
    then have "t + BEST_EFFORT_COOLDOWN \<le> db_now s"
      using assms(1) opn cooldown_pos last_failure_mem [OF Some] by (auto simp: latch_inv_def)
    with assms(1) Some gen show ?thesis
      by (fastforce simp: latch_inv_def log_event_def held_append last_failure_append)
  qed
qed

lemma inv_failed:
  assumes "latch_inv s"
  shows "latch_inv (fail_call i e s)"
proof -
  let ?s1 = "s\<lparr>db_calls := (db_calls s)(i := None)\<rparr>"
  have s1: "latch_inv ?s1" using assms by (auto simp: latch_inv_def split: option.splits)
  show ?thesis
  proof (cases "latches e")
    case False
    with inv_silent [OF s1] show ?thesis by (simp add: fail_call_def)
  next
    case True
    let ?s2 = "log_event (Latched (db_now s)) (?s1\<lparr>db_latch := snd (latch (db_now s) (db_latch s))\<rparr>)"
    have "latch_inv ?s2"
    proof -
      have "g \<le> lt_gen (db_latch s)" if "db_calls s j = Some (Probing g)" for j g
        using assms that by (auto simp: latch_inv_def)
      then have "g \<le> Suc (lt_gen (db_latch s)) \<and> g \<noteq> Suc (lt_gen (db_latch s))"
        if "db_calls s j = Some (Probing g)" for j g using that by fastforce
      then show ?thesis
        using assms by (auto simp: latch_inv_def log_event_def held_append last_failure_append latch_def)
    qed
    with True inv_silent show ?thesis by (auto simp: fail_call_def latch_def Let_def)
  qed
qed

lemma latch_step_inv: "db_step s t \<Longrightarrow> latch_inv s \<Longrightarrow> latch_inv t"
proof (induction rule: db_step.induct)
  case (tick d s)
  then show ?case by (fastforce simp: latch_inv_def split: option.splits)
next
  case (refused s)
  then show ?case using inv_silent by simp
next
  case (admitted s i gen)
  then show ?case using inv_admitted by simp
next
  case (acquired s i gen)
  then show ?case
    by (auto simp: latch_inv_def unlatch_def split: option.splits)
next
  case (failed s i phase e)
  then show ?case using inv_failed by simp
next
  case (answered s i)
  then have "latch_inv (s\<lparr>db_calls := (db_calls s)(i := None)\<rparr>)" by (auto simp: latch_inv_def split: option.splits)
  then show ?case using inv_silent by simp
qed

lemma db_reach_inv: "db_reach s t \<Longrightarrow> latch_inv s \<Longrightarrow> latch_inv t"
  by (induction rule: db_reach.induct) (auto intro: latch_step_inv)

section \<open>The latch holds for the cooldown\<close>

text \<open>C6: one failure silences the store for exactly the cooldown. However the calls in flight
  interleave, no call is admitted before a cooldown has passed since every failure logged before it
  (the late success of an older call does not reopen the latch), and a call is refused only within
  a cooldown of the last failure.\<close>

theorem failure_holds_the_latch:
  assumes "0 \<le> t0" "db_reach (db_start t0) s"
  shows "held (db_log s)
    \<and> (enter_probe (db_now s) (db_latch s) = None
        \<longrightarrow> (\<exists>t. last_failure (db_log s) = Some t \<and> t \<le> db_now s \<and> db_now s < t + BEST_EFFORT_COOLDOWN))"
proof -
  have "latch_inv (db_start t0)"
    using assms(1) by (simp add: latch_inv_def db_start_def latch_open_def held_def)
  with assms(2) have inv: "latch_inv s" by (rule db_reach_inv)
  moreover have "\<exists>t. last_failure (db_log s) = Some t \<and> t \<le> db_now s \<and> db_now s < t + BEST_EFFORT_COOLDOWN"
    if "enter_probe (db_now s) (db_latch s) = None"
  proof -
    from that have closed: "lt_until (db_latch s) \<noteq> 0" "db_now s < lt_until (db_latch s)"
      by (auto simp: enter_probe_def latch_closed_def split: if_splits)
    with inv obtain t where t: "last_failure (db_log s) = Some t" by (auto simp: latch_inv_def)
    with inv closed last_failure_mem [OF t] show ?thesis by (auto simp: latch_inv_def)
  qed
  ultimately show ?thesis by (simp add: latch_inv_def)
qed

text \<open>Two calls are admitted; one fails and closes the latch, then the other gets its connection, too
  late to reopen it: a third call is refused.\<close>

definition sample_admitted :: "nat \<Rightarrow> db_system \<Rightarrow> db_system" where
  "sample_admitted i s = log_event (Admitted (db_now s)) (s\<lparr>db_calls := (db_calls s)(i \<mapsto> Probing (lt_gen (db_latch s)))\<rparr>)"

definition sample_race :: db_system where
  "sample_race =
     (let s1 = sample_admitted 1 (sample_admitted 0 (db_start 5));
          s2 = fail_call 1 OperationalError s1;
          s3 = s2\<lparr>db_latch := unlatch 0 (db_latch s2), db_calls := (db_calls s2)(0 \<mapsto> Holding)\<rparr>
      in log_event (Refused (db_now s3)) s3)"

lemma sample_race_reached: "db_reach (db_start 5) sample_race"
proof -
  let ?s0 = "db_start 5"
  let ?s1 = "sample_admitted 0 ?s0" let ?s2 = "sample_admitted 1 ?s1"
  let ?s3 = "fail_call 1 OperationalError ?s2"
  let ?s4 = "?s3\<lparr>db_latch := unlatch 0 (db_latch ?s3), db_calls := (db_calls ?s3)(0 \<mapsto> Holding)\<rparr>"
  note d = sample_admitted_def db_start_def latch_open_def log_event_def fail_call_def latches_def latch_def
    latch_closed_def enter_probe_def unlatch_def
  have "db_step ?s0 ?s1" unfolding sample_admitted_def by (rule admitted) (simp_all add: d)
  moreover have "db_step ?s1 ?s2" unfolding sample_admitted_def [of 1] by (rule admitted) (simp_all add: d)
  moreover have "db_step ?s2 ?s3" by (rule failed [where phase = "Probing 0"]) (simp add: d)
  moreover have "db_step ?s3 ?s4" by (rule acquired) (simp add: d)
  moreover have "db_step ?s4 (log_event (Refused (db_now ?s4)) ?s4)"
    by (rule refused) (simp add: d BEST_EFFORT_COOLDOWN_def)
  ultimately have "db_reach ?s0 (log_event (Refused (db_now ?s4)) ?s4)"
    by (meson db_reach.start db_reach.step)
  then show ?thesis by (simp only: sample_race_def Let_def)
qed

theorem failure_holds_the_latch_witness:
  "\<exists>t. last_failure (db_log sample_race) = Some t \<and> db_now sample_race < t + BEST_EFFORT_COOLDOWN"
proof -
  have "enter_probe (db_now sample_race) (db_latch sample_race) = None" by code_simp
  with failure_holds_the_latch [OF _ sample_race_reached] show ?thesis by auto
qed

end
