(* ===== verification/Review_Output.thy ===== *)
theory Review_Output
  imports Complex_Main Prior_State
begin

text \<open>
  \<open>parse_review\<close> of \<open>sidecar/reviewer/prompt.py\<close>: from the agent's final text to a review, with the
  string-aware scan that finds the object, the salvage of a truncated payload, the pruning of
  condemned coverage and the messages of a failure; and how a failure reaches the run's detail
  (\<open>_failure_result\<close> of \<open>backends/agentic.py\<close>). The JSON decoder is the standard library's and the
  schema validator pydantic's: \<open>loads\<close> gives a value or the offset it failed at, \<open>validate\<close> a review
  or its errors, and \<open>py_str\<close> is \<open>str\<close> on a decoded value.
\<close>

section \<open>Values and errors\<close>

text \<open>A decoded JSON value; a float is its value, \<open>None\<close> for the literals that are not finite.\<close>

datatype json = JNull | JBool bool | JInt int | JFloat "rat option" | JStr string | JList "json list" | JObj "(string, json) dict"

datatype loc = LKey string | LIdx nat

record verror =
  ve_loc :: "loc list"
  ve_type :: string

record review_codec =
  rc_loads :: "string \<Rightarrow> nat + json"
  rc_validate :: "json \<Rightarrow> verror list + agentic_review"
  rc_str :: "json \<Rightarrow> string"

section \<open>The scan\<close>

record object_scan =
  os_cuts :: "nat list"
  os_end :: "nat option"
  os_rival :: bool

definition QUOTE :: char where "QUOTE = CHR 0x22"
definition BACKSLASH :: char where "BACKSLASH = CHR 0x5C"
definition OPENERS :: "char list" where "OPENERS = ''{[''"
definition CLOSERS :: "char list" where "CLOSERS = ''}]''"

text \<open>The loop up to the close, at offset \<open>i\<close>; after it only a brace matters.\<close>

fun scan_from :: "nat \<Rightarrow> int \<Rightarrow> bool \<Rightarrow> bool \<Rightarrow> nat list \<Rightarrow> string \<Rightarrow> object_scan" where
  "scan_from i depth in_string escaped cuts [] = \<lparr>os_cuts = cuts, os_end = None, os_rival = False\<rparr>"
| "scan_from i depth in_string escaped cuts (c # cs) =
     (if in_string
      then (if escaped then scan_from (Suc i) depth True False cuts cs
            else if c = BACKSLASH then scan_from (Suc i) depth True True cuts cs
            else scan_from (Suc i) depth (c \<noteq> QUOTE) False cuts cs)
      else if c = QUOTE then scan_from (Suc i) depth True escaped cuts cs
      else if c \<in> set OPENERS then scan_from (Suc i) (depth + 1) False escaped cuts cs
      else if c \<in> set CLOSERS
      then (if depth - 1 = 1 then scan_from (Suc i) 1 False escaped (cuts @ [Suc i]) cs
            else if depth - 1 = 0
            then (if c \<noteq> CHR ''}'' then \<lparr>os_cuts = cuts, os_end = None, os_rival = False\<rparr>
                  else \<lparr>os_cuts = cuts, os_end = Some (Suc i), os_rival = CHR ''{'' \<in> set cs\<rparr>)
            else scan_from (Suc i) (depth - 1) False escaped cuts cs)
      else if c = CHR '','' \<and> depth = 1 then scan_from (Suc i) depth False escaped (cuts @ [i]) cs
      else scan_from (Suc i) depth False escaped cuts cs)"

definition scan_object :: "string \<Rightarrow> object_scan" where
  "scan_object body = scan_from 0 0 False False [] body"

section \<open>The salvage\<close>

definition SALVAGE_ANCHOR :: string where "SALVAGE_ANCHOR = ''findings''"
definition PUNCTUATION_ONLY :: "char list" where
  "PUNCTUATION_ONLY = [CHR '' '', CHR 0x09, CHR 0x0D, CHR 0x0A, CHR '','', CHR ''}'']"

fun is_list :: "json option \<Rightarrow> bool" where
  "is_list (Some (JList js)) = True"
| "is_list x = False"

definition jget :: "json \<Rightarrow> string \<Rightarrow> json option" where
  "jget j k = (case j of JObj d \<Rightarrow> map_of d k | _ \<Rightarrow> None)"

fun salvage_from :: "review_codec \<Rightarrow> string \<Rightarrow> nat list \<Rightarrow> (json \<times> string) option" where
  "salvage_from rc body [] = None"
| "salvage_from rc body (c # cuts) =
     (case rc_loads rc (take c body @ ''}'') of
        Inl _ \<Rightarrow> salvage_from rc body cuts
      | Inr payload \<Rightarrow>
          if is_list (jget payload SALVAGE_ANCHOR) then Some (payload, drop c body) else None)"

definition salvage_prefix :: "review_codec \<Rightarrow> string \<Rightarrow> nat \<Rightarrow> nat list \<Rightarrow> (json \<times> string) option" where
  "salvage_prefix rc body limit cuts = salvage_from rc body (rev (filter (\<lambda>c. c \<le> limit) cuts))"

section \<open>Condemned coverage\<close>

definition EXAMINED_REQUIRED_FIELDS :: "string list" where
  "EXAMINED_REQUIRED_FIELDS = [''file'', ''checked'', ''conclusion'', ''evidence'']"

record examined_faults =
  xf_hollow :: "(nat, (string, bool) dict) dict"
  xf_shapeless :: "nat set"
  xf_whole :: bool
  xf_others :: nat

definition no_faults :: examined_faults where
  "no_faults = \<lparr>xf_hollow = [], xf_shapeless = {}, xf_whole = False, xf_others = 0\<rparr>"

definition salvageable :: "examined_faults \<Rightarrow> bool" where
  "salvageable f \<longleftrightarrow> xf_others f = 0 \<and> (xf_whole f \<or> xf_hollow f \<noteq> [])"

definition loc_text :: "loc \<Rightarrow> string" where
  "loc_text l = (case l of LKey k \<Rightarrow> k | LIdx i \<Rightarrow> str_int (int i))"

definition entry_faults :: "nat \<Rightarrow> examined_faults \<Rightarrow> (string, bool) dict" where
  "entry_faults i f = (case map_of (xf_hollow f) i of None \<Rightarrow> [] | Some d \<Rightarrow> d)"

definition sort_error :: "verror \<Rightarrow> examined_faults \<Rightarrow> examined_faults" where
  "sort_error err f =
     (case ve_loc err of
        LKey k # rest_loc \<Rightarrow>
          if k \<noteq> ''examined'' then f\<lparr>xf_others := Suc (xf_others f)\<rparr>
          else (case rest_loc of
                  LIdx i # x # _ \<Rightarrow>
                    f\<lparr>xf_hollow := dict_set i (dict_set (loc_text x) (ve_type err = ''missing'') (entry_faults i f)) (xf_hollow f)\<rparr>
                | [LIdx i] \<Rightarrow>
                    f\<lparr>xf_hollow := dict_set i (fold (\<lambda>k d. dict_set k False d) EXAMINED_REQUIRED_FIELDS (entry_faults i f)) (xf_hollow f),
                      xf_shapeless := insert i (xf_shapeless f)\<rparr>
                | _ \<Rightarrow> f\<lparr>xf_whole := True\<rparr>)
      | _ \<Rightarrow> f\<lparr>xf_others := Suc (xf_others f)\<rparr>)"

definition examined_faults_of :: "verror list \<Rightarrow> examined_faults" where
  "examined_faults_of errs = fold sort_error errs no_faults"

definition drop_entries :: "nat set \<Rightarrow> json list \<Rightarrow> json list" where
  "drop_entries is js = map snd (filter (\<lambda>(i, e). i \<notin> is) (enumerate 0 js))"

definition without_condemned_coverage :: "json \<Rightarrow> examined_faults \<Rightarrow> json option" where
  "without_condemned_coverage payload f =
     (case payload of
        JObj d \<Rightarrow>
          if \<not> salvageable f then None
          else Some (JObj (dict_set ''examined''
            (case map_of d ''examined'' of
               Some (JList entries) \<Rightarrow>
                 if xf_whole f then JList [] else JList (drop_entries (fst ` set (xf_hollow f)) entries)
             | _ \<Rightarrow> JList []) d))
      | _ \<Rightarrow> None)"

section \<open>Messages\<close>

definition LOCATOR_BUDGET :: nat where "LOCATOR_BUDGET = 165"
definition REGION_BUDGET :: nat where "REGION_BUDGET = 60"
definition COUNT_BUDGET :: nat where "COUNT_BUDGET = 12"

text \<open>\<open>str.split()\<close>.\<close>

fun split_when :: "(char \<Rightarrow> bool) \<Rightarrow> string \<Rightarrow> string list" where
  "split_when P [] = [[]]"
| "split_when P (c # cs) =
     (if P c then [] # split_when P cs
      else (case split_when P cs of [] \<Rightarrow> [[c]] | w # ws \<Rightarrow> (c # w) # ws))"

definition words :: "string \<Rightarrow> string list" where
  "words s = filter (\<lambda>w. w \<noteq> []) (split_when py_space s)"

definition clip_message :: "string \<Rightarrow> nat \<Rightarrow> string" where
  "clip_message value limit =
     (let t = join '' '' (words value) in if length t \<le> limit then t else take (limit - 3) t @ ''...'')"

definition name_faults :: "(string, bool) dict \<Rightarrow> string" where
  "name_faults faulty =
     (let named = (\<lambda>b. filter (\<lambda>f. map_of faulty f = Some b) EXAMINED_REQUIRED_FIELDS);
          parts = filter (\<lambda>(verb, names). names \<noteq> []) [(''missing'', named True), (''invalid'', named False)];
          message = join ''; '' (map (\<lambda>(verb, names). verb @ '' '' @ join '', '' names) parts)
      in if message \<noteq> '''' then message else ''unusable'')"

definition first_hollow :: "examined_faults \<Rightarrow> nat" where
  "first_hollow f = Min (fst ` set (xf_hollow f))"

definition RUNBOOK_HEAD :: string where "RUNBOOK_HEAD = ''reviewer output rejected: ''"
definition RUNBOOK_MIDDLE :: string where "RUNBOOK_MIDDLE = ''; round discarded, ''"
definition RUNBOOK_TAIL :: string where
  "RUNBOOK_TAIL = '' finding(s) in the rejected output; fault is the reviewer model'' @ [CHR 0x27] @ ''s output, not the PR diff; ''
     @ ''next: re-run this seat; if the same model repeats it, swap the seat or promote its backup; ''
     @ ''if urgent, merge without this seat'' @ [CHR 0x27] @ ''s coverage.''"

definition runbook_where :: "review_codec \<Rightarrow> json \<Rightarrow> nat \<Rightarrow> string" where
  "runbook_where rc payload index =
     (case jget payload ''examined'' of
        Some (JList entries) \<Rightarrow>
          if index < length entries
          then (case entries ! index of
                  JObj d \<Rightarrow>
                    let named = map (\<lambda>key. case map_of d key of None \<Rightarrow> '''' | Some v \<Rightarrow> rc_str rc v) [''file'', ''region'']
                    in clip_message (join '' '' (filter (\<lambda>part. part \<noteq> '''') named)) REGION_BUDGET
                | _ \<Rightarrow> ''entry is not an object'')
          else ''''
      | _ \<Rightarrow> '''')"

definition runbook_locator :: "review_codec \<Rightarrow> examined_faults \<Rightarrow> json \<Rightarrow> string" where
  "runbook_locator rc f payload =
     (let index = first_hollow f;
          place = runbook_where rc payload index;
          tails = (if 1 < length (xf_hollow f) then [''+'' @ str_int (int (length (xf_hollow f)) - 1) @ '' more hollow''] else [])
            @ (if xf_others f \<noteq> 0 then [''+'' @ str_int (int (xf_others f)) @ '' other''] else [])
      in ''examined['' @ str_int (int index) @ ''] ('' @ (if place \<noteq> '''' then place else ''no file recorded'') @ '') ''
         @ name_faults (entry_faults index f)
         @ (if tails \<noteq> [] then '' ('' @ join '', '' tails @ '')'' else ''''))"

definition lost_count :: "json \<Rightarrow> nat" where
  "lost_count payload = (case jget payload ''findings'' of Some (JList js) \<Rightarrow> length js | _ \<Rightarrow> 0)"

definition hollow_examined_runbook :: "review_codec \<Rightarrow> examined_faults \<Rightarrow> json \<Rightarrow> string option" where
  "hollow_examined_runbook rc f payload =
     (if xf_hollow f = [] then None
      else Some (RUNBOOK_HEAD @ clip_message (runbook_locator rc f payload) LOCATOR_BUDGET @ RUNBOOK_MIDDLE
        @ clip_message (str_int (int (lost_count payload))) COUNT_BUDGET @ RUNBOOK_TAIL))"

definition coverage_loss :: "examined_faults \<Rightarrow> string" where
  "coverage_loss f =
     (if xf_whole f \<or> xf_hollow f = [] then ''coverage ledger lost: examined section unusable''
      else (let index = first_hollow f
            in ''coverage ledger lost: examined['' @ str_int (int index) @ ''] ''
               @ (if index \<in> xf_shapeless f then ''is not an object'' else name_faults (entry_faults index f))
               @ (if 1 < length (xf_hollow f) then '', +'' @ str_int (int (length (xf_hollow f)) - 1) @ '' more'' else '''')))"

section \<open>Parsing a review\<close>

text \<open>The failures, without the quoted text and decoder message of the generic ones.\<close>

datatype parse_failure = NoObject | TwoCandidates | MalformedOutput | Runbook string

definition join_reasons :: "string \<Rightarrow> string \<Rightarrow> string" where
  "join_reasons a b = join ''; '' (filter (\<lambda>part. part \<noteq> '''') [a, b])"

definition strip_degraded :: "json \<Rightarrow> json" where
  "strip_degraded j = (case j of JObj d \<Rightarrow> JObj (dict_pop ''degraded'' d) | _ \<Rightarrow> j)"

text \<open>The payload, and why it is partial.\<close>

definition decode_body :: "review_codec \<Rightarrow> string \<Rightarrow> object_scan \<Rightarrow> (json \<times> string) option" where
  "decode_body rc body sc =
     (case rc_loads rc body of
        Inr payload \<Rightarrow> Some (payload, '''')
      | Inl pos \<Rightarrow>
          (case salvage_prefix rc body pos (os_cuts sc) of
             None \<Rightarrow> None
           | Some (payload, dropped) \<Rightarrow>
               Some (payload,
                 if strip_chars PUNCTUATION_ONLY dropped \<noteq> ''''
                 then ''payload tail lost: unparseable JSON at char '' @ str_int (int pos)
                 else if os_end sc = None then ''payload never closed: reviewer output ended mid-object''
                 else '''')))"

definition validated :: "review_codec \<Rightarrow> json \<Rightarrow> string \<Rightarrow> parse_failure + agentic_review" where
  "validated rc payload degraded =
     (case rc_validate rc payload of
        Inr review \<Rightarrow> Inr (if degraded \<noteq> '''' then review\<lparr>ar_degraded := degraded\<rparr> else review)
      | Inl errs \<Rightarrow>
          (let f = examined_faults_of errs
           in case without_condemned_coverage payload f of
                None \<Rightarrow> Inl (case hollow_examined_runbook rc f payload of Some m \<Rightarrow> Runbook m | None \<Rightarrow> MalformedOutput)
              | Some pruned \<Rightarrow>
                  (case rc_validate rc pruned of
                     Inl _ \<Rightarrow> Inl MalformedOutput
                   | Inr review \<Rightarrow> Inr (review\<lparr>ar_degraded := join_reasons degraded (coverage_loss f)\<rparr>))))"

definition parse_review :: "review_codec \<Rightarrow> string \<Rightarrow> parse_failure + agentic_review" where
  "parse_review rc s =
     (let tail = dropWhile (\<lambda>c. c \<noteq> CHR ''{'') s
      in if tail = '''' then Inl NoObject
         else (let sc = scan_object tail;
                   body = (case os_end sc of Some e \<Rightarrow> take e tail | None \<Rightarrow> tail)
               in if os_rival sc then Inl TwoCandidates
                  else (case decode_body rc body sc of
                          None \<Rightarrow> Inl MalformedOutput
                        | Some (payload, degraded) \<Rightarrow> validated rc (strip_degraded payload) degraded)))"

section \<open>The scan and the grammar\<close>

text \<open>The text of a JSON value as a scanner sees it: strings are opaque, brackets nest.\<close>

inductive quoted :: "string \<Rightarrow> bool" where
  empty: "quoted []"
| char: "c \<noteq> QUOTE \<Longrightarrow> c \<noteq> BACKSLASH \<Longrightarrow> quoted u \<Longrightarrow> quoted (c # u)"
| escape: "quoted u \<Longrightarrow> quoted (BACKSLASH # c # u)"

inductive balanced :: "string \<Rightarrow> bool" where
  empty: "balanced []"
| char: "c \<noteq> QUOTE \<Longrightarrow> c \<notin> set OPENERS \<Longrightarrow> c \<notin> set CLOSERS \<Longrightarrow> balanced s \<Longrightarrow> balanced (c # s)"
| str: "quoted u \<Longrightarrow> balanced s \<Longrightarrow> balanced (QUOTE # u @ QUOTE # s)"
| nest: "b \<in> set OPENERS \<Longrightarrow> c \<in> set CLOSERS \<Longrightarrow> balanced a \<Longrightarrow> balanced s \<Longrightarrow> balanced (b # a @ c # s)"

lemma scan_quoted:
  "quoted u \<Longrightarrow> scan_from i d True False cuts (u @ QUOTE # t) = scan_from (i + length u + 1) d False False cuts t"
proof (induction u arbitrary: i rule: quoted.induct)
  case empty
  then show ?case by (simp add: QUOTE_def BACKSLASH_def)
next
  case (char c u)
  then show ?case by simp
next
  case (escape u c)
  then show ?case by simp
qed

lemma quote_no_bracket [simp]: "QUOTE \<notin> set OPENERS" "QUOTE \<notin> set CLOSERS"
  by (simp_all add: QUOTE_def OPENERS_def CLOSERS_def)

lemma opener_no_closer: "b \<in> set OPENERS \<Longrightarrow> b \<noteq> QUOTE" "c \<in> set CLOSERS \<Longrightarrow> c \<noteq> QUOTE \<and> c \<notin> set OPENERS"
  by (auto simp: QUOTE_def OPENERS_def CLOSERS_def)

lemma scan_balanced:
  "balanced s \<Longrightarrow> 1 \<le> d \<Longrightarrow>
     \<exists>cuts'. scan_from i d False False cuts (s @ t) = scan_from (i + length s) d False False cuts' t"
proof (induction s arbitrary: i d cuts t rule: balanced.induct)
  case empty
  then show ?case by auto
next
  case (char c s)
  obtain cs where "scan_from i d False False cuts (c # s @ t) = scan_from (Suc i) d False False cs (s @ t)"
    using char.hyps by (cases "c = CHR '','' \<and> d = 1") simp_all
  with char.IH [OF char.prems, of "Suc i" cs t] show ?case by auto
next
  case (str u s)
  have "scan_from i d False False cuts (QUOTE # u @ QUOTE # s @ t) = scan_from (i + length u + 2) d False False cuts (s @ t)"
    using scan_quoted [OF str.hyps(1), of "Suc i" d cuts "s @ t"] by simp
  with str.IH [OF str.prems, of "i + length u + 2" cuts t] show ?case by (auto simp: add.assoc)
next
  case (nest b c a s)
  have "scan_from i d False False cuts (b # a @ c # s @ t) = scan_from (Suc i) (d + 1) False False cuts (a @ c # s @ t)"
    using nest.hyps opener_no_closer by simp
  moreover from nest.prems have "1 \<le> d + 1" by simp
  from nest.IH(1) [OF this, of "Suc i" cuts "c # s @ t"] obtain c1 where
    "scan_from (Suc i) (d + 1) False False cuts (a @ c # s @ t) = scan_from (Suc i + length a) (d + 1) False False c1 (c # s @ t)" by blast
  moreover obtain c2 where
    "scan_from (Suc i + length a) (d + 1) False False c1 (c # s @ t) = scan_from (i + length a + 2) d False False c2 (s @ t)"
    using nest.hyps nest.prems opener_no_closer by (cases "d = 1") simp_all
  moreover obtain c3 where
    "scan_from (i + length a + 2) d False False c2 (s @ t) = scan_from (i + length a + 2 + length s) d False False c3 t"
    using nest.IH(2) [OF nest.prems] by blast
  ultimately show ?case by (auto simp: add.assoc add.commute add.left_commute)
qed

lemma scan_object_end:
  assumes "balanced a"
  shows "os_end (scan_object (''{'' @ a @ ''}'' @ t)) = Some (length a + 2)
    \<and> os_rival (scan_object (''{'' @ a @ ''}'' @ t)) = (CHR ''{'' \<in> set t)"
proof -
  have "scan_object (''{'' @ a @ ''}'' @ t) = scan_from 1 1 False False [] (a @ ''}'' @ t)"
    by (simp add: scan_object_def QUOTE_def OPENERS_def)
  moreover obtain cuts where
    "scan_from 1 1 False False [] (a @ ''}'' @ t) = scan_from (1 + length a) 1 False False cuts (''}'' @ t)"
    using scan_balanced [OF assms, of 1 1 "[]" "''}'' @ t"] by auto
  ultimately show ?thesis by (simp add: QUOTE_def OPENERS_def CLOSERS_def)
qed

section \<open>Prose around a review\<close>

lemma dropWhile_brace: "CHR ''{'' \<notin> set pre \<Longrightarrow> dropWhile (\<lambda>c. c \<noteq> CHR ''{'') (pre @ CHR ''{'' # t) = CHR ''{'' # t"
  by (induction pre) auto

text \<open>The object is found whatever surrounds it. Prose before and after a JSON object, with no
  brace of its own, changes nothing: the review is the object's, and clean; and a second object (any
  brace after the first one closed) is refused rather than reduced to one of the two.\<close>

theorem review_is_found_in_prose:
  assumes "balanced a" "CHR ''{'' \<notin> set pre" "rc_loads rc (''{'' @ a @ ''}'') = Inr payload"
  shows "parse_review rc (pre @ ''{'' @ a @ ''}'' @ post) =
    (if CHR ''{'' \<in> set post then Inl TwoCandidates else validated rc (strip_degraded payload) '''')"
proof -
  let ?tail = "''{'' @ a @ ''}'' @ post"
  have t: "dropWhile (\<lambda>c. c \<noteq> CHR ''{'') (pre @ ''{'' @ a @ ''}'' @ post) = ?tail"
    using dropWhile_brace [OF assms(2)] by simp
  have "take (length a + 2) ?tail = ''{'' @ a @ ''}''" by simp
  with scan_object_end [OF assms(1), of post] assms(3) t show ?thesis
    by (simp add: parse_review_def Let_def decode_body_def)
qed

section \<open>What a published review came from\<close>

lemma strip_chars_empty: "strip_chars cs s = [] \<Longrightarrow> set s \<subseteq> set cs"
proof -
  let ?P = "\<lambda>c. c \<in> set cs"
  assume "strip_chars cs s = []"
  then have "dropWhile ?P (rev (dropWhile ?P s)) = []" unfolding strip_chars_def by (rule iffD1 [OF rev_is_Nil_conv])
  then have all: "\<forall>c \<in> set (dropWhile ?P s). ?P c" unfolding dropWhile_eq_Nil_conv set_rev .
  have "dropWhile ?P s = []"
  proof (rule ccontr)
    assume ne: "dropWhile ?P s \<noteq> []"
    then have "\<not> ?P (hd (dropWhile ?P s))" by (rule hd_dropWhile)
    with all ne show False using list.set_sel(1) by blast
  qed
  then show ?thesis unfolding dropWhile_eq_Nil_conv by blast
qed

lemma salvage_from_some:
  "salvage_from rc body cuts = Some (payload, dropped) \<Longrightarrow>
     \<exists>n. rc_loads rc (take n body @ ''}'') = Inr payload \<and> dropped = drop n body \<and> is_list (jget payload ''findings'')"
proof (induction cuts)
  case (Cons c cuts)
  show ?case
  proof (cases "rc_loads rc (take c body @ ''}'')")
    case (Inl pos)
    with Cons show ?thesis by simp
  next
    case (Inr j)
    with Cons.prems have "is_list (jget j ''findings'')" "payload = j" "dropped = drop c body"
      by (simp_all add: SALVAGE_ANCHOR_def split: if_splits)
    with Inr show ?thesis by blast
  qed
qed simp

text \<open>The text holds the payload as one object with no other after it; it was decoded whole, or whole
  but for punctuation, or a prefix of it was that reaches the findings.\<close>

definition sole_object :: "string \<Rightarrow> string \<Rightarrow> bool" where
  "sole_object s obj \<longleftrightarrow> (\<exists>pre post. s = pre @ obj @ post \<and> CHR ''{'' \<notin> set pre \<and> (\<exists>t. obj = CHR ''{'' # t))"

definition decoded_whole :: "review_codec \<Rightarrow> string \<Rightarrow> json \<Rightarrow> bool" where
  "decoded_whole rc s payload \<longleftrightarrow> (\<exists>obj. sole_object s obj
     \<and> (rc_loads rc obj = Inr payload
        \<or> (\<exists>n. rc_loads rc (take n obj @ ''}'') = Inr payload \<and> set (drop n obj) \<subseteq> set PUNCTUATION_ONLY
             \<and> is_list (jget payload ''findings''))))"

definition decoded_prefix :: "review_codec \<Rightarrow> string \<Rightarrow> json \<Rightarrow> bool" where
  "decoded_prefix rc s payload \<longleftrightarrow> (\<exists>obj n. sole_object s obj
     \<and> rc_loads rc (take n obj @ ''}'') = Inr payload \<and> is_list (jget payload ''findings''))"

text \<open>Two payloads that say the same but for their coverage.\<close>

definition agree_off_coverage :: "json \<Rightarrow> json \<Rightarrow> bool" where
  "agree_off_coverage p q \<longleftrightarrow> (\<forall>k. k = ''examined'' \<or> jget p k = jget q k)"

lemma decode_body_cases:
  assumes "decode_body rc body sc = Some (payload, degraded)"
  shows "(rc_loads rc body = Inr payload \<and> degraded = '''')
    \<or> (\<exists>n. rc_loads rc (take n body @ ''}'') = Inr payload \<and> is_list (jget payload ''findings'')
         \<and> (degraded = '''' \<longrightarrow> set (drop n body) \<subseteq> set PUNCTUATION_ONLY))"
proof (cases "rc_loads rc body")
  case (Inr j)
  with assms show ?thesis by (simp add: decode_body_def)
next
  case (Inl pos)
  with assms obtain dropped where s: "salvage_prefix rc body pos (os_cuts sc) = Some (payload, dropped)"
    and d: "degraded = (if strip_chars PUNCTUATION_ONLY dropped \<noteq> ''''
       then ''payload tail lost: unparseable JSON at char '' @ str_int (int pos)
       else if os_end sc = None then ''payload never closed: reviewer output ended mid-object'' else '''')"
    by (auto simp: decode_body_def split: option.splits)
  from salvage_from_some s obtain n where "rc_loads rc (take n body @ ''}'') = Inr payload"
    "dropped = drop n body" "is_list (jget payload ''findings'')" unfolding salvage_prefix_def by blast
  moreover have "set dropped \<subseteq> set PUNCTUATION_ONLY" if "degraded = ''''"
    by (rule strip_chars_empty) (use d that in \<open>simp split: if_splits\<close>)
  ultimately show ?thesis by blast
qed

lemma reason_given: "join_reasons a (coverage_loss f) \<noteq> ''''"
  by (simp add: join_reasons_def coverage_loss_def Let_def)

lemma pruned_agrees:
  "without_condemned_coverage payload f = Some pruned \<Longrightarrow> agree_off_coverage pruned payload"
  by (auto simp: without_condemned_coverage_def agree_off_coverage_def jget_def map_of_dict_set
      split: json.splits if_splits)

lemma validated_cases:
  assumes "validated rc payload degraded = Inr r"
  shows "(rc_validate rc payload = Inr r \<and> degraded = '''')
    \<or> (ar_degraded r \<noteq> '''' \<and> (\<exists>p d. agree_off_coverage p payload \<and> rc_validate rc p = Inr (r\<lparr>ar_degraded := d\<rparr>)))"
proof (cases "rc_validate rc payload")
  case (Inr review)
  have "agree_off_coverage payload payload" by (simp add: agree_off_coverage_def)
  with Inr assms show ?thesis
    by (cases "degraded = ''''")
      (auto simp: validated_def intro!: exI [of _ payload] exI [of _ "ar_degraded review"])
next
  case (Inl errs)
  with assms obtain pruned where p: "without_condemned_coverage payload (examined_faults_of errs) = Some pruned"
    by (auto simp: validated_def Let_def split: option.splits)
  with Inl assms obtain review where "rc_validate rc pruned = Inr review"
    "r = review\<lparr>ar_degraded := join_reasons degraded (coverage_loss (examined_faults_of errs))\<rparr>"
    by (auto simp: validated_def Let_def split: sum.splits)
  then have "rc_validate rc pruned = Inr (r\<lparr>ar_degraded := ar_degraded review\<rparr>)" "ar_degraded r \<noteq> ''''"
    using reason_given by simp_all
  with pruned_agrees [OF p] show ?thesis by blast
qed

lemma sole_object_body:
  assumes "dropWhile (\<lambda>c. c \<noteq> CHR ''{'') s = c # t" "body = take n (c # t) \<or> body = c # t" "body \<noteq> []"
  shows "sole_object s body"
proof -
  have s: "s = takeWhile (\<lambda>c. c \<noteq> CHR ''{'') s @ c # t" using assms(1) by (metis takeWhile_dropWhile_id)
  have "c = CHR ''{''" using assms(1) hd_dropWhile [of "\<lambda>c. c \<noteq> CHR ''{''" s] by simp
  moreover obtain post where "c # t = body @ post" using assms(2) by (metis append_Nil2 append_take_drop_id)
  moreover have "CHR ''{'' \<notin> set (takeWhile (\<lambda>c. c \<noteq> CHR ''{'') s)" by (auto dest: set_takeWhileD)
  ultimately show ?thesis
    unfolding sole_object_def using s assms(3) by (metis append_Cons list.inject neq_Nil_conv)
qed

lemma scan_end_pos: "os_end (scan_from i d b e cuts s) = Some n \<Longrightarrow> n > i"
  by (induction i d b e cuts s rule: scan_from.induct) (auto split: if_splits)

lemma parsed_review_accounted:
  assumes "parse_review rc s = Inr r"
  shows "\<exists>payload.
    (if ar_degraded r = ''''
     then decoded_whole rc s payload \<and> rc_validate rc (strip_degraded payload) = Inr r
     else (decoded_whole rc s payload \<or> decoded_prefix rc s payload)
       \<and> (\<exists>p d. agree_off_coverage p (strip_degraded payload) \<and> rc_validate rc p = Inr (r\<lparr>ar_degraded := d\<rparr>)))"
proof -
  let ?tail = "dropWhile (\<lambda>c. c \<noteq> CHR ''{'') s"
  let ?sc = "scan_object ?tail"
  define body where "body = (case os_end ?sc of Some e \<Rightarrow> take e ?tail | None \<Rightarrow> ?tail)"
  have ne: "?tail \<noteq> []"
  proof
    assume "?tail = []"
    then have "parse_review rc s = Inl NoObject" by (simp only: parse_review_def Let_def simp_thms if_True)
    with assms show False by simp
  qed
  have split: "parse_review rc s = (if os_rival ?sc then Inl TwoCandidates
      else (case decode_body rc body ?sc of None \<Rightarrow> Inl MalformedOutput
        | Some (payload, degraded) \<Rightarrow> validated rc (strip_degraded payload) degraded))"
    using ne by (simp only: parse_review_def Let_def body_def if_False)
  from assms obtain payload degraded where d: "decode_body rc body ?sc = Some (payload, degraded)"
    and v: "validated rc (strip_degraded payload) degraded = Inr r"
    unfolding split by (auto split: if_splits option.splits prod.splits)
  obtain c t where ct: "?tail = c # t" using ne by (cases ?tail) auto
  have "body \<noteq> []"
    using ct scan_end_pos [of 0 0 False False "[]" "c # t"] by (auto simp: body_def scan_object_def split: option.splits)
  moreover have "body = take (the (os_end ?sc)) (c # t) \<or> body = c # t" using ct by (auto simp: body_def split: option.splits)
  ultimately have obj: "sole_object s body" using sole_object_body [OF ct] by blast
  have either: "decoded_whole rc s payload \<or> degraded \<noteq> '''' \<and> decoded_prefix rc s payload"
    using decode_body_cases [OF d] obj unfolding decoded_whole_def decoded_prefix_def by blast
  show ?thesis
  proof (cases "ar_degraded r = ''''")
    case True
    with validated_cases [OF v] either show ?thesis by auto
  next
    case False
    have "\<exists>p d. agree_off_coverage p (strip_degraded payload) \<and> rc_validate rc p = Inr (r\<lparr>ar_degraded := d\<rparr>)"
      using validated_cases [OF v]
    proof
      assume "rc_validate rc (strip_degraded payload) = Inr r \<and> degraded = ''''"
      then have "rc_validate rc (strip_degraded payload) = Inr (r\<lparr>ar_degraded := ar_degraded r\<rparr>)" by simp
      moreover have "agree_off_coverage (strip_degraded payload) (strip_degraded payload)" by (simp add: agree_off_coverage_def)
      ultimately show ?thesis by blast
    qed blast
    with False either show ?thesis by auto
  qed
qed


section \<open>Samples\<close>

text \<open>A decoder of two objects, and a validator that reads the findings alone.\<close>

definition empty_review :: agentic_review where
  "empty_review = \<lparr>ar_findings = [], ar_examined = [], ar_prior_status = [], ar_summary = '''', ar_degraded = ''''\<rparr>"

definition sample_loads :: "string \<Rightarrow> nat + json" where
  \<open>sample_loads s =
     (if s = ''{}'' then Inr (JObj [])
      else if s = ''{"findings":[]}'' then Inr (JObj [(''findings'', JList [])])
      else Inl 14)\<close>

definition sample_validate :: "json \<Rightarrow> verror list + agentic_review" where
  "sample_validate j =
     (case jget j ''findings'' of
        None \<Rightarrow> Inr empty_review
      | Some (JList []) \<Rightarrow> Inr empty_review
      | Some _ \<Rightarrow> Inl [\<lparr>ve_loc = [LKey ''findings''], ve_type = ''list_type''\<rparr>])"

definition sample_codec :: review_codec where
  "sample_codec = \<lparr>rc_loads = sample_loads, rc_validate = sample_validate, rc_str = (\<lambda>_. '''')\<rparr>"

definition cut_text :: string where
  \<open>cut_text = ''{"findings":[],"summary":"lo''\<close>

definition findings_body :: string where
  \<open>findings_body = ''"findings":[]''\<close>

lemma balanced_findings: "balanced findings_body"
proof -
  have q: "quoted ''findings''"
    by (simp add: quoted.char quoted.empty QUOTE_def BACKSLASH_def)
  have tail: "balanced ''[]''"
    using balanced.nest [of "CHR ''[''" "CHR '']''" "[]" "[]"] by (simp add: OPENERS_def CLOSERS_def balanced.empty)
  have "balanced (CHR '':'' # ''[]'')"
    by (rule balanced.char [OF _ _ _ tail]) (simp_all add: QUOTE_def OPENERS_def CLOSERS_def)
  from balanced.str [OF q this] show ?thesis by (simp add: findings_body_def QUOTE_def)
qed

theorem review_is_found_in_prose_witness:
  "parse_review sample_codec (''Here: '' @ ''{'' @ findings_body @ ''}'' @ '' done'') = Inr empty_review
   \<and> parse_review sample_codec (''Here: '' @ ''{'' @ findings_body @ ''}'' @ '' {'') = Inl TwoCandidates"
proof -
  have l: "rc_loads sample_codec (''{'' @ findings_body @ ''}'') = Inr (JObj [(''findings'', JList [])])"
    by code_simp
  have v: "validated sample_codec (strip_degraded (JObj [(''findings'', JList [])])) '''' = Inr empty_review"
    by code_simp
  have p: "CHR ''{'' \<notin> set ''Here: ''" "CHR ''{'' \<notin> set '' done''" "CHR ''{'' \<in> set '' {''" by simp_all
  show ?thesis
    unfolding review_is_found_in_prose [OF balanced_findings p(1) l] using p(2,3) v by (simp only: if_True if_False simp_thms)
qed

lemma cut_review: "parse_review sample_codec cut_text
    = Inr (empty_review\<lparr>ar_degraded := ''payload tail lost: unparseable JSON at char 14''\<rparr>)"
  by code_simp


text \<open>A whole object that has no findings at all is not refused: the anchor is asked of a salvaged
  prefix alone, and the validator fills in an empty list, so \<open>{}\<close> publishes as a clean review.\<close>

theorem bare_object_is_a_clean_review:
  "rc_loads rc ''{}'' = Inr (JObj []) \<Longrightarrow> rc_validate rc (JObj []) = Inr review \<Longrightarrow> parse_review rc ''{}'' = Inr review"
  by (simp add: parse_review_def Let_def scan_object_def QUOTE_def OPENERS_def CLOSERS_def decode_body_def
      strip_degraded_def dict_pop_def validated_def)

end
