(* ===== verification/Harness.thy ===== *)
theory Harness
  imports Review_Output Runner
begin

text \<open>
  What comes back from the harness process: the event stream of \<open>sidecar/reviewer/harness.py\<close>
  (\<open>_consume_stream\<close>, \<open>_tool_arg\<close>, \<open>usage_tokens\<close>), the end of \<open>run_review\<close>, and the
  classification of a failure (\<open>is_auth_failure\<close>, \<open>sidecar/throttle.py\<close>). The process itself is a
  parameter: the lines it printed, its exit code, its stderr and whether the timer killed it.
  \<open>float_of\<close> is Python's \<open>float\<close> on an integer, \<open>None\<close> where it overflows.
\<close>

section \<open>Values of an event\<close>

definition truthy :: "json \<Rightarrow> bool" where
  "truthy j = (case j of JNull \<Rightarrow> False | JBool b \<Rightarrow> b | JInt i \<Rightarrow> i \<noteq> 0 | JFloat f \<Rightarrow> f \<noteq> Some 0
     | JStr s \<Rightarrow> s \<noteq> '''' | JList l \<Rightarrow> l \<noteq> [] | JObj d \<Rightarrow> d \<noteq> [])"

text \<open>\<open>x or d\<close>, of a key that may be absent.\<close>

definition py_or :: "json option \<Rightarrow> json \<Rightarrow> json" where
  "py_or x d = (case x of None \<Rightarrow> d | Some j \<Rightarrow> if truthy j then j else d)"

definition as_int :: "json option \<Rightarrow> int option" where
  "as_int x = (case x of Some (JInt i) \<Rightarrow> if i < 0 then None else Some i | _ \<Rightarrow> None)"

definition as_float :: "(int \<Rightarrow> rat option) \<Rightarrow> json option \<Rightarrow> rat option" where
  "as_float float_of x =
     (let number = (case x of Some (JInt i) \<Rightarrow> float_of i | Some (JFloat f) \<Rightarrow> f | _ \<Rightarrow> None)
      in case number of None \<Rightarrow> None | Some r \<Rightarrow> if r < 0 then None else Some r)"

definition as_str :: "json option \<Rightarrow> string option" where
  "as_str x = (case x of Some (JStr s) \<Rightarrow> Some s | _ \<Rightarrow> None)"

definition as_obj :: "json option \<Rightarrow> (string, json) dict option" where
  "as_obj x = (case x of Some (JObj d) \<Rightarrow> Some d | _ \<Rightarrow> None)"

definition usage_tokens :: "(string, json) dict option \<Rightarrow> run_costs \<Rightarrow> run_costs" where
  "usage_tokens usage c =
     (let reported = (case usage of None \<Rightarrow> [] | Some d \<Rightarrow> d)
      in c\<lparr>co_input_tokens := as_int (map_of reported ''input_tokens''),
           co_output_tokens := as_int (map_of reported ''output_tokens''),
           co_cache_read_tokens := as_int (map_of reported ''cache_read_input_tokens''),
           co_cache_write_tokens := as_int (map_of reported ''cache_creation_input_tokens'')\<rparr>)"

section \<open>Progress\<close>

definition flatten_arg :: "string \<Rightarrow> string" where
  "flatten_arg value = take 100 (join '' '' (splitlines value))"

definition TOOL_ARG_KEYS :: "string list" where
  "TOOL_ARG_KEYS = [''file_path'', ''pattern'', ''query'', ''command'', ''url'', ''path'']"

fun first_text :: "json option list \<Rightarrow> string option" where
  "first_text [] = None"
| "first_text (x # xs) =
     (case as_str x of Some s \<Rightarrow> if s \<noteq> '''' then Some s else first_text xs | None \<Rightarrow> first_text xs)"

definition tool_arg :: "(string, json) dict \<Rightarrow> string" where
  "tool_arg d =
     (case first_text (map (map_of d) TOOL_ARG_KEYS @ map (Some \<circ> snd) d) of
        Some s \<Rightarrow> flatten_arg s
      | None \<Rightarrow> '''')"

text \<open>\<open>_emit\<close>, \<open>mins\<close> minutes into the run.\<close>

record progress =
  pg_turn :: nat
  pg_tool :: string
  pg_arg :: string

definition progress_line :: "string \<Rightarrow> int \<Rightarrow> progress \<Rightarrow> string" where
  "progress_line model_name mins p =
     ''fuko: agentic '' @ model_name @ '' ['' @ str_int mins @ ''m t'' @ str_int (int (pg_turn p)) @ ''] ''
     @ pg_tool p @ '' '' @ pg_arg p"

section \<open>Folding the stream\<close>

record stream_state =
  sr_result :: "string option"
  sr_last :: json
  sr_usage :: "(string, json) dict option"
  sr_cost :: "rat option"
  sr_turns :: "int option"
  sr_subtype :: "string option"
  sr_count :: nat
  sr_progress :: "progress list"

definition stream_start :: stream_state where
  "stream_start =
     \<lparr>sr_result = None, sr_last = JStr '''', sr_usage = None, sr_cost = None, sr_turns = None,
      sr_subtype = None, sr_count = 0, sr_progress = []\<rparr>"

text \<open>An exception of the fold, by its Python class.\<close>

datatype stream_error = AttributeError | TypeError

text \<open>\<open>for block in ...\<close>: a string is iterated by its characters, a mapping by its keys.\<close>

definition iter_json :: "json \<Rightarrow> stream_error + json list" where
  "iter_json j =
     (case j of
        JList l \<Rightarrow> Inr l
      | JStr s \<Rightarrow> Inr (map (\<lambda>c. JStr [c]) s)
      | JObj d \<Rightarrow> Inr (map (JStr \<circ> fst) d)
      | _ \<Rightarrow> Inl TypeError)"

text \<open>A value in an f-string.\<close>

definition shown :: "(json \<Rightarrow> string) \<Rightarrow> json \<Rightarrow> string" where
  "shown py_str j = (case j of JStr s \<Rightarrow> s | _ \<Rightarrow> py_str j)"

definition block_step :: "(json \<Rightarrow> string) \<Rightarrow> json \<Rightarrow> stream_state \<Rightarrow> stream_error + stream_state" where
  "block_step py_str block st =
     (case block of
        JObj d \<Rightarrow>
          if map_of d ''type'' = Some (JStr ''tool_use'')
          then (case py_or (map_of d ''input'') (JObj []) of
                  JObj arg \<Rightarrow>
                    Inr (st\<lparr>sr_progress := sr_progress st
                      @ [\<lparr>pg_turn = sr_count st, pg_tool = shown py_str (py_or (map_of d ''name'') (JStr ''?'')),
                          pg_arg = tool_arg arg\<rparr>]\<rparr>)
                | _ \<Rightarrow> Inl AttributeError)
          else if map_of d ''type'' = Some (JStr ''text'') \<and> truthy (py_or (map_of d ''text'') JNull)
          then Inr (st\<lparr>sr_last := py_or (map_of d ''text'') JNull\<rparr>)
          else Inr st
      | _ \<Rightarrow> Inr st)"

definition assistant_step :: "(json \<Rightarrow> string) \<Rightarrow> (string, json) dict \<Rightarrow> stream_state \<Rightarrow> stream_error + stream_state" where
  "assistant_step py_str event st =
     (case py_or (map_of event ''message'') (JObj []) of
        JObj message \<Rightarrow>
          (case iter_json (py_or (map_of message ''content'') (JList [])) of
             Inl e \<Rightarrow> Inl e
           | Inr blocks \<Rightarrow> fold_err (block_step py_str) blocks (st\<lparr>sr_count := Suc (sr_count st)\<rparr>))
      | _ \<Rightarrow> Inl AttributeError)"

definition keep_last :: "'a option \<Rightarrow> 'a option \<Rightarrow> 'a option" where
  "keep_last old new = (case new of None \<Rightarrow> old | Some x \<Rightarrow> Some x)"

definition result_step :: "(int \<Rightarrow> rat option) \<Rightarrow> (string, json) dict \<Rightarrow> stream_state \<Rightarrow> stream_state" where
  "result_step float_of event st =
     st\<lparr>sr_usage := keep_last (sr_usage st) (as_obj (map_of event ''usage'')),
        sr_cost := as_float float_of (map_of event ''total_cost_usd''),
        sr_turns := as_int (map_of event ''num_turns''),
        sr_subtype := keep_last (sr_subtype st) (as_str (map_of event ''subtype'')),
        sr_result := keep_last (sr_result st) (as_str (map_of event ''result''))\<rparr>"

text \<open>The event a line holds, if it holds one; \<open>loads\<close> is \<open>json.loads\<close>.\<close>

definition event_of :: "(string \<Rightarrow> nat + json) \<Rightarrow> string \<Rightarrow> (string, json) dict option" where
  "event_of loads raw =
     (if strip raw = '''' then None
      else case loads (strip raw) of Inr (JObj d) \<Rightarrow> Some d | _ \<Rightarrow> None)"

definition event_step ::
  "(json \<Rightarrow> string) \<Rightarrow> (int \<Rightarrow> rat option) \<Rightarrow> (string, json) dict \<Rightarrow> stream_state \<Rightarrow> stream_error + stream_state" where
  "event_step py_str float_of event st =
     (if map_of event ''type'' = Some (JStr ''assistant'') then assistant_step py_str event st
      else if map_of event ''type'' = Some (JStr ''result'') then Inr (result_step float_of event st)
      else Inr st)"

definition line_step ::
  "(string \<Rightarrow> nat + json) \<Rightarrow> (json \<Rightarrow> string) \<Rightarrow> (int \<Rightarrow> rat option) \<Rightarrow> string \<Rightarrow> stream_state \<Rightarrow> stream_error + stream_state" where
  "line_step loads py_str float_of raw st =
     (case event_of loads raw of None \<Rightarrow> Inr st | Some event \<Rightarrow> event_step py_str float_of event st)"

record stream_outcome =
  so_text :: json
  so_saw_result :: bool
  so_usage :: "(string, json) dict option"
  so_cost :: "rat option"
  so_turns :: "int option"
  so_subtype :: "string option"

definition outcome_of :: "stream_state \<Rightarrow> stream_outcome" where
  "outcome_of st =
     \<lparr>so_text = (case sr_result st of None \<Rightarrow> sr_last st | Some s \<Rightarrow> JStr s),
      so_saw_result = (sr_result st \<noteq> None), so_usage = sr_usage st, so_cost = sr_cost st,
      so_turns = sr_turns st, so_subtype = sr_subtype st\<rparr>"

definition consume_stream ::
  "(string \<Rightarrow> nat + json) \<Rightarrow> (json \<Rightarrow> string) \<Rightarrow> (int \<Rightarrow> rat option) \<Rightarrow> string list
     \<Rightarrow> stream_error + stream_outcome \<times> progress list" where
  "consume_stream loads py_str float_of raws =
     (case fold_err (line_step loads py_str float_of) raws stream_start of
        Inl e \<Rightarrow> Inl e
      | Inr st \<Rightarrow> Inr (outcome_of st, sr_progress st))"

section \<open>The end of a run\<close>

definition TIMEOUT_RETURNCODE :: int where "TIMEOUT_RETURNCODE = 124"

record harness_result =
  hr_returncode :: int
  hr_text :: json
  hr_stderr :: string
  hr_timed_out :: bool
  hr_usage :: "(string, json) dict option"
  hr_cost :: "rat option"
  hr_turns :: "int option"

text \<open>The process: exit code, stderr, whether the timer fired.\<close>

record process_end =
  pe_returncode :: int
  pe_stderr :: string
  pe_timed_out :: bool

definition subtype_line :: "string \<Rightarrow> stream_outcome \<Rightarrow> string list" where
  "subtype_line model_name o1 =
     (case so_subtype o1 of
        Some s \<Rightarrow>
          if s \<noteq> '''' \<and> s \<noteq> ''success''
          then [''fuko: agentic '' @ model_name @ '' harness ended with result subtype='' @ flatten_arg s]
          else []
      | None \<Rightarrow> [])"

definition finish_run :: "int \<Rightarrow> process_end \<Rightarrow> stream_outcome \<Rightarrow> harness_result" where
  "finish_run timeout_s p o1 =
     (if pe_timed_out p
      then \<lparr>hr_returncode = TIMEOUT_RETURNCODE, hr_text = JStr '''',
            hr_stderr = (if pe_stderr p \<noteq> '''' then pe_stderr p
              else ''review timed out after '' @ str_int timeout_s @ ''s''),
            hr_timed_out = True, hr_usage = so_usage o1, hr_cost = so_cost o1, hr_turns = so_turns o1\<rparr>
      else \<lparr>hr_returncode = pe_returncode p, hr_text = so_text o1, hr_stderr = pe_stderr p,
            hr_timed_out = False, hr_usage = so_usage o1, hr_cost = so_cost o1, hr_turns = so_turns o1\<rparr>)"

text \<open>\<open>run_review\<close> after \<open>_drive\<close>: the progress and the ending on the log.\<close>

definition run_harness ::
  "(string \<Rightarrow> nat + json) \<Rightarrow> (json \<Rightarrow> string) \<Rightarrow> (int \<Rightarrow> rat option) \<Rightarrow> string \<Rightarrow> int \<Rightarrow> string list \<Rightarrow> process_end
     \<Rightarrow> stream_error + harness_result \<times> progress list \<times> string list" where
  "run_harness loads py_str float_of model_name timeout_s raws p =
     (case consume_stream loads py_str float_of raws of
        Inl e \<Rightarrow> Inl e
      | Inr (o1, ps) \<Rightarrow> Inr (finish_run timeout_s p o1, ps, subtype_line model_name o1))"

section \<open>Why a run failed\<close>

definition any_char :: rx where "any_char = Cls not_nl"

definition THROTTLE_RE :: rx where
  "THROTTLE_RE = alts
     [cats [ILit ''rate'', maybe any_char, ILit ''limit''],
      cats [ILit ''too'', maybe any_char, ILit ''many'', maybe any_char, ILit ''requests''],
      cats [Wb, Lit ''429'', Wb],
      ILit ''quota'',
      ILit ''overloaded'',
      cats [ILit ''over'', maybe (Lit ''_''), ILit ''capacity''],
      cats [ILit ''resource'', maybe (Cls (\<lambda>c. c = CHR ''_'' \<or> c = CHR '' '')), ILit ''exhausted''],
      ILit ''insufficient_quota'',
      ILit ''throttl'',
      cats [ILit ''you'', maybe any_char, ILit ''ve hit your '', plus (Cls word_char), ILit '' limit''],
      ILit ''usage limit'',
      ILit ''credit balance is too low'',
      ILit ''spend limit'']"

definition is_throttle :: "int \<Rightarrow> string \<Rightarrow> bool" where
  "is_throttle returncode output =
     (if returncode = TIMEOUT_RETURNCODE then True else output \<noteq> '''' \<and> found THROTTLE_RE output)"

definition AUTH_FAILURE_RE :: rx where
  "AUTH_FAILURE_RE = alts
     [ILit ''not logged in'', ILit ''please run /login'', ILit ''invalid api key'', ILit ''authentication_error'',
      cats [Wb, ILit ''unauthorized'', Wb], cats [Wb, Lit ''401'', Wb]]"

definition is_auth_failure :: "string \<Rightarrow> bool" where
  "is_auth_failure output = (output \<noteq> '''' \<and> found AUTH_FAILURE_RE output)"

section \<open>What the fold computes\<close>

definition is_assistant :: "(string, json) dict \<Rightarrow> bool" where
  "is_assistant event = (map_of event ''type'' = Some (JStr ''assistant''))"

definition is_result :: "(string, json) dict \<Rightarrow> bool" where
  "is_result event = (map_of event ''type'' = Some (JStr ''result''))"

definition feeds :: "(string \<Rightarrow> nat + json) \<Rightarrow> string \<Rightarrow> bool" where
  "feeds loads raw = (case event_of loads raw of None \<Rightarrow> False | Some event \<Rightarrow> is_assistant event \<or> is_result event)"

definition stream_events :: "(string \<Rightarrow> nat + json) \<Rightarrow> string list \<Rightarrow> (string, json) dict list" where
  "stream_events loads raws = concat (map (\<lambda>raw. case event_of loads raw of None \<Rightarrow> [] | Some event \<Rightarrow> [event]) raws)"

text \<open>The shape an assistant event must have for the fold not to raise, and the texts it says.\<close>

definition shaped_block :: "json \<Rightarrow> bool" where
  "shaped_block block =
     (case block of
        JObj d \<Rightarrow>
          if map_of d ''type'' = Some (JStr ''tool_use'')
          then (case py_or (map_of d ''input'') (JObj []) of JObj arg \<Rightarrow> True | _ \<Rightarrow> False)
          else True
      | _ \<Rightarrow> True)"

definition message_blocks :: "(string, json) dict \<Rightarrow> stream_error + json list" where
  "message_blocks event =
     (case py_or (map_of event ''message'') (JObj []) of
        JObj message \<Rightarrow> iter_json (py_or (map_of message ''content'') (JList []))
      | _ \<Rightarrow> Inl AttributeError)"

definition shaped_message :: "(string, json) dict \<Rightarrow> bool" where
  "shaped_message event = (case message_blocks event of Inl e \<Rightarrow> False | Inr blocks \<Rightarrow> list_all shaped_block blocks)"

definition block_texts :: "json \<Rightarrow> json list" where
  "block_texts block =
     (case block of
        JObj d \<Rightarrow> if map_of d ''type'' = Some (JStr ''text'') \<and> truthy (py_or (map_of d ''text'') JNull)
                  then [py_or (map_of d ''text'') JNull] else []
      | _ \<Rightarrow> [])"

definition said :: "(string, json) dict \<Rightarrow> json list" where
  "said event = (case message_blocks event of Inl e \<Rightarrow> [] | Inr blocks \<Rightarrow> concat (map block_texts blocks))"

definition last_or :: "'a \<Rightarrow> 'a list \<Rightarrow> 'a" where "last_or d xs = (if xs = [] then d else last xs)"
definition last_some :: "'a option list \<Rightarrow> 'a option" where
  "last_some xs = last_or None (filter (\<lambda>x. x \<noteq> None) xs)"

lemma last_or_simps [simp]: "last_or d [] = d" "last_or d (xs @ [x]) = x"
  by (simp_all add: last_or_def)

lemma last_or_append: "last_or d (xs @ ys) = last_or (last_or d xs) ys"
  by (simp add: last_or_def)

lemma last_some_snoc: "last_some (xs @ [x]) = keep_last (last_some xs) x"
  by (cases x) (simp_all add: last_some_def keep_last_def)

lemma last_some_Nil [simp]: "last_some [] = None"
  by (simp add: last_some_def)

lemma stream_events_fold:
  "fold_err (line_step loads py_str float_of) raws st = fold_err (event_step py_str float_of) (stream_events loads raws) st"
proof (induction raws arbitrary: st)
  case (Cons raw raws)
  then show ?case
    by (cases "event_of loads raw") (auto simp: stream_events_def line_step_def split: sum.split)
qed (simp add: stream_events_def)

definition same_ends :: "stream_state \<Rightarrow> stream_state \<Rightarrow> bool" where
  "same_ends st st' = (sr_result st' = sr_result st \<and> sr_usage st' = sr_usage st \<and> sr_cost st' = sr_cost st
     \<and> sr_turns st' = sr_turns st \<and> sr_subtype st' = sr_subtype st \<and> sr_count st' = sr_count st)"

lemma block_step_cases:
  "case block_step py_str block st of
     Inl e \<Rightarrow> \<not> shaped_block block
   | Inr st' \<Rightarrow> shaped_block block
       \<and> sr_last st' = last_or (sr_last st) (block_texts block)
       \<and> same_ends st st'"
proof (cases block)
  case (JObj d)
  show ?thesis
  proof (cases "map_of d ''type'' = Some (JStr ''tool_use'')")
    case True
    then have "block_texts block = []" by (simp add: block_texts_def JObj)
    with True JObj show ?thesis
      by (auto simp: block_step_def shaped_block_def same_ends_def split: json.split)
  next
    case False
    then have "shaped_block block" by (simp add: shaped_block_def JObj)
    with False JObj show ?thesis
      by (auto simp: block_step_def block_texts_def last_or_def same_ends_def)
  qed
qed (auto simp: block_step_def shaped_block_def block_texts_def same_ends_def)

lemma blocks_fold_cases:
  "case fold_err (block_step py_str) blocks st of
     Inl e \<Rightarrow> \<not> list_all shaped_block blocks
   | Inr st' \<Rightarrow> list_all shaped_block blocks
       \<and> sr_last st' = last_or (sr_last st) (concat (map block_texts blocks)) \<and> same_ends st st'"
proof (induction blocks arbitrary: st)
  case (Cons block blocks)
  note b = block_step_cases [where py_str = py_str and block = block and st = st]
  show ?case
  proof (cases "block_step py_str block st")
    case (Inl e)
    with b show ?thesis by simp
  next
    case (Inr st1)
    note c = Cons.IH [of st1]
    from Inr b c show ?thesis
      by (cases "fold_err (block_step py_str) blocks st1") (simp_all add: last_or_append same_ends_def)
  qed
qed (simp add: same_ends_def)

lemma assistant_step_cases:
  "case assistant_step py_str event st of
     Inl e \<Rightarrow> \<not> shaped_message event
   | Inr st' \<Rightarrow> shaped_message event \<and> sr_last st' = last_or (sr_last st) (said event)
       \<and> same_ends (st\<lparr>sr_count := Suc (sr_count st)\<rparr>) st'"
proof -
  have step: "assistant_step py_str event st = (case message_blocks event of Inl e \<Rightarrow> Inl e
      | Inr blocks \<Rightarrow> fold_err (block_step py_str) blocks (st\<lparr>sr_count := Suc (sr_count st)\<rparr>))"
    by (auto simp: assistant_step_def message_blocks_def split: json.split)
  show ?thesis
  proof (cases "message_blocks event")
    case (Inl e)
    then show ?thesis by (simp add: step shaped_message_def)
  next
    case (Inr blocks)
    with blocks_fold_cases [where py_str = py_str and blocks = blocks and st = "st\<lparr>sr_count := Suc (sr_count st)\<rparr>"] show ?thesis
      by (auto simp: step shaped_message_def said_def split: sum.split)
  qed
qed

text \<open>The outcome, read off the events without folding.\<close>

definition stream_spec :: "(int \<Rightarrow> rat option) \<Rightarrow> (string, json) dict list \<Rightarrow> stream_outcome" where
  "stream_spec float_of events =
     (let said_texts = concat (map said (filter is_assistant events));
          ends = filter is_result events;
          final = last_some (map (\<lambda>e. as_str (map_of e ''result'')) ends)
      in \<lparr>so_text = (case final of None \<Rightarrow> last_or (JStr '''') said_texts | Some s \<Rightarrow> JStr s),
          so_saw_result = (final \<noteq> None),
          so_usage = last_some (map (\<lambda>e. as_obj (map_of e ''usage'')) ends),
          so_cost = last_or None (map (\<lambda>e. as_float float_of (map_of e ''total_cost_usd'')) ends),
          so_turns = last_or None (map (\<lambda>e. as_int (map_of e ''num_turns'')) ends),
          so_subtype = last_some (map (\<lambda>e. as_str (map_of e ''subtype'')) ends)\<rparr>)"

lemma assistant_no_result: "is_assistant event \<Longrightarrow> \<not> is_result event"
  by (simp add: is_assistant_def is_result_def)

lemma events_fold_cases:
  "case fold_err (event_step py_str float_of) events stream_start of
     Inl e \<Rightarrow> \<not> list_all shaped_message (filter is_assistant events)
   | Inr st \<Rightarrow> list_all shaped_message (filter is_assistant events)
       \<and> sr_last st = last_or (JStr '''') (concat (map said (filter is_assistant events)))
       \<and> sr_result st = last_some (map (\<lambda>e. as_str (map_of e ''result'')) (filter is_result events))
       \<and> sr_usage st = last_some (map (\<lambda>e. as_obj (map_of e ''usage'')) (filter is_result events))
       \<and> sr_cost st = last_or None (map (\<lambda>e. as_float float_of (map_of e ''total_cost_usd'')) (filter is_result events))
       \<and> sr_turns st = last_or None (map (\<lambda>e. as_int (map_of e ''num_turns'')) (filter is_result events))
       \<and> sr_subtype st = last_some (map (\<lambda>e. as_str (map_of e ''subtype'')) (filter is_result events))"
proof (induction events rule: rev_induct)
  case (snoc event events)
  show ?case
  proof (cases "fold_err (event_step py_str float_of) events stream_start")
    case (Inl e)
    with snoc.IH show ?thesis by (simp add: fold_err_append)
  next
    case (Inr st)
    have tail: "fold_err (event_step py_str float_of) (events @ [event]) stream_start = event_step py_str float_of event st"
      by (simp add: fold_err_append Inr split: sum.split)
    consider (says) "is_assistant event" "\<not> is_result event" | (ends) "is_result event" "\<not> is_assistant event"
      | (other) "\<not> is_assistant event" "\<not> is_result event"
      using assistant_no_result by blast
    then show ?thesis
    proof cases
      case says
      then have "event_step py_str float_of event st = assistant_step py_str event st"
        by (simp add: event_step_def is_assistant_def)
      with says Inr snoc.IH assistant_step_cases [where py_str = py_str and event = event and st = st] show ?thesis
        unfolding tail by (cases "assistant_step py_str event st") (simp_all add: same_ends_def last_or_append)
    next
      case ends
      then have "event_step py_str float_of event st = Inr (result_step float_of event st)"
        by (simp add: event_step_def is_assistant_def is_result_def)
      with ends Inr snoc.IH show ?thesis unfolding tail by (simp add: result_step_def last_some_snoc)
    next
      case other
      then have "event_step py_str float_of event st = Inr st"
        by (simp add: event_step_def is_assistant_def is_result_def)
      with other Inr snoc.IH show ?thesis unfolding tail by simp
    qed
  qed
qed (simp add: stream_start_def)

text \<open>C21: the fold of the harness's feed is the specification read off its events. Lines that hold
  no event do not matter; the text is the last \<open>result\<close> event's, or the last thing the assistant
  said; the accounting is the last \<open>result\<close> event's; and the fold raises exactly when an assistant
  event is misshapen.\<close>

theorem stream_is_its_events:
  "case consume_stream loads py_str float_of raws of
     Inl e \<Rightarrow> \<not> list_all shaped_message (filter is_assistant (stream_events loads raws))
   | Inr (o1, ps) \<Rightarrow> list_all shaped_message (filter is_assistant (stream_events loads raws))
       \<and> o1 = stream_spec float_of (stream_events loads raws)"
  using events_fold_cases [where py_str = py_str and float_of = float_of and events = "stream_events loads raws"]
  by (cases "fold_err (event_step py_str float_of) (stream_events loads raws) stream_start")
    (simp_all add: consume_stream_def stream_events_fold outcome_of_def stream_spec_def Let_def split: option.split)

text \<open>A misshapen event kills the review: the exception is none that \<open>invoke\<close> catches.\<close>

lemma misshapen_message_raises:
  "loads raw = Inr (JObj [(''type'', JStr ''assistant''), (''message'', JStr ''hi'')]) \<Longrightarrow> strip raw = raw \<Longrightarrow> raw \<noteq> '''' \<Longrightarrow>
     consume_stream loads py_str float_of [raw] = Inl AttributeError"
  by (simp add: consume_stream_def line_step_def event_of_def event_step_def assistant_step_def py_or_def truthy_def)

text \<open>A tool name is printed as it comes: a line break in it starts a line of the log.\<close>

lemma tool_name_breaks_the_line:
  "splitlines (progress_line ''m'' 0 \<lparr>pg_turn = 1, pg_tool = ''x'' @ nl @ ''forged'', pg_arg = ''''\<rparr>)
    = [''fuko: agentic m [0m t1] x'', ''forged '']"
  by code_simp

end
