(* ===== verification/Outcome.thy ===== *)
theory Outcome
  imports Harness Publish Ledger Review_Lifecycle
begin

text \<open>
  The second half of \<open>AgenticBackend.invoke\<close> (\<open>backends/agentic.py\<close>): from what the harness returned
  to an \<open>InvokeResult\<close>, a settled ledger and a stashed review, with every line it writes to the log.
  \<open>_failure_result\<close> and \<open>_dump_harness_output\<close> are those functions, \<open>flatten_for_log\<close> is
  \<open>sidecar/logfmt.py\<close>. The generic messages of a parse failure, which quote the decoder, are a
  parameter (\<open>complaint\<close>).
\<close>

section \<open>Failures\<close>

definition flatten_for_log :: "string \<Rightarrow> string" where
  "flatten_for_log value = join '' '' (splitlines (strip value))"

definition DETAIL_CAP :: nat where "DETAIL_CAP = 460"
definition CHANNEL :: string where "CHANNEL = ''agentic-review''"

definition run_costs_of :: "harness_result \<Rightarrow> run_costs" where
  "run_costs_of h = (usage_tokens (hr_usage h) no_costs)\<lparr>co_cost_usd := hr_cost h, co_turns := hr_turns h\<rparr>"

type_synonym transcript_index = "(string, string) dict option"

definition failure_result :: "string \<Rightarrow> string \<Rightarrow> bool \<Rightarrow> run_costs \<Rightarrow> transcript_index \<Rightarrow> invoke_result" where
  "failure_result verdict message throttled costs transcript =
     (let body = take DETAIL_CAP (flatten_for_log message)
      in \<lparr>ir_returncode = (if verdict = ''killed:timeout'' then TIMEOUT_RETURNCODE else 1),
          ir_detail = (if body \<noteq> '''' then verdict @ '': '' @ body else verdict),
          ir_throttled = throttled, ir_provider = None, ir_channels = [(CHANNEL, verdict)],
          ir_endpoint = None, ir_costs = costs, ir_transcript = transcript\<rparr>)"

section \<open>The log\<close>

text \<open>A write to stderr, without its final line feed.\<close>

definition EM_DASH :: string where "EM_DASH = [CHR 0xE2, CHR 0x80, CHR 0x94]"

definition dump_stream :: "string \<Rightarrow> string \<Rightarrow> string \<Rightarrow> string \<Rightarrow> string list" where
  "dump_stream model_name label stream content =
     (if rstrip content = '''' then []
      else [''fuko: agentic '' @ model_name @ '' '' @ label @ '' '' @ EM_DASH @ '' full harness '' @ stream @ '' follows'']
        @ map (\<lambda>l. ''fuko: '' @ model_name @ '' '' @ stream @ ''| '' @ l) (splitlines (rstrip content))
        @ [''fuko: agentic '' @ model_name @ '' '' @ stream @ '' ends''])"

definition dump_harness_output :: "string \<Rightarrow> string \<Rightarrow> string \<Rightarrow> string \<Rightarrow> string list" where
  "dump_harness_output model_name label stderr content =
     (let chunks = dump_stream model_name label ''stderr'' stderr @ dump_stream model_name label ''final-message'' content
      in if chunks = [] then [] else [join nl chunks])"

section \<open>A run that failed\<close>

record invocation =
  iv_model :: string
  iv_auth :: string
  iv_pr_url :: string
  iv_lane :: lane
  iv_head :: string
  iv_diff :: "string set \<times> (string \<times> int) set"
  iv_identity :: string
  iv_coverage_ledger :: bool
  iv_findings_ledger :: bool

text \<open>What the classifiers read.\<close>

definition run_output :: "harness_result \<Rightarrow> string \<Rightarrow> string" where
  "run_output h content = hr_stderr h @ nl @ content"

definition run_verdict :: "harness_result \<Rightarrow> bool \<Rightarrow> string" where
  "run_verdict h throttled =
     (if hr_timed_out h then ''killed:timeout''
      else if throttled then ''throttled:exit '' @ str_int (hr_returncode h)
      else ''failed:exit '' @ str_int (hr_returncode h))"

definition failed_run :: "invocation \<Rightarrow> harness_result \<Rightarrow> string \<Rightarrow> transcript_index \<Rightarrow> invoke_result" where
  "failed_run iv h content transcript =
     (if is_auth_failure (run_output h content)
      then (let auth_tail = take 300 (flatten_for_log (hr_stderr h))
            in failure_result (''failed:exit '' @ str_int (hr_returncode h))
                 (''agent could not authenticate in '' @ iv_auth iv @ '' mode''
                   @ (if auth_tail \<noteq> '''' then '': '' @ auth_tail else ''''))
                 False (run_costs_of h) transcript)
      else (let throttled = is_throttle (hr_returncode h) (run_output h content)
            in failure_result (run_verdict h throttled) (take DETAIL_CAP (flatten_for_log (hr_stderr h)))
                 throttled (run_costs_of h) transcript))"

text \<open>The handlers of \<open>HarnessNotAvailableError\<close> and \<open>OSError\<close>: no run, no costs.\<close>

definition harness_unavailable :: "string \<Rightarrow> transcript_index \<Rightarrow> invoke_result" where
  "harness_unavailable message transcript = failure_result ''failed:exit 1'' message False no_costs transcript"

section \<open>A run that answered\<close>

definition parse_message :: "(parse_failure \<Rightarrow> string) \<Rightarrow> parse_failure \<Rightarrow> string" where
  "parse_message complaint f = (case f of Runbook m \<Rightarrow> m | _ \<Rightarrow> complaint f)"

definition nat_text :: "nat \<Rightarrow> string" where "nat_text n = str_int (int n)"

definition seat_prefix :: "invocation \<Rightarrow> string" where
  "seat_prefix iv = ''fuko: review-state seat '' @ snd (snd (iv_lane iv))"

definition settlement_log :: "invocation \<Rightarrow> carried_state \<Rightarrow> settlement \<Rightarrow> string list" where
  "settlement_log iv carried t =
     (if cs_rows carried \<noteq> [] \<or> se_recorded t \<noteq> 0 \<or> se_reopened t \<noteq> [] \<or> se_coverage t \<noteq> 0
        \<or> cs_coverage carried \<noteq> 0 \<or> cs_expired carried \<noteq> 0
      then [seat_prefix iv @ '' round '' @ str_int (cs_round carried) @ '': carried '' @ nat_text (length (cs_rows carried))
             @ '', closed '' @ nat_text (se_closed t) @ '', re-asserted '' @ nat_text (se_reasserted t)
             @ '', recorded '' @ nat_text (se_recorded t) @ '', deduped '' @ nat_text (length (se_deduped t))
             @ '', reopened '' @ nat_text (length (se_reopened t))
             @ '', coverage carried '' @ str_int (cs_coverage carried) @ '', expired '' @ nat_text (cs_expired carried)
             @ '', recorded '' @ nat_text (se_coverage t)]
           @ map (\<lambda>c. seat_prefix iv @ '' re-raised a closed finding: '' @ flatten_for_log c) (se_reopened t)
           @ map (\<lambda>c. seat_prefix iv @ '' re-asserted, not re-recorded: '' @ flatten_for_log c) (se_deduped t)
      else [])"

definition stash_log :: "stash_key \<Rightarrow> stash \<Rightarrow> string list" where
  "stash_log k d =
     map (\<lambda>e. ''fuko: dropped an unclaimed agentic review for '' @ fst (snd (fst e))
         @ '' (pending cap '' @ nat_text MAX_PENDING @ '' reached)'')
       (take (length d - length (evict k d)) d)"

definition stash_key_of :: "invocation \<Rightarrow> stash_key" where
  "stash_key_of iv = (iv_pr_url iv, iv_model iv, iv_identity iv)"

definition completed :: "agentic_review \<Rightarrow> run_costs \<Rightarrow> transcript_index \<Rightarrow> invoke_result" where
  "completed review costs transcript =
     \<lparr>ir_returncode = 0,
      ir_detail = nat_text (length (kept_findings (ar_findings review))) @ '' findings''
        @ (if ar_degraded review \<noteq> '''' then '' ('' @ ar_degraded review @ '')'' else ''''),
      ir_throttled = False, ir_provider = None,
      ir_channels = [(CHANNEL, if ar_degraded review \<noteq> '''' then ''degraded: '' @ ar_degraded review else ''done'')],
      ir_endpoint = None, ir_costs = costs, ir_transcript = transcript\<rparr>"

text \<open>The tail of \<open>invoke\<close>, on the ledger's state and the stash. A text that is no string raises
  where it is first used.\<close>

definition conclude ::
  "'s ledger_ops \<Rightarrow> review_codec \<Rightarrow> (parse_failure \<Rightarrow> string) \<Rightarrow> invocation \<Rightarrow> carried_state \<Rightarrow> transcript_index
     \<Rightarrow> harness_result \<Rightarrow> 's \<Rightarrow> stash \<Rightarrow> (stream_error + invoke_result) \<times> string list \<times> 's \<times> stash" where
  "conclude ops rc complaint iv carried transcript h s d =
     (case hr_text h of
        JStr content \<Rightarrow>
          if hr_returncode h \<noteq> 0
          then (Inr (failed_run iv h content transcript),
                dump_harness_output (iv_model iv) (''exit '' @ str_int (hr_returncode h)) (hr_stderr h) content, s, d)
          else (case parse_review rc content of
                  Inl f \<Rightarrow>
                    (Inr (failure_result ''failed:exit 1'' (parse_message complaint f) False (run_costs_of h) transcript),
                     dump_harness_output (iv_model iv) ''parse-failure (harness exit 0)'' (hr_stderr h) content
                       @ [''fuko: '' @ iv_model iv @ '' '' @ flatten_for_log (parse_message complaint f)], s, d)
                | Inr review \<Rightarrow>
                    (let salvaged =
                           (if ar_degraded review \<noteq> ''''
                            then dump_harness_output (iv_model iv) ''salvaged (harness exit 0)'' (hr_stderr h) content
                              @ [''fuko: '' @ iv_model iv @ '' review published as degraded: '' @ flatten_for_log (ar_degraded review)]
                            else []);
                         (t, s1) = settle ops carried (iv_lane iv) (iv_head iv) (ar_prior_status review)
                           (kept_findings (ar_findings review)) (ar_examined review)
                           (iv_coverage_ledger iv) (iv_findings_ledger iv) s
                     in (Inr (completed review (run_costs_of h) transcript),
                         salvaged @ settlement_log iv carried t @ stash_log (stash_key_of iv) d, s1,
                         stash_review (stash_key_of iv)
                           (pending_of (ar_findings review) (ar_summary review) (iv_head iv) (iv_diff iv)) d)))
      | _ \<Rightarrow> (Inl (if hr_returncode h \<noteq> 0 then TypeError else AttributeError), [], s, d))"

text \<open>From the harness's lines to the result.\<close>

definition invoke_run ::
  "'s ledger_ops \<Rightarrow> review_codec \<Rightarrow> (int \<Rightarrow> rat option) \<Rightarrow> (parse_failure \<Rightarrow> string) \<Rightarrow> invocation \<Rightarrow> carried_state
     \<Rightarrow> transcript_index \<Rightarrow> int \<Rightarrow> string list \<Rightarrow> process_end \<Rightarrow> 's \<Rightarrow> stash
     \<Rightarrow> (stream_error + invoke_result) \<times> string list \<times> 's \<times> stash" where
  "invoke_run ops rc float_of complaint iv carried transcript timeout_s raws p s d =
     (case run_harness (rc_loads rc) (rc_str rc) float_of (iv_model iv) timeout_s raws p of
        Inl e \<Rightarrow> (Inl e, [], s, d)
      | Inr (h, shown_lines, ending) \<Rightarrow>
          (let (r, log, s1, d1) = conclude ops rc complaint iv carried transcript h s d
           in (r, ending @ log, s1, d1)))"

section \<open>One physical line\<close>

lemma unbroken_simps [simp]:
  "unbroken []" "unbroken (a @ b) = (unbroken a \<and> unbroken b)" "unbroken (c # s) = (\<not> line_break c \<and> unbroken s)"
  by (simp_all add: unbroken_def)

lemma unbroken_take: "unbroken s \<Longrightarrow> unbroken (take n s)"
  by (auto simp: unbroken_def list_all_iff dest: in_set_takeD)

lemma unbroken_drop: "unbroken s \<Longrightarrow> unbroken (drop n s)"
  by (auto simp: unbroken_def list_all_iff dest: in_set_dropD)

lemma unbroken_join: "unbroken sep \<Longrightarrow> \<forall>x \<in> set xs. unbroken x \<Longrightarrow> unbroken (join sep xs)"
  by (induction sep xs rule: join.induct) auto

lemma unbroken_lines: "\<forall>l \<in> set (splitlines s). unbroken l"
  using splitlines_no_break [of _ s] by (auto simp: unbroken_def list_all_iff)

lemma unbroken_flatten [simp]: "unbroken (flatten_for_log s)" "unbroken (flatten_arg s)"
  unfolding flatten_for_log_def flatten_arg_def
  by (intro unbroken_take unbroken_join unbroken_lines; simp)+

lemma unbroken_num [simp]: "unbroken (str_int i)" "unbroken (nat_text n)"
  using str_int_no_break by (auto simp: unbroken_def list_all_iff nat_text_def)

definition FUKO :: string where "FUKO = ''fuko: ''"

text \<open>Every physical line of a write is one of fuko's.\<close>

definition log_ok :: "string \<Rightarrow> bool" where
  "log_ok w = list_all (\<lambda>l. startswith l FUKO) (splitlines w)"

lemma log_ok_line: "unbroken w \<Longrightarrow> startswith w FUKO \<Longrightarrow> log_ok w"
  by (cases "w = []") (simp_all add: log_ok_def splitlines_one unbroken_def list_all_iff FUKO_def startswith_def)

lemma log_ok_chunks:
  assumes "xs \<noteq> []" "\<forall>x \<in> set xs. unbroken x \<and> startswith x FUKO"
  shows "log_ok (join nl xs)"
proof -
  have "\<forall>x \<in> set xs. x \<noteq> [] \<and> (\<forall>c \<in> set x. \<not> line_break c)"
    using assms(2) by (auto simp: unbroken_def list_all_iff FUKO_def startswith_def)
  with assms show ?thesis by (simp add: log_ok_def splitlines_join_exact list_all_iff)
qed

lemma fuko_line: "startswith (''fuko: '' @ x) FUKO"
  unfolding FUKO_def by (rule startswith_append_self)

lemma unbroken_em_dash: "unbroken EM_DASH"
  by (simp add: EM_DASH_def line_break_def)

lemma dump_stream_lines:
  assumes "unbroken m" "unbroken label" "unbroken stream" "x \<in> set (dump_stream m label stream content)"
  shows "unbroken x \<and> startswith x FUKO"
proof -
  have lit: "unbroken ''fuko: agentic ''" "unbroken '' ''" "unbroken '' full harness ''" "unbroken '' follows''"
    "unbroken ''fuko: ''" "unbroken ''| ''" "unbroken '' ends''"
    by (simp_all add: line_break_def)
  have head: "''fuko: agentic '' @ y = ''fuko: '' @ ''agentic '' @ y" for y by simp
  from assms(4) consider "x = ''fuko: agentic '' @ m @ '' '' @ label @ '' '' @ EM_DASH @ '' full harness '' @ stream @ '' follows''"
    | l where "l \<in> set (splitlines (rstrip content))" "x = ''fuko: '' @ m @ '' '' @ stream @ ''| '' @ l"
    | "x = ''fuko: agentic '' @ m @ '' '' @ stream @ '' ends''"
    unfolding dump_stream_def by (auto split: if_splits simp del: append.simps)
  then show ?thesis
  proof cases
    case 1
    with assms(1-3) lit unbroken_em_dash have "unbroken x" by (simp only: unbroken_simps simp_thms)
    then show ?thesis unfolding 1 head using fuko_line by blast
  next
    case 2
    have "unbroken l" using 2(1) unbroken_lines by blast
    with assms(1-3) lit 2(2) have "unbroken x" by (simp only: unbroken_simps simp_thms)
    then show ?thesis unfolding 2(2) using fuko_line by blast
  next
    case 3
    with assms(1-3) lit have "unbroken x" by (simp only: unbroken_simps simp_thms)
    then show ?thesis unfolding 3 head using fuko_line by blast
  qed
qed

lemma dump_log_ok:
  assumes "unbroken m" "unbroken label"
  shows "list_all log_ok (dump_harness_output m label stderr content)"
proof -
  let ?chunks = "dump_stream m label ''stderr'' stderr @ dump_stream m label ''final-message'' content"
  have "\<forall>x \<in> set ?chunks. unbroken x \<and> startswith x FUKO"
    using dump_stream_lines [OF assms, of "''stderr''" _ stderr] dump_stream_lines [OF assms, of "''final-message''" _ content]
    by (auto simp: line_break_def)
  then have "?chunks \<noteq> [] \<Longrightarrow> log_ok (join nl ?chunks)" by (intro log_ok_chunks)
  then show ?thesis by (auto simp: dump_harness_output_def Let_def simp del: append_is_Nil_conv)
qed

text \<open>A write made of one line.\<close>

lemma log_ok_fuko: "unbroken x \<Longrightarrow> log_ok (''fuko: '' @ x)"
  by (rule log_ok_line [OF _ fuko_line]) (simp add: line_break_def)

lemma settlement_log_ok:
  assumes seat: "unbroken (snd (snd (iv_lane iv)))"
  shows "list_all log_ok (settlement_log iv carried t)"
proof -
  have p: "seat_prefix iv @ x = ''fuko: '' @ ''review-state seat '' @ snd (snd (iv_lane iv)) @ x" for x
    by (simp add: seat_prefix_def)
  have line: "unbroken x \<Longrightarrow> log_ok (seat_prefix iv @ x)" for x
    unfolding p by (rule log_ok_fuko) (simp add: seat line_break_def)
  have "log_ok (seat_prefix iv @ '' re-raised a closed finding: '' @ flatten_for_log c)"
    "log_ok (seat_prefix iv @ '' re-asserted, not re-recorded: '' @ flatten_for_log c)" for c
    by (rule line, simp add: line_break_def)+
  then show ?thesis
    unfolding settlement_log_def list_all_append by (auto simp: list_all_iff line_break_def intro!: line)
qed

lemma stash_log_ok:
  assumes "list_all (\<lambda>e. unbroken (fst (snd (fst e)))) d"
  shows "list_all log_ok (stash_log k d)"
proof -
  have "log_ok (''fuko: '' @ ''dropped an unclaimed agentic review for '' @ fst (snd (fst e))
      @ '' (pending cap '' @ nat_text MAX_PENDING @ '' reached)'')" if "e \<in> set d" for e
    by (rule log_ok_fuko) (use assms that in \<open>simp add: list_all_iff line_break_def\<close>)
  then show ?thesis by (auto simp: stash_log_def list_all_iff dest: in_set_takeD)
qed

lemma subtype_log_ok: "unbroken m \<Longrightarrow> list_all log_ok (subtype_line m o1)"
proof -
  assume m: "unbroken m"
  have "log_ok (''fuko: '' @ ''agentic '' @ m @ '' harness ended with result subtype='' @ flatten_arg s)" for s
    by (rule log_ok_fuko) (simp add: m line_break_def)
  then show ?thesis by (auto simp: subtype_line_def split: option.split)
qed

lemma conclude_log_ok:
  assumes m: "unbroken (iv_model iv)" and seat: "unbroken (snd (snd (iv_lane iv)))"
    and stashed: "list_all (\<lambda>e. unbroken (fst (snd (fst e)))) d"
  shows "list_all log_ok (fst (snd (conclude ops rc complaint iv carried transcript h s d)))"
proof -
  have l: "unbroken (''exit '' @ str_int n)" "unbroken ''parse-failure (harness exit 0)''"
    "unbroken ''salvaged (harness exit 0)''" for n
    by (simp_all add: line_break_def)
  have c: "log_ok (''fuko: '' @ iv_model iv @ '' '' @ flatten_for_log x)"
    "log_ok (''fuko: '' @ iv_model iv @ '' review published as degraded: '' @ flatten_for_log x)" for x
    by (rule log_ok_fuko; simp add: m line_break_def)+
  show ?thesis
    unfolding conclude_def
    by (auto split: json.split sum.split prod.split
        simp: Let_def dump_log_ok [OF m l(1)] dump_log_ok [OF m l(2)] dump_log_ok [OF m l(3)]
          c settlement_log_ok [OF seat] stash_log_ok [OF stashed]
        simp del: append.simps)
qed

lemma invoke_written:
  "fst (snd (invoke_run ops rc float_of complaint iv carried transcript timeout_s raws p s d)) =
     (case run_harness (rc_loads rc) (rc_str rc) float_of (iv_model iv) timeout_s raws p of
        Inl e \<Rightarrow> []
      | Inr (h, ps, ending) \<Rightarrow> ending @ fst (snd (conclude ops rc complaint iv carried transcript h s d)))"
  by (simp add: invoke_run_def split: sum.split prod.split)

text \<open>Nothing the model, the harness or the diff's author wrote can start a line of the log.
  Whatever the harness printed and the review contains, every physical line a run writes (the dump
  of a failure, the diagnosis, the ledger's report, a dropped review, the ending of the harness)
  begins with fuko's own prefix, as long as the configured names of model and seat have no line
  break.\<close>

theorem log_lines_are_fukos:
  assumes "unbroken (iv_model iv)" "unbroken (snd (snd (iv_lane iv)))"
    and "list_all (\<lambda>e. unbroken (fst (snd (fst e)))) d"
  shows "list_all log_ok
    (fst (snd (invoke_run ops rc float_of complaint iv carried transcript timeout_s raws p s d)))"
  using conclude_log_ok [OF assms] subtype_log_ok [OF assms(1)]
  by (auto simp: invoke_written run_harness_def split: sum.split)

section \<open>Results\<close>

lemma length_num_verdicts:
  "run_verdict h b \<noteq> ''done''" "''failed:exit '' @ x \<noteq> ''done''"
  by (simp_all add: run_verdict_def)

lemma failure_result_fields:
  "ir_throttled (failure_result v m b c t) = b" "ir_costs (failure_result v m b c t) = c"
  "ir_transcript (failure_result v m b c t) = t" "ir_channels (failure_result v m b c t) = [(CHANNEL, v)]"
  "ir_returncode (failure_result v m b c t) = (if v = ''killed:timeout'' then TIMEOUT_RETURNCODE else 1)"
  by (simp_all add: failure_result_def Let_def)

lemma failure_detail:
  "ir_detail (failure_result v m b c t) = v
   \<or> (\<exists>x. x \<noteq> [] \<and> length x \<le> DETAIL_CAP \<and> unbroken x \<and> ir_detail (failure_result v m b c t) = v @ '': '' @ x)"
proof (cases "take DETAIL_CAP (flatten_for_log m) = []")
  case True
  then show ?thesis by (simp only: failure_result_def Let_def invoke_result.simps simp_thms if_False)
next
  case False
  have "ir_detail (failure_result v m b c t) = v @ '': '' @ take DETAIL_CAP (flatten_for_log m)"
    using False by (simp only: failure_result_def Let_def invoke_result.simps simp_thms if_True)
  moreover have "length (take DETAIL_CAP (flatten_for_log m)) \<le> DETAIL_CAP" by simp
  ultimately show ?thesis using False unbroken_take [OF unbroken_flatten(1)] by blast
qed

definition failure_shape :: "invoke_result \<Rightarrow> bool" where
  "failure_shape r \<longleftrightarrow> (\<exists>v. ir_channels r = [(CHANNEL, v)] \<and> v \<noteq> ''done''
     \<and> (ir_detail r = v \<or> (\<exists>x. x \<noteq> [] \<and> length x \<le> DETAIL_CAP \<and> unbroken x \<and> ir_detail r = v @ '': '' @ x)))"

lemma failure_shaped: "v \<noteq> ''done'' \<Longrightarrow> failure_shape (failure_result v m b c t)"
  using failure_detail [of v m b c t] by (auto simp: failure_shape_def, simp_all add: failure_result_def Let_def)

lemma failed_run_result:
  "failure_shape (failed_run iv h content t) \<and> ir_returncode (failed_run iv h content t) \<noteq> 0
   \<and> ir_costs (failed_run iv h content t) = run_costs_of h \<and> ir_transcript (failed_run iv h content t) = t
   \<and> ir_throttled (failed_run iv h content t) =
       (\<not> is_auth_failure (run_output h content) \<and> is_throttle (hr_returncode h) (run_output h content))"
proof -
  have "failure_shape (failed_run iv h content t)"
  proof (cases "is_auth_failure (run_output h content)")
    case True
    show ?thesis
      unfolding failed_run_def Let_def if_P [OF True] by (rule failure_shaped [OF length_num_verdicts(2)])
  next
    case False
    show ?thesis
      unfolding failed_run_def Let_def if_not_P [OF False] by (rule failure_shaped [OF length_num_verdicts(1)])
  qed
  moreover have "ir_returncode (failure_result v m b c t) \<noteq> 0 \<and> ir_costs (failure_result v m b c t) = c
      \<and> ir_transcript (failure_result v m b c t) = t \<and> ir_throttled (failure_result v m b c t) = b" for v m b c
    by (simp add: failure_result_def Let_def TIMEOUT_RETURNCODE_def)
  ultimately show ?thesis unfolding failed_run_def Let_def by auto
qed

lemma conclude_cases:
  "case conclude ops rc complaint iv carried transcript h s d of
     (Inl e, written, s', d') \<Rightarrow> (\<nexists>x. hr_text h = JStr x) \<and> s' = s \<and> d' = d
   | (Inr r, written, s', d') \<Rightarrow>
       ir_costs r = run_costs_of h \<and> ir_transcript r = transcript
       \<and> (\<exists>content. hr_text h = JStr content
           \<and> (if ir_returncode r = 0
              then hr_returncode h = 0 \<and> \<not> ir_throttled r
                \<and> (\<exists>review. parse_review rc content = Inr review
                     \<and> (map_of (ir_channels r) CHANNEL = Some ''done'') = (ar_degraded review = '''')
                     \<and> s' = snd (settle ops carried (iv_lane iv) (iv_head iv) (ar_prior_status review)
                         (kept_findings (ar_findings review)) (ar_examined review)
                         (iv_coverage_ledger iv) (iv_findings_ledger iv) s)
                     \<and> d' = stash_review (stash_key_of iv)
                         (pending_of (ar_findings review) (ar_summary review) (iv_head iv) (iv_diff iv)) d)
              else failure_shape r \<and> s' = s \<and> d' = d
                \<and> (if hr_returncode h = 0 then \<exists>f. parse_review rc content = Inl f else True)
                \<and> ir_throttled r = (hr_returncode h \<noteq> 0 \<and> \<not> is_auth_failure (run_output h content)
                     \<and> is_throttle (hr_returncode h) (run_output h content))))"
proof (cases "\<exists>content. hr_text h = JStr content")
  case False
  then show ?thesis by (auto simp: conclude_def split: json.split)
next
  case True
  then obtain content where t: "hr_text h = JStr content" by blast
  show ?thesis
  proof (cases "hr_returncode h = 0")
    case False
    with t failed_run_result [of iv h content transcript] show ?thesis by (simp add: conclude_def)
  next
    case zero: True
    show ?thesis
    proof (cases "parse_review rc content")
      case (Inl f)
      with t zero show ?thesis
        by (simp add: conclude_def failure_shaped, simp add: failure_result_def Let_def)
    next
      case (Inr review)
      with t zero show ?thesis
        by (simp add: conclude_def completed_def Let_def split: prod.split)
    qed
  qed
qed



text \<open>A run killed at its timeout whose stderr also speaks of a 401 is read as an authentication
  failure: it does not fail over, although the timeout is throttle-class everywhere else.\<close>

lemma timed_out_auth_does_not_fail_over:
  "is_auth_failure (run_output h content) \<Longrightarrow> hr_timed_out h \<Longrightarrow> hr_returncode h = TIMEOUT_RETURNCODE \<Longrightarrow>
     is_throttle (hr_returncode h) (run_output h content) \<and> \<not> ir_throttled (failed_run iv h content t)
     \<and> ir_returncode (failed_run iv h content t) = 1"
proof (intro conjI)
  assume a: "is_auth_failure (run_output h content)" and rc: "hr_returncode h = TIMEOUT_RETURNCODE"
  show "is_throttle (hr_returncode h) (run_output h content)" unfolding is_throttle_def using rc by simp
  show "\<not> ir_throttled (failed_run iv h content t)"
    unfolding failed_run_def Let_def if_P [OF a] failure_result_fields by (rule notI)
  have "''failed:exit '' @ x \<noteq> ''killed:timeout''" for x by simp
  then show "ir_returncode (failed_run iv h content t) = 1"
    unfolding failed_run_def Let_def if_P [OF a] failure_result_fields by (simp only: if_False)
qed

section \<open>The runbook on the receipt\<close>

lemma split_when_clean: "w \<in> set (split_when P s) \<Longrightarrow> c \<in> set w \<Longrightarrow> \<not> P c"
proof (induction s arbitrary: w)
  case (Cons x s)
  show ?case
  proof (cases "P x")
    case True
    with Cons.prems have "w = [] \<or> w \<in> set (split_when P s)" by simp
    with Cons.IH Cons.prems(2) show ?thesis by auto
  next
    case False
    show ?thesis
    proof (cases "split_when P s")
      case Nil
      with False Cons.prems show ?thesis by simp
    next
      case (Cons v vs)
      with False Cons.prems have "w = x # v \<or> w \<in> set vs" by simp
      with Cons Cons.IH [of v] Cons.IH [of w] Cons.prems(2) False show ?thesis by auto
    qed
  qed
qed simp

lemma words_unbroken: "w \<in> set (words s) \<Longrightarrow> unbroken w"
  using split_when_clean [of w py_space s] line_break_space by (auto simp: words_def unbroken_def list_all_iff)

lemma clip_unbroken: "unbroken (clip_message v n)"
proof -
  have "unbroken (join '' '' (words v))"
    by (rule unbroken_join) (use words_unbroken in \<open>auto simp: line_break_def\<close>)
  moreover have "unbroken ''...''" by (simp add: line_break_def)
  ultimately show ?thesis by (simp add: clip_message_def Let_def unbroken_take del: unbroken_simps(3))
qed

lemma clip_length: "3 \<le> n \<Longrightarrow> length (clip_message v n) \<le> n"
  by (auto simp: clip_message_def Let_def)

lemma flatten_unbroken:
  assumes "unbroken s" "s \<noteq> []" "\<not> py_space (hd s)" "\<not> py_space (last s)"
  shows "flatten_for_log s = s"
proof -
  have "lstrip s = s" using assms(3) by (simp add: lstrip_def dropWhile_eq_self_iff)
  moreover have "dropWhile py_space (rev s) = rev s" using assms(4) by (simp add: dropWhile_eq_self_iff hd_rev)
  then have "rstrip s = s" by (simp add: rstrip_def)
  ultimately have "strip s = s" by (simp add: strip_def)
  with assms(1,2) show ?thesis by (simp add: flatten_for_log_def splitlines_one unbroken_def list_all_iff)
qed

lemma runbook_text:
  "unbroken RUNBOOK_HEAD" "unbroken RUNBOOK_MIDDLE" "unbroken RUNBOOK_TAIL" "RUNBOOK_HEAD \<noteq> []" "RUNBOOK_TAIL \<noteq> []"
  "\<not> py_space (hd RUNBOOK_HEAD)" "\<not> py_space (last RUNBOOK_TAIL)"
  "length RUNBOOK_HEAD + LOCATOR_BUDGET + length RUNBOOK_MIDDLE + COUNT_BUDGET + length RUNBOOK_TAIL \<le> DETAIL_CAP"
  by (simp_all add: RUNBOOK_HEAD_def RUNBOOK_MIDDLE_def RUNBOOK_TAIL_def line_break_def py_space_def
      LOCATOR_BUDGET_def COUNT_BUDGET_def DETAIL_CAP_def)

text \<open>The runbook of a rejected review reaches the receipt whole. Whatever the model put into the
  fields it quotes, the message has no line break and fits the cap of a receipt's detail, so the
  detail of the failure is the verdict and the complete runbook, with its closing instruction.\<close>

theorem runbook_reaches_the_receipt:
  assumes "hollow_examined_runbook rc f payload = Some m"
  shows "ir_detail (failure_result v m b c t) = v @ '': '' @ m \<and> length m \<le> DETAIL_CAP \<and> endswith m RUNBOOK_TAIL"
proof -
  from assms obtain loc n where m: "m = RUNBOOK_HEAD @ clip_message loc LOCATOR_BUDGET @ RUNBOOK_MIDDLE
      @ clip_message n COUNT_BUDGET @ RUNBOOK_TAIL"
    by (auto simp: hollow_examined_runbook_def split: if_splits)
  have "length (clip_message loc LOCATOR_BUDGET) \<le> LOCATOR_BUDGET" "length (clip_message n COUNT_BUDGET) \<le> COUNT_BUDGET"
    by (simp_all add: clip_length LOCATOR_BUDGET_def COUNT_BUDGET_def)
  with runbook_text(8) have len: "length m \<le> DETAIL_CAP" unfolding m by simp
  have "unbroken m" unfolding m using runbook_text clip_unbroken by simp
  moreover have "m \<noteq> []" "\<not> py_space (hd m)" "\<not> py_space (last m)" unfolding m using runbook_text by simp_all
  ultimately have "flatten_for_log m = m" by (intro flatten_unbroken)
  with len have body: "take DETAIL_CAP (flatten_for_log m) = m" by simp
  have "ir_detail (failure_result v m b c t) = v @ '': '' @ m"
    unfolding failure_result_def Let_def body using \<open>m \<noteq> []\<close> by (simp only: invoke_result.simps simp_thms if_True)
  with len show ?thesis by (simp add: endswith_def m)
qed

section \<open>Samples\<close>

definition sample_invocation :: invocation where
  "sample_invocation =
     \<lparr>iv_model = ''m'', iv_auth = ''api-key'', iv_pr_url = ''u'', iv_lane = sample_lane, iv_head = ''h1'',
      iv_diff = ({}, {}), iv_identity = ''i'', iv_coverage_ledger = True, iv_findings_ledger = True\<rparr>"

definition sample_carried_in :: carried_state where
  "sample_carried_in =
     \<lparr>cs_state = empty_prior_state, cs_rows = [], cs_round = 1, cs_truncated = 0, cs_coverage = 0, cs_expired = 0\<rparr>"

definition crashed :: process_end where
  "crashed = \<lparr>pe_returncode = 1, pe_stderr = ''boom'' @ nl @ ''fuko-gate: ok'', pe_timed_out = False\<rparr>"

definition sample_run where
  "sample_run = invoke_run local_ops sample_codec (\<lambda>_. None) (\<lambda>_. '''') sample_invocation sample_carried_in
     None 1800 [] crashed sample_store []"

theorem log_lines_are_fukos_witness:
  "list_all log_ok (fst (snd sample_run)) \<and> length (fst (snd sample_run)) = 1"
proof -
  have "unbroken (iv_model sample_invocation)" "unbroken (snd (snd (iv_lane sample_invocation)))"
    "list_all (\<lambda>e. unbroken (fst (snd (fst e)))) ([] :: stash)"
    by (simp_all add: sample_invocation_def sample_lane_def line_break_def)
  from log_lines_are_fukos [OF this] have "list_all log_ok (fst (snd sample_run))"
    by (simp add: sample_run_def)
  moreover have "length (fst (snd sample_run)) = 1" by code_simp
  ultimately show ?thesis by simp
qed

definition hollow_payload :: json where
  "hollow_payload = JObj [(''findings'', JList [JNull]), (''examined'', JList [JObj [(''file'', JStr (''a'' @ nl @ ''b''))]])]"

definition hollow_faults :: examined_faults where
  "hollow_faults = examined_faults_of [\<lparr>ve_loc = [LKey ''examined'', LIdx 0, LKey ''conclusion''], ve_type = ''missing''\<rparr>,
     \<lparr>ve_loc = [LKey ''findings'', LIdx 0], ve_type = ''model_type''\<rparr>]"

definition hollow_runbook :: string where
  "hollow_runbook = the (hollow_examined_runbook sample_codec hollow_faults hollow_payload)"

theorem runbook_reaches_the_receipt_witness:
  "ir_detail (failure_result ''failed:exit 1'' hollow_runbook False no_costs None) = ''failed:exit 1'' @ '': '' @ hollow_runbook
   \<and> length hollow_runbook \<le> DETAIL_CAP \<and> endswith hollow_runbook RUNBOOK_TAIL"
proof -
  have "hollow_examined_runbook sample_codec hollow_faults hollow_payload \<noteq> None" by code_simp
  then have "hollow_examined_runbook sample_codec hollow_faults hollow_payload = Some hollow_runbook"
    by (simp add: hollow_runbook_def)
  then show ?thesis by (rule runbook_reaches_the_receipt)
qed

definition whole_text :: string where "whole_text = ''Here: '' @ ''{'' @ findings_body @ ''}''"

definition whole_harness :: harness_result where
  "whole_harness = \<lparr>hr_returncode = 0, hr_text = JStr whole_text, hr_stderr = '''', hr_timed_out = False,
      hr_usage = None, hr_cost = None, hr_turns = None\<rparr>"

definition whole_run where
  "whole_run = conclude local_ops sample_codec (\<lambda>_. '''') sample_invocation sample_carried_in None
     whole_harness sample_store []"

definition whole_result :: invoke_result where
  "whole_result = (case fst whole_run of Inr r \<Rightarrow> r | Inl e \<Rightarrow> plain_result 9 '''')"


end
