(* ===== verification/Sandbox.thy ===== *)
theory Sandbox
  imports Runner
begin

text \<open>
  The environment of the agent (\<open>backends/agentic.py\<close>): what \<open>build_env\<close> takes from a model entry, what
  \<open>invoke\<close> strips from its own environment and hands to the harness, and the values a transcript must
  not contain. The process environment, the two settings the code reads and the directories
  transcripts can land in are arguments.
\<close>

section \<open>Names\<close>

definition ENV_MODEL :: string where "ENV_MODEL = ''FUKO_AGENTIC_MODEL''"
definition ENV_INSTRUCTIONS :: string where "ENV_INSTRUCTIONS = ''FUKO_AGENTIC_INSTRUCTIONS''"
definition ENV_KNOWLEDGE :: string where "ENV_KNOWLEDGE = ''FUKO_AGENTIC_KNOWLEDGE''"
definition ENV_AUTH :: string where "ENV_AUTH = ''FUKO_AGENTIC_AUTH''"
definition ENV_COVERAGE_LEDGER :: string where "ENV_COVERAGE_LEDGER = ''FUKO_AGENTIC_COVERAGE_LEDGER''"
definition ENV_FINDINGS_LEDGER :: string where "ENV_FINDINGS_LEDGER = ''FUKO_AGENTIC_FINDINGS_LEDGER''"
definition ENV_GH_TOKEN :: string where "ENV_GH_TOKEN = ''GITHUB__USER_TOKEN''"
definition ENV_AMBIENT_CONFIG_DIR :: string where "ENV_AMBIENT_CONFIG_DIR = ''FUKO_AMBIENT_CLAUDE_CONFIG_DIR''"
definition ENV_TRANSCRIPT_DENY_DIR :: string where "ENV_TRANSCRIPT_DENY_DIR = ''FUKO_TRANSCRIPT_DENY_DIR''"
definition ENV_EXTRA_DENY_DIRS :: string where "ENV_EXTRA_DENY_DIRS = ''FUKO_EXTRA_DENY_DIRS''"
definition CONFIG_DIR :: string where "CONFIG_DIR = ''CLAUDE_CONFIG_DIR''"
definition CONTEXT_TOKENS :: string where "CONTEXT_TOKENS = ''CLAUDE_CODE_MAX_CONTEXT_TOKENS''"
definition API_KEY :: string where "API_KEY = ''ANTHROPIC_API_KEY''"
definition BASE_URL :: string where "BASE_URL = ''ANTHROPIC_BASE_URL''"
definition HAIKU_MODEL :: string where "HAIKU_MODEL = ''ANTHROPIC_DEFAULT_HAIKU_MODEL''"
definition SUBAGENT_MODEL :: string where "SUBAGENT_MODEL = ''CLAUDE_CODE_SUBAGENT_MODEL''"
definition OAUTH_TOKEN :: string where "OAUTH_TOKEN = ''CLAUDE_CODE_OAUTH_TOKEN''"

definition GITHUB_CRED_VARS :: "string list" where
  "GITHUB_CRED_VARS = [''GITHUB_TOKEN'', ENV_GH_TOKEN, ''GH_TOKEN'', ''GH_ENTERPRISE_TOKEN'', ''GITHUB_ENTERPRISE_TOKEN'']"

definition FUKO_ENV_PREFIX :: string where "FUKO_ENV_PREFIX = ''FUKO_''"

definition provider_key_vars :: "string list" where
  "provider_key_vars =
     concat (map (\<lambda>(name, p). case pp_key_env p of Some k \<Rightarrow> if k \<noteq> '''' then [k] else [] | None \<Rightarrow> []) PRESETS)"

definition FUKO_SECRET_VARS :: "string list" where
  "FUKO_SECRET_VARS = [''FUKO_TOKEN'', ''FUKO_AUTH_TOKEN'', ''FUKO_EMBED_API_KEY'', ''FUKO_DATABASE_URL'',
     ''FUKO_S3_ACCESS_KEY_ID'', ''FUKO_S3_SECRET_ACCESS_KEY'']"

text \<open>\<open>store_prefix\<close>: the setting \<open>transcript_store_creds_env_prefix\<close>.\<close>

definition store_credential_vars :: "string \<Rightarrow> string list" where
  "store_credential_vars store_prefix =
     (let p = strip store_prefix in if p = '''' then [] else [p @ ''_ACCESS_KEY_ID'', p @ ''_SECRET_ACCESS_KEY''])"

definition AWS_DEFAULT_CRED_VARS :: "string list" where
  "AWS_DEFAULT_CRED_VARS = [''AWS_ACCESS_KEY_ID'', ''AWS_SECRET_ACCESS_KEY'', ''AWS_SESSION_TOKEN'',
     ''AWS_SECURITY_TOKEN'', ''AWS_CONTAINER_AUTHORIZATION_TOKEN'']"

definition FUKO_SECRET_PREFIXES :: "string list" where "FUKO_SECRET_PREFIXES = [''FUKO_GITHUB_TOKEN_'']"

definition AMBIENT_ANTHROPIC_VARS :: "string list" where
  "AMBIENT_ANTHROPIC_VARS = [API_KEY, ''ANTHROPIC_AUTH_TOKEN'', OAUTH_TOKEN]"

definition AUTH_API_KEY :: string where "AUTH_API_KEY = ''api-key''"
definition AUTH_SUBSCRIPTION :: string where "AUTH_SUBSCRIPTION = ''subscription''"

definition ANTHROPIC_INHERITED_VARS :: "string list" where
  "ANTHROPIC_INHERITED_VARS = [API_KEY, ''ANTHROPIC_AUTH_TOKEN'', OAUTH_TOKEN, BASE_URL, ''ANTHROPIC_MODEL'',
     ''ANTHROPIC_DEFAULT_OPUS_MODEL'', ''ANTHROPIC_DEFAULT_SONNET_MODEL'', HAIKU_MODEL,
     ''ANTHROPIC_SMALL_FAST_MODEL'', SUBAGENT_MODEL, CONTEXT_TOKENS]"

definition MODEL_ROUTING_VARS :: "string list" where
  "MODEL_ROUTING_VARS = [HAIKU_MODEL, SUBAGENT_MODEL]"

section \<open>From the entry\<close>

definition env_get :: "env \<Rightarrow> string \<Rightarrow> string \<Rightarrow> string" where
  "env_get e k d = (case map_of e k of None \<Rightarrow> d | Some v \<Rightarrow> v)"

definition or_str :: "string option \<Rightarrow> string \<Rightarrow> string" where
  "or_str x d = (case x of None \<Rightarrow> d | Some s \<Rightarrow> if s \<noteq> '''' then s else d)"

definition resolve_auth :: "env \<Rightarrow> provider_preset \<Rightarrow> ('a) model_config_scheme \<Rightarrow> string" where
  "resolve_auth osv ps m =
     (case mc_auth m of
        AuthApiKey \<Rightarrow> AUTH_API_KEY
      | AuthSubscription \<Rightarrow> AUTH_SUBSCRIPTION
      | AuthAuto \<Rightarrow>
          if or_str (pp_key_env ps) '''' \<noteq> '''' \<and> env_get osv (or_str (pp_key_env ps) '''') '''' \<noteq> ''''
          then AUTH_API_KEY else AUTH_SUBSCRIPTION)"

definition entry_base_url :: "provider_preset \<Rightarrow> ('a) model_config_scheme \<Rightarrow> string" where
  "entry_base_url ps m = or_str (mc_base_url m) (or_str (pp_base_url ps) '''')"

definition configured_endpoint :: "env \<Rightarrow> provider_preset \<Rightarrow> ('a) model_config_scheme \<Rightarrow> string" where
  "configured_endpoint osv ps m =
     (if resolve_auth osv ps m = AUTH_SUBSCRIPTION then '''' else entry_base_url ps m)"

definition small_model :: "provider_preset \<Rightarrow> ('a) model_config_scheme \<Rightarrow> string" where
  "small_model ps m =
     (case map_of (pp_quirks ps) ''small_model'' of
        Some (QStr s) \<Rightarrow> if s \<noteq> '''' then s else mc_name m
      | Some (QInt n) \<Rightarrow> if n \<noteq> 0 then str_int n else mc_name m
      | None \<Rightarrow> mc_name m)"

definition set_when :: "bool \<Rightarrow> string \<Rightarrow> string \<Rightarrow> env \<Rightarrow> env" where
  "set_when b k v e = (if b then dict_set k v e else e)"

text \<open>The \<open>ValueError\<close>s of \<open>build_env\<close>, by their reason.\<close>

datatype entry_error = WrongFamily | NoEndpoint | EndpointNotInjected | KeyMissing

text \<open>The variables of an accepted entry, in the order they are set from the innermost outwards.\<close>

definition entry_env :: "env \<Rightarrow> provider_preset \<Rightarrow> ('a) model_config_scheme \<Rightarrow> string \<Rightarrow> env" where
  "entry_env osv ps m knowledge =
     (let auth = resolve_auth osv ps m;
          base_url = entry_base_url ps m;
          routed = (auth = AUTH_API_KEY \<and> base_url \<noteq> '''');
          window = (case mc_max_context m of None \<Rightarrow> 0 | Some n \<Rightarrow> n);
          instructions = or_str (mc_extra_instructions m) ''''
      in set_when (knowledge \<noteq> '''') ENV_KNOWLEDGE knowledge
           (set_when (instructions \<noteq> '''') ENV_INSTRUCTIONS instructions
           (set_when (\<not> mc_findings_ledger m) ENV_FINDINGS_LEDGER ''0''
           (set_when (mc_coverage_ledger m) ENV_COVERAGE_LEDGER ''1''
           (set_when (window \<noteq> 0) CONTEXT_TOKENS (str_int window)
           (set_when routed SUBAGENT_MODEL (mc_name m)
           (set_when routed HAIKU_MODEL (small_model ps m)
           (set_when routed BASE_URL base_url
           (set_when (auth = AUTH_API_KEY) API_KEY (env_get osv (or_str (pp_key_env ps) '''') '''')
              [(ENV_MODEL, mc_name m), (ENV_AUTH, auth)])))))))))"

definition build_env ::
  "env \<Rightarrow> provider_preset \<Rightarrow> ('a) model_config_scheme \<Rightarrow> string \<Rightarrow> entry_error + env" where
  "build_env osv ps m knowledge =
     (let api = (resolve_auth osv ps m = AUTH_API_KEY)
      in if pp_litellm_prefix ps \<noteq> ''anthropic/'' then Inl WrongFamily
         else if pp_requires_base_url ps \<and> entry_base_url ps m = '''' then Inl NoEndpoint
         else if pp_requires_base_url ps \<and> \<not> api then Inl EndpointNotInjected
         else if api \<and> env_get osv (or_str (pp_key_env ps) '''') '''' = '''' then Inl KeyMissing
         else Inr (entry_env osv ps m knowledge))"

section \<open>To the harness\<close>

text \<open>\<open>invoke\<close>'s filter on \<open>os.environ\<close>.\<close>

definition withheld :: "string \<Rightarrow> string \<Rightarrow> bool" where
  "withheld store_prefix k \<longleftrightarrow> k \<in> set GITHUB_CRED_VARS \<or> startswith k FUKO_ENV_PREFIX \<or> k \<in> set ANTHROPIC_INHERITED_VARS
     \<or> k \<in> set provider_key_vars \<or> k \<in> set (store_credential_vars store_prefix) \<or> k \<in> set AWS_DEFAULT_CRED_VARS"

definition inherited :: "env \<Rightarrow> string \<Rightarrow> env" where
  "inherited osv store_prefix = filter (\<lambda>(k, v). \<not> withheld store_prefix k) osv"

definition copy_key :: "env \<Rightarrow> string \<Rightarrow> env \<Rightarrow> env" where
  "copy_key from k e = (case map_of from k of None \<Rightarrow> e | Some v \<Rightarrow> dict_set k v e)"

definition branch_auth :: "env \<Rightarrow> string" where "branch_auth env = env_get env ENV_AUTH AUTH_SUBSCRIPTION"

text \<open>\<open>deny_dirs\<close>: the capture directory and the local blob root, where configured.\<close>

definition harness_env :: "env \<Rightarrow> env \<Rightarrow> string \<Rightarrow> string list \<Rightarrow> env" where
  "harness_env env osv store_prefix deny_dirs =
     (let h1 = copy_key env CONTEXT_TOKENS (inherited osv store_prefix);
          h2 = set_when (deny_dirs \<noteq> []) ENV_TRANSCRIPT_DENY_DIR (join nl deny_dirs) h1;
          raw = env_get osv ENV_EXTRA_DENY_DIRS '''';
          h3 = set_when (strip raw \<noteq> '''') ENV_EXTRA_DENY_DIRS raw h2;
          oauth = env_get osv OAUTH_TOKEN ''''
      in if branch_auth env = AUTH_API_KEY
         then fold (copy_key env) ([API_KEY, BASE_URL] @ MODEL_ROUTING_VARS) h3
         else set_when (oauth \<noteq> '''') OAUTH_TOKEN oauth h3)"

text \<open>The private state directory of an api-key branch, under its \<open>workdir\<close>.\<close>

definition spawn_env :: "env \<Rightarrow> env \<Rightarrow> string \<Rightarrow> string list \<Rightarrow> string \<Rightarrow> env" where
  "spawn_env env osv store_prefix deny_dirs workdir =
     (let h = harness_env env osv store_prefix deny_dirs;
          ambient = env_get h CONFIG_DIR ''''
      in if branch_auth env = AUTH_API_KEY
         then dict_set CONFIG_DIR (workdir @ ''/claude-config'')
                (set_when (ambient \<noteq> '''') ENV_AMBIENT_CONFIG_DIR ambient h)
         else h)"

section \<open>What a transcript must not contain\<close>

definition ambient_secret_names :: "env \<Rightarrow> string \<Rightarrow> string list" where
  "ambient_secret_names osv store_prefix =
     GITHUB_CRED_VARS @ sort (remdups provider_key_vars) @ FUKO_SECRET_VARS @ AWS_DEFAULT_CRED_VARS
     @ sort (remdups (store_credential_vars store_prefix)) @ AMBIENT_ANTHROPIC_VARS
     @ sort (filter (\<lambda>k. list_ex (startswith k) FUKO_SECRET_PREFIXES) (map fst osv))"

text \<open>The loop, over the names seen so far.\<close>

fun ambient_secrets :: "env \<Rightarrow> string list \<Rightarrow> string list \<Rightarrow> (string \<times> string) list" where
  "ambient_secrets osv seen [] = []"
| "ambient_secrets osv seen (k # ks) =
     (let v = env_get osv k ''''
      in if v \<noteq> '''' \<and> k \<notin> set seen then (k, v) # ambient_secrets osv (k # seen) ks
         else ambient_secrets osv seen ks)"

definition transcript_secrets :: "env \<Rightarrow> string \<Rightarrow> env \<Rightarrow> string \<Rightarrow> (string \<times> string) list" where
  "transcript_secrets osv store_prefix h token =
     (if token \<noteq> '''' then [(''GITHUB_APP_TOKEN'', token)] else [])
     @ filter (\<lambda>(k, v). v \<noteq> '''') (map (\<lambda>k. (k, env_get h k '''')) AMBIENT_ANTHROPIC_VARS)
     @ ambient_secrets osv [] (ambient_secret_names osv store_prefix)"

section \<open>Before the run\<close>

text \<open>\<open>check_auth\<close> is the CLI's probe: \<open>None\<close> if it could not be read, else whether it is logged in.\<close>

record branch_plan =
  bp_token :: string
  bp_model :: string
  bp_seat :: string
  bp_coverage_ledger :: bool
  bp_findings_ledger :: bool
  bp_harness_env :: env

definition DEFAULT_SEAT :: string where "DEFAULT_SEAT = ''default''"

definition posting_token :: "env \<Rightarrow> env \<Rightarrow> string" where
  "posting_token env osv =
     or_str (map_of env ENV_GH_TOKEN) (or_str (map_of osv ENV_GH_TOKEN) (env_get osv ''GITHUB_TOKEN'' ''''))"

definition plan_branch ::
  "env \<Rightarrow> env \<Rightarrow> string \<Rightarrow> string list \<Rightarrow> (env \<Rightarrow> bool option) \<Rightarrow> string + branch_plan" where
  "plan_branch env osv store_prefix deny_dirs check_auth =
     (let model_name = env_get env ENV_MODEL '''';
          h = harness_env env osv store_prefix deny_dirs;
          seat = strip (env_get env ENV_SEAT '''')
      in if model_name = '''' then Inl ''no model name in the harness environment (FUKO_AGENTIC_MODEL unset or empty)''
         else if branch_auth env \<noteq> AUTH_API_KEY \<and> check_auth h = Some False
         then Inl ''agentic backend is in subscription auth mode but this runner has no logged-in Claude session; run `claude setup-token` and export CLAUDE_CODE_OAUTH_TOKEN, or set auth = 'api-key' on this model entry''
         else Inr \<lparr>bp_token = posting_token env osv, bp_model = model_name,
                   bp_seat = (if seat \<noteq> '''' then seat else DEFAULT_SEAT),
                   bp_coverage_ledger = (env_get env ENV_COVERAGE_LEDGER '''' = ''1''),
                   bp_findings_ledger = (env_get env ENV_FINDINGS_LEDGER ''1'' \<noteq> ''0''),
                   bp_harness_env = h\<rparr>)"

section \<open>The child's environment, variable by variable\<close>

lemma map_of_set_when: "map_of (set_when b k v e) = (if b then (map_of e)(k \<mapsto> v) else map_of e)"
  by (simp add: set_when_def map_of_dict_set)

lemma map_of_set_when_at: "map_of (set_when b k v e) j = (if j = k \<and> b then Some v else map_of e j)"
  by (simp add: set_when_def map_of_dict_set)

lemma map_of_copy_key:
  "map_of (copy_key from k e) j = (if j = k \<and> map_of from k \<noteq> None then map_of from k else map_of e j)"
  by (auto simp: copy_key_def map_of_dict_set split: option.split)

lemma map_of_copy_keys:
  "map_of (fold (copy_key from) ks e) j = (if j \<in> set ks \<and> map_of from j \<noteq> None then map_of from j else map_of e j)"
  by (induction ks arbitrary: e) (auto simp: map_of_copy_key)

lemma map_of_inherited: "map_of (inherited osv sp) k = (if withheld sp k then None else map_of osv k)"
  by (induction osv) (auto simp: inherited_def)

lemma names_distinct:
  "distinct [CONFIG_DIR, ENV_AMBIENT_CONFIG_DIR, ENV_EXTRA_DENY_DIRS, ENV_TRANSCRIPT_DENY_DIR, CONTEXT_TOKENS, API_KEY,
     BASE_URL, HAIKU_MODEL, SUBAGENT_MODEL, OAUTH_TOKEN]"
  by (simp add: CONFIG_DIR_def ENV_AMBIENT_CONFIG_DIR_def ENV_EXTRA_DENY_DIRS_def ENV_TRANSCRIPT_DENY_DIR_def
      CONTEXT_TOKENS_def API_KEY_def BASE_URL_def OAUTH_TOKEN_def HAIKU_MODEL_def SUBAGENT_MODEL_def)

lemma withheld_names:
  "withheld sp ENV_AMBIENT_CONFIG_DIR" "withheld sp ENV_EXTRA_DENY_DIRS" "withheld sp ENV_TRANSCRIPT_DENY_DIR"
  "withheld sp CONTEXT_TOKENS" "withheld sp API_KEY" "withheld sp BASE_URL" "withheld sp OAUTH_TOKEN"
  "withheld sp HAIKU_MODEL" "withheld sp SUBAGENT_MODEL"
  by (simp_all add: withheld_def ENV_AMBIENT_CONFIG_DIR_def ENV_EXTRA_DENY_DIRS_def ENV_TRANSCRIPT_DENY_DIR_def
      FUKO_ENV_PREFIX_def startswith_def ANTHROPIC_INHERITED_VARS_def)

lemma config_dir_inherited: "\<not> withheld sp CONFIG_DIR"
proof -
  have "p @ ''_ACCESS_KEY_ID'' \<noteq> CONFIG_DIR" "p @ ''_SECRET_ACCESS_KEY'' \<noteq> CONFIG_DIR" for p
    by (auto simp: CONFIG_DIR_def dest!: arg_cong [of _ _ last])
  then have "CONFIG_DIR \<notin> set (store_credential_vars sp)"
    unfolding store_credential_vars_def Let_def by (auto simp del: last.simps) (metis, metis)
  moreover have "CONFIG_DIR \<notin> set GITHUB_CRED_VARS" "\<not> startswith CONFIG_DIR FUKO_ENV_PREFIX"
    "CONFIG_DIR \<notin> set ANTHROPIC_INHERITED_VARS" "CONFIG_DIR \<notin> set provider_key_vars" "CONFIG_DIR \<notin> set AWS_DEFAULT_CRED_VARS"
    by code_simp+
  ultimately show ?thesis by (simp add: withheld_def)
qed

lemma map_of_shared_env:
  "map_of (set_when x ENV_EXTRA_DENY_DIRS raw (set_when y ENV_TRANSCRIPT_DENY_DIR dirs (copy_key env CONTEXT_TOKENS (inherited osv sp)))) k =
     (if k = ENV_EXTRA_DENY_DIRS then (if x then Some raw else None)
      else if k = ENV_TRANSCRIPT_DENY_DIR then (if y then Some dirs else None)
      else if k = CONTEXT_TOKENS then map_of env k
      else if withheld sp k then None else map_of osv k)"
  using names_distinct withheld_names
  by (auto simp: map_of_set_when map_of_copy_key map_of_inherited)

lemma routed_names:
  "k \<in> set ([API_KEY, BASE_URL] @ MODEL_ROUTING_VARS) \<Longrightarrow>
     k \<noteq> ENV_EXTRA_DENY_DIRS \<and> k \<noteq> ENV_TRANSCRIPT_DENY_DIR \<and> k \<noteq> CONTEXT_TOKENS \<and> k \<noteq> OAUTH_TOKEN \<and> k \<noteq> CONFIG_DIR
     \<and> k \<noteq> ENV_AMBIENT_CONFIG_DIR \<and> withheld sp k"
  using names_distinct withheld_names by (auto simp: MODEL_ROUTING_VARS_def)

lemma map_of_harness_env:
  "map_of (harness_env env osv sp deny_dirs) k =
     (if k = ENV_EXTRA_DENY_DIRS then (if strip (env_get osv k []) \<noteq> [] then Some (env_get osv k []) else None)
      else if k = ENV_TRANSCRIPT_DENY_DIR then (if deny_dirs \<noteq> [] then Some (join nl deny_dirs) else None)
      else if k = CONTEXT_TOKENS then map_of env k
      else if k \<in> set ([API_KEY, BASE_URL] @ MODEL_ROUTING_VARS) \<and> branch_auth env = AUTH_API_KEY then map_of env k
      else if k = OAUTH_TOKEN \<and> branch_auth env \<noteq> AUTH_API_KEY
        then (if env_get osv k [] \<noteq> [] then Some (env_get osv k []) else None)
      else if withheld sp k then None else map_of osv k)"
proof (cases "branch_auth env = AUTH_API_KEY")
  case True
  show ?thesis
  proof (cases "k \<in> set ([API_KEY, BASE_URL] @ MODEL_ROUTING_VARS)")
    case routed: True
    note r = routed_names [OF routed, of sp]
    have "map_of (harness_env env osv sp deny_dirs) k = map_of env k"
      unfolding harness_env_def Let_def if_P [OF True] map_of_copy_keys map_of_shared_env
      using routed r by (cases "map_of env k") auto
    with True routed r show ?thesis by simp
  next
    case False
    have "map_of (harness_env env osv sp deny_dirs) k =
        map_of (set_when (strip (env_get osv ENV_EXTRA_DENY_DIRS []) \<noteq> []) ENV_EXTRA_DENY_DIRS (env_get osv ENV_EXTRA_DENY_DIRS [])
          (set_when (deny_dirs \<noteq> []) ENV_TRANSCRIPT_DENY_DIR (join nl deny_dirs)
            (copy_key env CONTEXT_TOKENS (inherited osv sp)))) k"
      unfolding harness_env_def Let_def if_P [OF True] map_of_copy_keys using False by simp
    with True False show ?thesis unfolding map_of_shared_env by auto
  qed
next
  case False
  have "OAUTH_TOKEN \<noteq> ENV_EXTRA_DENY_DIRS" "OAUTH_TOKEN \<noteq> ENV_TRANSCRIPT_DENY_DIR" "OAUTH_TOKEN \<noteq> CONTEXT_TOKENS"
    using names_distinct by auto
  moreover have "map_of (harness_env env osv sp deny_dirs) k =
      (if k = OAUTH_TOKEN \<and> env_get osv OAUTH_TOKEN [] \<noteq> [] then Some (env_get osv OAUTH_TOKEN [])
       else map_of (set_when (strip (env_get osv ENV_EXTRA_DENY_DIRS []) \<noteq> []) ENV_EXTRA_DENY_DIRS (env_get osv ENV_EXTRA_DENY_DIRS [])
          (set_when (deny_dirs \<noteq> []) ENV_TRANSCRIPT_DENY_DIR (join nl deny_dirs)
            (copy_key env CONTEXT_TOKENS (inherited osv sp)))) k)"
    unfolding harness_env_def Let_def if_not_P [OF False] by (simp add: map_of_set_when)
  ultimately show ?thesis using False withheld_names(7) [of sp] unfolding map_of_shared_env by auto
qed

lemma map_of_spawn_env:
  "map_of (spawn_env env osv sp deny_dirs workdir) k =
     (if branch_auth env = AUTH_API_KEY \<and> k = CONFIG_DIR then Some (workdir @ ''/claude-config'')
      else if branch_auth env = AUTH_API_KEY \<and> k = ENV_AMBIENT_CONFIG_DIR \<and> env_get osv CONFIG_DIR [] \<noteq> []
        then Some (env_get osv CONFIG_DIR [])
      else map_of (harness_env env osv sp deny_dirs) k)"
proof -
  have "CONFIG_DIR \<notin> set ([API_KEY, BASE_URL] @ MODEL_ROUTING_VARS)" using routed_names by blast
  moreover have "CONFIG_DIR \<noteq> ENV_EXTRA_DENY_DIRS" "CONFIG_DIR \<noteq> ENV_TRANSCRIPT_DENY_DIR" "CONFIG_DIR \<noteq> CONTEXT_TOKENS"
    "CONFIG_DIR \<noteq> OAUTH_TOKEN" using names_distinct by auto
  ultimately have "map_of (harness_env env osv sp deny_dirs) CONFIG_DIR = map_of osv CONFIG_DIR"
    using config_dir_inherited [of sp] by (simp only: map_of_harness_env simp_thms if_False)
  then have "env_get (harness_env env osv sp deny_dirs) CONFIG_DIR [] = env_get osv CONFIG_DIR []"
    by (simp add: env_get_def)
  then show ?thesis by (auto simp: spawn_env_def Let_def map_of_dict_set map_of_set_when)
qed

lemma ambient_dir_not_inherited:
  "map_of (harness_env env osv sp deny_dirs) ENV_AMBIENT_CONFIG_DIR = None"
proof -
  have "ENV_AMBIENT_CONFIG_DIR \<notin> set ([API_KEY, BASE_URL] @ MODEL_ROUTING_VARS)" using routed_names by blast
  moreover have "ENV_AMBIENT_CONFIG_DIR \<noteq> ENV_EXTRA_DENY_DIRS" "ENV_AMBIENT_CONFIG_DIR \<noteq> ENV_TRANSCRIPT_DENY_DIR"
    "ENV_AMBIENT_CONFIG_DIR \<noteq> CONTEXT_TOKENS" "ENV_AMBIENT_CONFIG_DIR \<noteq> OAUTH_TOKEN" using names_distinct by auto
  ultimately show ?thesis using withheld_names(1) [of sp] by (simp only: map_of_harness_env simp_thms if_False if_True)
qed

text \<open>What a variable of the child is, on its name alone.\<close>

definition child_value :: "env \<Rightarrow> env \<Rightarrow> string \<Rightarrow> string list \<Rightarrow> string \<Rightarrow> string \<Rightarrow> string option" where
  "child_value env osv sp deny_dirs workdir k =
     (let api = (branch_auth env = AUTH_API_KEY);
          given = (\<lambda>v. if v \<noteq> [] then Some v else None)
      in if k = CONFIG_DIR then (if api then Some (workdir @ ''/claude-config'') else map_of osv k)
         else if k = ENV_AMBIENT_CONFIG_DIR then (if api then given (env_get osv CONFIG_DIR []) else None)
         else if k = ENV_EXTRA_DENY_DIRS then (if strip (env_get osv k []) \<noteq> [] then Some (env_get osv k []) else None)
         else if k = ENV_TRANSCRIPT_DENY_DIR then (if deny_dirs \<noteq> [] then Some (join nl deny_dirs) else None)
         else if k = CONTEXT_TOKENS then map_of env k
         else if k \<in> set [API_KEY, BASE_URL, HAIKU_MODEL, SUBAGENT_MODEL] then (if api then map_of env k else None)
         else if k = OAUTH_TOKEN then (if api then None else given (env_get osv k []))
         else if withheld sp k then None else map_of osv k)"


section \<open>The endpoint of a run\<close>

lemma auth_cases: "resolve_auth osv ps m = AUTH_API_KEY \<or> resolve_auth osv ps m = AUTH_SUBSCRIPTION"
  by (simp add: resolve_auth_def split: auth_mode.split)

lemma auth_distinct: "AUTH_API_KEY \<noteq> AUTH_SUBSCRIPTION"
  by (simp add: AUTH_API_KEY_def AUTH_SUBSCRIPTION_def)

lemma entry_env_values:
  "map_of (entry_env osv ps m knowledge) ENV_AUTH = Some (resolve_auth osv ps m)"
  "map_of (entry_env osv ps m knowledge) BASE_URL =
     (if resolve_auth osv ps m = AUTH_API_KEY \<and> entry_base_url ps m \<noteq> [] then Some (entry_base_url ps m) else None)"
  "map_of (entry_env osv ps m knowledge) API_KEY =
     (if resolve_auth osv ps m = AUTH_API_KEY then Some (env_get osv (or_str (pp_key_env ps) []) []) else None)"
  by (simp_all add: entry_env_def Let_def map_of_set_when_at ENV_MODEL_def ENV_AUTH_def ENV_KNOWLEDGE_def ENV_INSTRUCTIONS_def
      ENV_FINDINGS_LEDGER_def ENV_COVERAGE_LEDGER_def CONTEXT_TOKENS_def SUBAGENT_MODEL_def HAIKU_MODEL_def BASE_URL_def API_KEY_def)

lemma build_env_accepts:
  assumes "build_env osv ps m knowledge = Inr env"
  shows "env = entry_env osv ps m knowledge"
    "pp_requires_base_url ps \<Longrightarrow> resolve_auth osv ps m = AUTH_API_KEY \<and> entry_base_url ps m \<noteq> []"
  using assms unfolding build_env_def Let_def by (simp_all split: if_splits)

text \<open>A run goes where it is attributed. The endpoint in the environment of the agent is the one
  \<open>configured_endpoint\<close> reports for the entry (none in subscription mode), its key is the one the
  entry's preset names, and an entry whose model is reached only through an endpoint never runs
  without one.\<close>

theorem endpoint_is_attributed:
  assumes "build_env osv ps m knowledge = Inr env"
  shows "env_get (spawn_env env osv sp deny_dirs workdir) BASE_URL '''' = configured_endpoint osv ps m
    \<and> env_get (spawn_env env osv sp deny_dirs workdir) API_KEY '''' =
        (if resolve_auth osv ps m = AUTH_API_KEY then env_get osv (or_str (pp_key_env ps) '''') '''' else '''')
    \<and> (if pp_requires_base_url ps then configured_endpoint osv ps m \<noteq> '''' else True)"
proof -
  note e = build_env_accepts [OF assms]
  have b: "branch_auth env = resolve_auth osv ps m" by (simp add: branch_auth_def env_get_def e(1) entry_env_values(1))
  note v = entry_env_values(2,3) [of osv ps m knowledge, folded e(1)]
  have "k \<noteq> CONFIG_DIR \<and> k \<noteq> ENV_AMBIENT_CONFIG_DIR" if "k \<in> {BASE_URL, API_KEY}" for k
    using routed_names [of k] that by auto
  then have h: "map_of (spawn_env env osv sp deny_dirs workdir) k =
      (if branch_auth env = AUTH_API_KEY then map_of env k else None)" if "k \<in> {BASE_URL, API_KEY}" for k
    using that routed_names [of k sp] by (auto simp: map_of_spawn_env map_of_harness_env)
  have "map_of (spawn_env env osv sp deny_dirs workdir) BASE_URL =
      (if resolve_auth osv ps m = AUTH_API_KEY \<and> entry_base_url ps m \<noteq> [] then Some (entry_base_url ps m) else None)"
    "map_of (spawn_env env osv sp deny_dirs workdir) API_KEY =
      (if resolve_auth osv ps m = AUTH_API_KEY then Some (env_get osv (or_str (pp_key_env ps) []) []) else None)"
    using h [of BASE_URL] h [of API_KEY] b v by simp_all
  with e(2) auth_cases [of osv ps m] auth_distinct show ?thesis
    by (auto simp: env_get_def configured_endpoint_def)
qed

section \<open>What is scrubbed\<close>

definition credential :: "string \<Rightarrow> string \<Rightarrow> bool" where
  "credential sp k \<longleftrightarrow> k \<in> set GITHUB_CRED_VARS \<or> k \<in> set provider_key_vars \<or> k \<in> set FUKO_SECRET_VARS
     \<or> k \<in> set AWS_DEFAULT_CRED_VARS \<or> k \<in> set (store_credential_vars sp) \<or> k \<in> set AMBIENT_ANTHROPIC_VARS
     \<or> list_ex (startswith k) FUKO_SECRET_PREFIXES"

lemma ambient_secrets_cover:
  "k \<in> set ks \<Longrightarrow> k \<notin> set seen \<Longrightarrow> env_get osv k [] \<noteq> [] \<Longrightarrow> (k, env_get osv k []) \<in> set (ambient_secrets osv seen ks)"
  by (induction osv seen ks rule: ambient_secrets.induct) (auto simp: Let_def)

lemma ambient_secret_listed:
  "credential sp k \<Longrightarrow> map_of osv k = Some v \<Longrightarrow> k \<in> set (ambient_secret_names osv sp)"
proof -
  assume c: "credential sp k" and "map_of osv k = Some v"
  then have "k \<in> set (map fst osv)" by (force dest: map_of_SomeD)
  with c show ?thesis by (auto simp: credential_def ambient_secret_names_def)
qed

lemma ambient_secrets_none: "(\<And>k. k \<in> set ks \<Longrightarrow> env_get osv k [] = []) \<Longrightarrow> ambient_secrets osv seen ks = []"
  by (induction osv seen ks rule: ambient_secrets.induct) (auto simp: Let_def)

text \<open>A transcript is scrubbed of every credential in reach. The list holds the value of every
  variable of the process that any rule withholds as a credential (GitHub's, the providers', fuko's own,
  AWS's, the store's under its configured prefix, the Anthropic three, the App tokens of the other
  seats), of every credential the agent's own environment carries, and the checkout token.\<close>

theorem transcript_scrubs_every_credential:
  assumes "v \<noteq> ''''"
    and "map_of osv k = Some v \<and> credential sp k
      \<or> map_of (spawn_env env osv sp deny_dirs workdir) k = Some v \<and> k \<in> set AMBIENT_ANTHROPIC_VARS
      \<or> v = token"
  shows "v \<in> snd ` set (transcript_secrets osv sp (spawn_env env osv sp deny_dirs workdir) token)"
  using assms(2)
proof (elim disjE conjE)
  assume k: "map_of osv k = Some v" "credential sp k"
  then have "env_get osv k [] = v" by (simp add: env_get_def)
  with ambient_secrets_cover [OF ambient_secret_listed [OF k(2,1)], of "[]" osv] assms(1)
  have "(k, v) \<in> set (ambient_secrets osv [] (ambient_secret_names osv sp))" by simp
  then have "(k, v) \<in> set (transcript_secrets osv sp (spawn_env env osv sp deny_dirs workdir) token)"
    unfolding transcript_secrets_def set_append by blast
  then show ?thesis by (rule rev_image_eqI) simp
next
  assume k: "map_of (spawn_env env osv sp deny_dirs workdir) k = Some v" "k \<in> set AMBIENT_ANTHROPIC_VARS"
  define h where "h = spawn_env env osv sp deny_dirs workdir"
  have "(k, env_get h k []) \<in> set (map (\<lambda>k. (k, env_get h k [])) AMBIENT_ANTHROPIC_VARS)"
    unfolding set_map using k(2) by (rule imageI)
  moreover have "env_get h k [] = v" using k(1) by (simp add: h_def env_get_def)
  ultimately have "(k, v) \<in> set (filter (\<lambda>(k, v). v \<noteq> []) (map (\<lambda>k. (k, env_get h k [])) AMBIENT_ANTHROPIC_VARS))"
    using assms(1) by simp
  then have "(k, v) \<in> set (transcript_secrets osv sp h token)"
    unfolding transcript_secrets_def set_append by blast
  then show ?thesis unfolding h_def by (rule rev_image_eqI) simp
next
  assume "v = token"
  with assms(1) show ?thesis by (simp add: transcript_secrets_def)
qed

text \<open>A posting token under a name of the operator's own choosing (\<open>token_env\<close> may be any) is neither
  withheld nor scrubbed.\<close>

lemma foreign_token_is_inherited:
  "child_value [] [(''ACME_BOT_TOKEN'', ''s3cret'')] '''' [] ''/w'' ''ACME_BOT_TOKEN'' = Some ''s3cret''
   \<and> transcript_secrets [(''ACME_BOT_TOKEN'', ''s3cret'')] '''' [] '''' = []"
proof
  have "\<not> withheld '''' ''ACME_BOT_TOKEN''" by code_simp
  then show "child_value [] [(''ACME_BOT_TOKEN'', ''s3cret'')] '''' [] ''/w'' ''ACME_BOT_TOKEN'' = Some ''s3cret''"
    by (simp add: child_value_def Let_def CONFIG_DIR_def ENV_AMBIENT_CONFIG_DIR_def ENV_EXTRA_DENY_DIRS_def
        ENV_TRANSCRIPT_DENY_DIR_def CONTEXT_TOKENS_def API_KEY_def BASE_URL_def HAIKU_MODEL_def SUBAGENT_MODEL_def OAUTH_TOKEN_def)
  have "\<not> credential '''' ''ACME_BOT_TOKEN''" by code_simp
  then have "''ACME_BOT_TOKEN'' \<notin> set (ambient_secret_names [(''ACME_BOT_TOKEN'', ''s3cret'')] '''')"
    by (auto simp: credential_def ambient_secret_names_def split: if_splits)
  then have "ambient_secrets [(''ACME_BOT_TOKEN'', ''s3cret'')] [] (ambient_secret_names [(''ACME_BOT_TOKEN'', ''s3cret'')] '''') = []"
    by (intro ambient_secrets_none) (auto simp: env_get_def simp del: list.set)
  then show "transcript_secrets [(''ACME_BOT_TOKEN'', ''s3cret'')] '''' [] '''' = []"
    by (simp add: transcript_secrets_def env_get_def)
qed

section \<open>Samples\<close>

definition gateway :: provider_preset where
  "gateway = \<lparr>pp_litellm_prefix = ''anthropic/'', pp_base_url = Some ''https://gw'', pp_key_env = Some ''KIMI_CODE_KEY'',
     pp_quirks = [], pp_requires_base_url = True\<rparr>"

definition sample_environ :: env where
  "sample_environ = [(''PATH'', ''/bin''), (''KIMI_CODE_KEY'', ''k1''), (''ZAI_KEY'', ''k2''), (''GITHUB_TOKEN'', ''gh''),
     (''ANTHROPIC_BASE_URL'', ''https://elsewhere'')]"

definition sample_child :: env where
  "sample_child = spawn_env (entry_env sample_environ gateway default_model ''kb'') sample_environ '''' [] ''/w''"

theorem endpoint_is_attributed_witness:
  "env_get sample_child BASE_URL '''' = ''https://gw'' \<and> env_get sample_child API_KEY '''' = ''k1''"
proof -
  have b: "build_env sample_environ gateway default_model ''kb'' = Inr (entry_env sample_environ gateway default_model ''kb'')"
    by (simp add: build_env_def Let_def gateway_def entry_base_url_def or_str_def resolve_auth_def default_model_def
        sample_environ_def env_get_def AUTH_API_KEY_def)
  have "configured_endpoint sample_environ gateway default_model = ''https://gw''"
    "resolve_auth sample_environ gateway default_model = AUTH_API_KEY"
    "env_get sample_environ (or_str (pp_key_env gateway) '''') '''' = ''k1''"
    by code_simp+
  with endpoint_is_attributed [OF b, of "''''" "[]" "''/w''"] show ?thesis
    unfolding sample_child_def by (simp only: if_True simp_thms)
qed

theorem transcript_scrubs_every_credential_witness:
  "''k2'' \<in> snd ` set (transcript_secrets sample_environ '''' sample_child ''ghs'')"
proof -
  have "''k2'' \<noteq> ''''" "map_of sample_environ ''ZAI_KEY'' = Some ''k2''" "credential '''' ''ZAI_KEY''" by code_simp+
  then show ?thesis
    unfolding sample_child_def by (intro transcript_scrubs_every_credential [where k = "''ZAI_KEY''"]) simp_all
qed

end
