(* ===== verification/Denylist.thy ===== *)
theory Denylist
  imports Sandbox
begin

text \<open>
  The read denylist of the agent: \<open>_permission_settings\<close> of \<open>sidecar/reviewer/harness.py\<close> on a POSIX
  runner, from the child's environment to the rules of the settings payload, with everything it
  announces. \<open>os.path.realpath\<close> is a parameter: \<open>None\<close> where it raises. A rule is a \<open>Read\<close> of an
  absolute path, spelled with two leading slashes.
\<close>

section \<open>The stores fuko can name\<close>

definition DENIED_TOOLS :: "string list" where
  "DENIED_TOOLS = [''Bash'', ''BashOutput'', ''KillShell'', ''Write'', ''Edit'', ''MultiEdit'', ''NotebookEdit'', ''WebFetch'',
     ''WebSearch'', ''Task'', ''SlashCommand'']"

definition SENSITIVE_HOME_DIRS :: "string list" where
  "SENSITIVE_HOME_DIRS = [''.claude'', ''.ssh'', ''.aws'', ''.gnupg'', ''.config/gh'', ''.config/gcloud'',
     ''.config/claude-code-proxy'', ''.docker'', ''.kube'']"

definition SENSITIVE_HOME_FILES :: "string list" where
  "SENSITIVE_HOME_FILES = [''.netrc'', ''.git-credentials'', ''.claude.json'', ''actions-runner/.credentials'',
     ''actions-runner/.credentials_rsautokey'']"

definition SENSITIVE_SYSTEM_DIRS :: "string list" where
  "SENSITIVE_SYSTEM_DIRS = [''/proc'', ''/sys'', ''/dev'']"

section \<open>Paths\<close>

definition BACKSLASH_CHAR :: char where "BACKSLASH_CHAR = CHR 0x5C"

definition slash :: char where "slash = CHR ''/''"

definition rstrip_slash :: "string \<Rightarrow> string" where "rstrip_slash s = rev (dropWhile (\<lambda>c. c = slash) (rev s))"
definition lstrip_slash :: "string \<Rightarrow> string" where "lstrip_slash s = dropWhile (\<lambda>c. c = slash) s"

text \<open>\<open>posixpath.normpath\<close>, on the components, the kept ones reversed.\<close>

fun norm_comps :: "bool \<Rightarrow> string list \<Rightarrow> string list \<Rightarrow> string list" where
  "norm_comps rooted acc [] = rev acc"
| "norm_comps rooted acc (c # cs) =
     (if c = '''' \<or> c = ''.'' then norm_comps rooted acc cs
      else if c \<noteq> ''..'' \<or> (\<not> rooted \<and> acc = []) \<or> (acc \<noteq> [] \<and> hd acc = ''..'') then norm_comps rooted (c # acc) cs
      else norm_comps rooted (tl acc) cs)"

definition normpath :: "string \<Rightarrow> string" where
  "normpath path =
     (if path = '''' then ''.''
      else let rooted = startswith path [slash];
               lead = (if \<not> rooted then '''' else if startswith path [slash, slash] \<and> \<not> startswith path [slash, slash, slash]
                 then [slash, slash] else [slash]);
               p = lead @ join [slash] (norm_comps rooted [] (split_char slash path))
           in if p = '''' then ''.'' else p)"

datatype refusal = HasBackslash | IsRoot | NormalizesToRoot

definition unrepresentable :: "string \<Rightarrow> bool \<Rightarrow> refusal option" where
  "unrepresentable path root_is_a_parent =
     (if BACKSLASH_CHAR \<in> set path then Some HasBackslash
      else if root_is_a_parent then None
      else if rstrip_slash path = '''' then Some IsRoot
      else if rstrip_slash (normpath path) = '''' then Some NormalizesToRoot
      else None)"

section \<open>Candidates and what is announced\<close>

type_synonym candidate = "string \<times> bool"

datatype deny_note =
    NotApplied string refusal
  | NotCanonicalized string
  | TwinNotDenied string refusal
  | PaddingIgnored string
  | NotDenied string refusal
  | NotAbsolute "string list"

type_synonym part = "candidate list \<times> deny_note list"

definition parts :: "part list \<Rightarrow> part" where
  "parts ps = (concat (map fst ps), concat (map snd ps))"

definition environment_root :: "env \<Rightarrow> string \<Rightarrow> bool \<Rightarrow> string option \<times> deny_note list" where
  "environment_root e key root_is_a_parent =
     (let v = env_get e key ''''
      in if v = '''' then (None, [])
         else case unrepresentable v root_is_a_parent of
                Some r \<Rightarrow> (None, [NotApplied key r])
              | None \<Rightarrow> (Some (rstrip_slash v), []))"

definition canonical_twin :: "(string \<Rightarrow> string option) \<Rightarrow> string \<Rightarrow> string option \<times> deny_note list" where
  "canonical_twin realpath path =
     (if \<not> startswith path [slash] then (None, [])
      else case realpath path of
             None \<Rightarrow> (None, [NotCanonicalized path])
           | Some r \<Rightarrow>
               if rstrip_slash r = rstrip_slash path then (None, [])
               else case unrepresentable r False of
                      Some why \<Rightarrow> (None, [TwinNotDenied path why])
                    | None \<Rightarrow> (Some (rstrip_slash r), []))"

text \<open>A store under its declared name and its canonical one.\<close>

definition both :: "(string \<Rightarrow> string option) \<Rightarrow> candidate \<Rightarrow> part" where
  "both realpath c =
     (let (twin, announced) = canonical_twin realpath (fst c)
      in (c # (case twin of None \<Rightarrow> [] | Some t \<Rightarrow> [(t, snd c)]), announced))"

definition home_key :: "env \<Rightarrow> string" where
  "home_key e = (if env_get e ''HOME'' '''' \<noteq> '''' then ''HOME'' else ''USERPROFILE'')"

definition home_stores :: "string \<Rightarrow> candidate list" where
  "home_stores home = map (\<lambda>d. (home @ [slash] @ d, True)) SENSITIVE_HOME_DIRS
     @ map (\<lambda>f. (home @ [slash] @ f, False)) SENSITIVE_HOME_FILES"

definition home_part :: "(string \<Rightarrow> string option) \<Rightarrow> env \<Rightarrow> part" where
  "home_part realpath e =
     (case environment_root e (home_key e) True of
        (None, announced) \<Rightarrow> ([], announced)
      | (Some home, announced) \<Rightarrow> parts (([], announced) # map (both realpath) (home_stores home)))"

definition config_part :: "(string \<Rightarrow> string option) \<Rightarrow> env \<Rightarrow> string \<Rightarrow> part" where
  "config_part realpath e key =
     (case environment_root e key False of
        (None, announced) \<Rightarrow> ([], announced)
      | (Some d, announced) \<Rightarrow>
          if d = '''' then ([], announced) else parts [([], announced), both realpath (d, True)])"

definition transcript_part :: "env \<Rightarrow> part" where
  "transcript_part e =
     (let entries = map (\<lambda>x. rstrip_slash (map (\<lambda>c. if c = BACKSLASH_CHAR then slash else c) (strip x)))
            (split_char (CHR 0x0A) (env_get e ENV_TRANSCRIPT_DENY_DIR ''''))
      in (map (\<lambda>x. (x, True)) (filter (\<lambda>x. x \<noteq> '''') entries), []))"

definition declared_part :: "(string \<Rightarrow> string option) \<Rightarrow> string \<Rightarrow> part" where
  "declared_part realpath raw =
     (let entry = strip raw;
          padded = (if strip_chars [CHR 0x0D] raw \<noteq> entry then [PaddingIgnored raw] else [])
      in if entry = '''' then ([], [])
         else case unrepresentable entry False of
                Some r \<Rightarrow> ([], padded @ [NotDenied entry r])
              | None \<Rightarrow> parts [([], padded), both realpath (rstrip_slash entry, True)])"

definition extra_part :: "(string \<Rightarrow> string option) \<Rightarrow> env \<Rightarrow> part" where
  "extra_part realpath e =
     parts (map (declared_part realpath) (split_char (CHR 0x0A) (env_get e ENV_EXTRA_DENY_DIRS '''')))"

definition candidates :: "(string \<Rightarrow> string option) \<Rightarrow> env \<Rightarrow> part" where
  "candidates realpath e =
     parts [home_part realpath e, config_part realpath e CONFIG_DIR, config_part realpath e ENV_AMBIENT_CONFIG_DIR,
       transcript_part e, extra_part realpath e, (map (\<lambda>d. (d, True)) SENSITIVE_SYSTEM_DIRS, [])]"

section \<open>The rules\<close>

definition read_rule :: "candidate \<Rightarrow> string" where
  "read_rule c = ''Read(//'' @ lstrip_slash (fst c) @ (if snd c then ''/**)'' else '')'')"

text \<open>\<open>list(dict.fromkeys(xs))\<close>.\<close>

definition unique :: "'a list \<Rightarrow> 'a list" where "unique xs = rev (remdups (rev xs))"

definition deny_rules :: "(string \<Rightarrow> string option) \<Rightarrow> env \<Rightarrow> string list" where
  "deny_rules realpath e =
     unique (DENIED_TOOLS @ map read_rule (filter (\<lambda>c. startswith (fst c) [slash]) (fst (candidates realpath e))))"

definition deny_notes :: "(string \<Rightarrow> string option) \<Rightarrow> env \<Rightarrow> deny_note list" where
  "deny_notes realpath e =
     (let unusable = sort (remdups (map fst (filter (\<lambda>c. \<not> startswith (fst c) [slash]) (fst (candidates realpath e)))))
      in snd (candidates realpath e) @ (if unusable \<noteq> [] then [NotAbsolute unusable] else []))"

section \<open>What every rule says\<close>

lemma set_unique [simp]: "set (unique xs) = set xs" "distinct (unique xs)"
  by (simp_all add: unique_def)

lemma lstrip_slash_ne: "c \<in> set s \<Longrightarrow> c \<noteq> slash \<Longrightarrow> lstrip_slash s \<noteq> []"
  by (auto simp: lstrip_slash_def dropWhile_eq_Nil_conv)

lemma lstrip_slash_head: "\<not> startswith (lstrip_slash s) [slash]"
proof (cases "lstrip_slash s")
  case (Cons c t)
  then have "c \<noteq> slash" unfolding lstrip_slash_def by (metis (full_types) dropWhile_eq_Cons_conv)
  with Cons show ?thesis by (simp add: startswith_def)
qed (simp add: startswith_def)

lemma rstrip_slash_ne: "rstrip_slash s \<noteq> [] \<Longrightarrow> lstrip_slash (rstrip_slash s) \<noteq> []"
proof -
  assume "rstrip_slash s \<noteq> []"
  then have ne: "dropWhile (\<lambda>c. c = slash) (rev s) \<noteq> []" by (simp add: rstrip_slash_def)
  then have "hd (dropWhile (\<lambda>c. c = slash) (rev s)) \<noteq> slash" by (rule hd_dropWhile)
  moreover have "hd (dropWhile (\<lambda>c. c = slash) (rev s)) \<in> set (rstrip_slash s)"
    using ne by (simp add: rstrip_slash_def)
  ultimately show ?thesis by (intro lstrip_slash_ne)
qed

definition named :: "candidate \<Rightarrow> bool" where "named c \<longleftrightarrow> lstrip_slash (fst c) \<noteq> []"

lemma named_rstrip: "rstrip_slash s \<noteq> [] \<Longrightarrow> named (rstrip_slash s, d)"
  using rstrip_slash_ne by (simp add: named_def)

lemma representable_named: "unrepresentable s False = None \<Longrightarrow> named (rstrip_slash s, d)"
  by (rule named_rstrip) (auto simp: unrepresentable_def split: if_splits)

lemma set_parts: "set (fst (parts ps)) = (\<Union>p \<in> set ps. set (fst p))" "set (snd (parts ps)) = (\<Union>p \<in> set ps. set (snd p))"
  by (auto simp: parts_def)

lemma both_named: "named c \<Longrightarrow> x \<in> set (fst (both realpath c)) \<Longrightarrow> named x"
  by (auto simp: both_def canonical_twin_def Let_def representable_named split: if_splits option.splits)

lemma home_stores_named: "c \<in> set (home_stores home) \<Longrightarrow> named c"
proof -
  have "list_all (list_ex (\<lambda>x. x \<noteq> slash)) (SENSITIVE_HOME_DIRS @ SENSITIVE_HOME_FILES)" by code_simp
  then have "lstrip_slash (home @ [slash] @ d) \<noteq> []" if d: "d \<in> set (SENSITIVE_HOME_DIRS @ SENSITIVE_HOME_FILES)" for d
  proof -
    from \<open>list_all _ _\<close> d obtain x where "x \<in> set d" "x \<noteq> slash" unfolding list_all_iff list_ex_iff by blast
    then show ?thesis by (intro lstrip_slash_ne [of x]) simp_all
  qed
  then show "c \<in> set (home_stores home) \<Longrightarrow> named c" by (auto simp: home_stores_def named_def)
qed

lemma environment_root_named:
  "environment_root e key False = (Some d, n) \<Longrightarrow> named (d, b)"
  by (auto simp: environment_root_def Let_def representable_named split: if_splits option.splits)

lemma declared_part_named: "x \<in> set (fst (declared_part realpath raw)) \<Longrightarrow> named x"
proof -
  assume x: "x \<in> set (fst (declared_part realpath raw))"
  then have n: "unrepresentable (strip raw) False = None"
    by (cases "unrepresentable (strip raw) False") (simp_all add: declared_part_def Let_def split: if_splits)
  with x have "x \<in> set (fst (both realpath (rstrip_slash (strip raw), True)))"
    by (simp add: declared_part_def Let_def set_parts split: if_splits)
  then show ?thesis by (rule both_named [OF representable_named [OF n]])
qed

lemma candidates_named:
  assumes "c \<in> set (fst (candidates realpath e))"
  shows "named c"
proof -
  have home: "named x" if "x \<in> set (fst (home_part realpath e))" for x
    using that by (auto simp: home_part_def set_parts split: prod.splits option.splits
        intro: both_named [OF home_stores_named])
  have config: "named x" if "x \<in> set (fst (config_part realpath e key))" for x key
    using that by (auto simp: config_part_def set_parts split: prod.splits option.splits if_splits
        intro: both_named [OF environment_root_named])
  have trans: "named x" if "x \<in> set (fst (transcript_part e))" for x
    using that by (auto simp: transcript_part_def Let_def intro: named_rstrip)
  have extra: "named x" if "x \<in> set (fst (extra_part realpath e))" for x
    using that by (auto simp: extra_part_def set_parts intro: declared_part_named)
  have "list_all named (map (\<lambda>d. (d, True)) SENSITIVE_SYSTEM_DIRS)" by code_simp
  then have sys: "named x" if "x \<in> set (map (\<lambda>d. (d, True)) SENSITIVE_SYSTEM_DIRS)" for x
    using that unfolding list_all_iff by blast
  from assms consider "c \<in> set (fst (home_part realpath e))" | "c \<in> set (fst (config_part realpath e CONFIG_DIR))"
    | "c \<in> set (fst (config_part realpath e ENV_AMBIENT_CONFIG_DIR))" | "c \<in> set (fst (transcript_part e))"
    | "c \<in> set (fst (extra_part realpath e))" | "c \<in> set (map (\<lambda>d. (d, True)) SENSITIVE_SYSTEM_DIRS)"
    unfolding candidates_def set_parts by auto
  then show ?thesis using home config trans extra sys by cases blast+
qed

definition exact_rule :: "string \<Rightarrow> bool" where
  "exact_rule r \<longleftrightarrow> r \<in> set DENIED_TOOLS
     \<or> (\<exists>p is_dir. r = ''Read(//'' @ p @ (if is_dir then ''/**)'' else '')'') \<and> p \<noteq> '''' \<and> \<not> startswith p [slash])"

text \<open>No rule names the wrong place. Every rule of the payload is a denied tool or a \<open>Read\<close> of one
  absolute path in the spelling that matches: exactly two slashes, never the root (which would hide the
  checkout from the reviewer); the tools and the system directories are denied whatever the environment
  holds; and no rule is repeated.\<close>

theorem rules_are_exact:
  "list_all exact_rule (deny_rules realpath e) \<and> distinct (deny_rules realpath e)
   \<and> set DENIED_TOOLS \<union> {''Read(//proc/**)'', ''Read(//sys/**)'', ''Read(//dev/**)''} \<subseteq> set (deny_rules realpath e)"
proof (intro conjI)
  show "list_all exact_rule (deny_rules realpath e)"
    unfolding list_all_iff
  proof
    fix r
    assume "r \<in> set (deny_rules realpath e)"
    then consider "r \<in> set DENIED_TOOLS" | c where "c \<in> set (fst (candidates realpath e))" "r = read_rule c"
      unfolding deny_rules_def set_unique by auto
    then show "exact_rule r"
    proof cases
      case (2 c)
      have "lstrip_slash (fst c) \<noteq> []" using candidates_named [OF 2(1)] by (simp add: named_def)
      with lstrip_slash_head [of "fst c"] 2(2) show ?thesis unfolding exact_rule_def read_rule_def by blast
    qed (simp add: exact_rule_def)
  qed
  show "distinct (deny_rules realpath e)" by (simp add: deny_rules_def)
  have "(''/proc'', True) \<in> set (fst (candidates realpath e))" "(''/sys'', True) \<in> set (fst (candidates realpath e))"
    "(''/dev'', True) \<in> set (fst (candidates realpath e))"
    by (simp_all add: candidates_def set_parts SENSITIVE_SYSTEM_DIRS_def)
  then have "read_rule (''/proc'', True) \<in> set (deny_rules realpath e)" "read_rule (''/sys'', True) \<in> set (deny_rules realpath e)"
    "read_rule (''/dev'', True) \<in> set (deny_rules realpath e)"
    unfolding deny_rules_def set_unique set_append set_map set_filter
    by (auto simp: startswith_def slash_def intro!: imageI)
  moreover have "read_rule (''/proc'', True) = ''Read(//proc/**)''" "read_rule (''/sys'', True) = ''Read(//sys/**)''"
    "read_rule (''/dev'', True) = ''Read(//dev/**)''" by code_simp+
  ultimately show "set DENIED_TOOLS \<union> {''Read(//proc/**)'', ''Read(//sys/**)'', ''Read(//dev/**)''} \<subseteq> set (deny_rules realpath e)"
    by (auto simp: deny_rules_def)
qed

section \<open>Every store\<close>

definition denied :: "(string \<Rightarrow> string option) \<Rightarrow> env \<Rightarrow> candidate \<Rightarrow> bool" where
  "denied realpath e c \<longleftrightarrow>
     (if startswith (fst c) [slash] then read_rule c \<in> set (deny_rules realpath e)
      else \<exists>us. NotAbsolute us \<in> set (deny_notes realpath e) \<and> fst c \<in> set us)"

text \<open>Denied as declared, and under its canonical name where that is another one; what cannot be
  denied is announced.\<close>

definition accounted :: "(string \<Rightarrow> string option) \<Rightarrow> env \<Rightarrow> candidate \<Rightarrow> bool" where
  "accounted realpath e c \<longleftrightarrow> denied realpath e c
     \<and> (if startswith (fst c) [slash]
        then (case realpath (fst c) of
                None \<Rightarrow> NotCanonicalized (fst c) \<in> set (deny_notes realpath e)
              | Some r \<Rightarrow> rstrip_slash r = rstrip_slash (fst c)
                  \<or> (\<exists>why. TwinNotDenied (fst c) why \<in> set (deny_notes realpath e))
                  \<or> denied realpath e (rstrip_slash r, snd c))
        else True)"

lemma candidate_denied: "c \<in> set (fst (candidates realpath e)) \<Longrightarrow> denied realpath e c"
proof -
  assume c: "c \<in> set (fst (candidates realpath e))"
  let ?un = "sort (remdups (map fst (filter (\<lambda>c. \<not> startswith (fst c) [slash]) (fst (candidates realpath e)))))"
  show ?thesis
  proof (cases "startswith (fst c) [slash]")
    case True
    with c have "read_rule c \<in> set (deny_rules realpath e)" unfolding deny_rules_def set_unique by simp
    with True show ?thesis by (simp add: denied_def)
  next
    case False
    with c have m: "fst c \<in> set ?un" by simp
    then have "?un \<noteq> []" by (metis empty_iff empty_set)
    then have "NotAbsolute ?un \<in> set (deny_notes realpath e)" by (simp add: deny_notes_def Let_def)
    with m False show ?thesis unfolding denied_def if_not_P [OF False] by blast
  qed
qed

lemma note_kept: "n \<in> set (snd (candidates realpath e)) \<Longrightarrow> n \<in> set (deny_notes realpath e)"
  by (simp add: deny_notes_def Let_def)

lemma both_accounted:
  assumes "set (fst (both realpath c)) \<subseteq> set (fst (candidates realpath e))"
    and "set (snd (both realpath c)) \<subseteq> set (snd (candidates realpath e))"
  shows "accounted realpath e c"
proof -
  have "c \<in> set (fst (both realpath c))" by (simp add: both_def split: prod.split)
  then have d: "denied realpath e c" using assms(1) candidate_denied by blast
  show ?thesis
  proof (cases "startswith (fst c) [slash]")
    case False
    with d show ?thesis by (simp add: accounted_def)
  next
    case abs: True
    show ?thesis
    proof (cases "realpath (fst c)")
      case None
      then have "NotCanonicalized (fst c) \<in> set (snd (both realpath c))"
        using abs by (simp add: both_def canonical_twin_def)
      with assms(2) d None abs show ?thesis by (auto simp: accounted_def intro: note_kept)
    next
      case (Some r)
      consider "rstrip_slash r = rstrip_slash (fst c)"
        | why where "rstrip_slash r \<noteq> rstrip_slash (fst c)" "unrepresentable r False = Some why"
        | "rstrip_slash r \<noteq> rstrip_slash (fst c)" "unrepresentable r False = None" by fastforce
      then show ?thesis
      proof cases
        case 1
        with d Some abs show ?thesis by (simp add: accounted_def)
      next
        case (2 why)
        then have "TwinNotDenied (fst c) why \<in> set (snd (both realpath c))"
          using abs Some by (simp add: both_def canonical_twin_def)
        then have "TwinNotDenied (fst c) why \<in> set (deny_notes realpath e)" using assms(2) note_kept by blast
        with d Some abs show ?thesis by (auto simp: accounted_def)
      next
        case 3
        then have "(rstrip_slash r, snd c) \<in> set (fst (both realpath c))"
          using abs Some by (simp add: both_def canonical_twin_def)
        then have "denied realpath e (rstrip_slash r, snd c)" using assms(1) candidate_denied by blast
        with d Some abs show ?thesis by (simp add: accounted_def)
      qed
    qed
  qed
qed

text \<open>The stores the environment names, each with the announcement that replaces its rule when no rule
  can carry its spelling.\<close>

definition named_stores :: "env \<Rightarrow> (candidate \<times> deny_note option) list" where
  "named_stores e =
     (let home = env_get e (home_key e) '''';
          root = (\<lambda>key. let v = env_get e key '''' in if v = '''' then []
                    else [((rstrip_slash v, True), map_option (NotApplied key) (unrepresentable v False))]);
          extra = (\<lambda>raw. if strip raw = '''' then []
                    else [((rstrip_slash (strip raw), True), map_option (NotDenied (strip raw)) (unrepresentable (strip raw) False))])
      in (if home = '''' then []
          else map (\<lambda>c. (c, map_option (NotApplied (home_key e)) (unrepresentable home True))) (home_stores (rstrip_slash home)))
         @ root CONFIG_DIR @ root ENV_AMBIENT_CONFIG_DIR
         @ concat (map extra (split_char (CHR 0x0A) (env_get e ENV_EXTRA_DENY_DIRS ''''))))"

lemma parts_in_candidates:
  assumes "p \<in> {home_part realpath e, config_part realpath e CONFIG_DIR, config_part realpath e ENV_AMBIENT_CONFIG_DIR,
      extra_part realpath e}"
  shows "set (fst p) \<subseteq> set (fst (candidates realpath e))" "set (snd p) \<subseteq> set (snd (candidates realpath e))"
  using assms unfolding candidates_def set_parts by auto

definition settled :: "(string \<Rightarrow> string option) \<Rightarrow> env \<Rightarrow> candidate \<times> deny_note option \<Rightarrow> bool" where
  "settled realpath e s = (case snd s of None \<Rightarrow> accounted realpath e (fst s) | Some n \<Rightarrow> n \<in> set (deny_notes realpath e))"

lemma home_settled:
  assumes "env_get e (home_key e) [] \<noteq> []" "c \<in> set (home_stores (rstrip_slash (env_get e (home_key e) [])))"
  shows "settled realpath e (c, map_option (NotApplied (home_key e)) (unrepresentable (env_get e (home_key e) []) True))"
proof (cases "unrepresentable (env_get e (home_key e) []) True")
  case None
  then have p: "home_part realpath e = parts (([], []) # map (both realpath) (home_stores (rstrip_slash (env_get e (home_key e) []))))"
    using assms(1) by (simp add: home_part_def environment_root_def)
  have "set (fst (both realpath c)) \<subseteq> set (fst (home_part realpath e))" "set (snd (both realpath c)) \<subseteq> set (snd (home_part realpath e))"
    unfolding p set_parts using assms(2) by auto
  then have "accounted realpath e c" using parts_in_candidates [of "home_part realpath e"] by (intro both_accounted) blast+
  with None show ?thesis by (simp add: settled_def)
next
  case (Some r)
  then have "NotApplied (home_key e) r \<in> set (snd (home_part realpath e))"
    using assms(1) by (simp add: home_part_def environment_root_def)
  then have "NotApplied (home_key e) r \<in> set (deny_notes realpath e)"
    using parts_in_candidates [of "home_part realpath e"] note_kept by blast
  with Some show ?thesis by (simp add: settled_def)
qed

lemma config_settled:
  assumes "env_get e key [] \<noteq> []" "key \<in> {CONFIG_DIR, ENV_AMBIENT_CONFIG_DIR}"
  shows "settled realpath e ((rstrip_slash (env_get e key []), True), map_option (NotApplied key) (unrepresentable (env_get e key []) False))"
proof (cases "unrepresentable (env_get e key []) False")
  case None
  then have "rstrip_slash (env_get e key []) \<noteq> []" by (auto simp: unrepresentable_def split: if_splits)
  with None assms(1) have "config_part realpath e key = parts [([], []), both realpath (rstrip_slash (env_get e key []), True)]"
    by (simp add: config_part_def environment_root_def)
  then have "set (fst (both realpath (rstrip_slash (env_get e key []), True))) \<subseteq> set (fst (config_part realpath e key))"
    "set (snd (both realpath (rstrip_slash (env_get e key []), True))) \<subseteq> set (snd (config_part realpath e key))"
    by (simp_all add: set_parts)
  then have "accounted realpath e (rstrip_slash (env_get e key []), True)"
    using parts_in_candidates [of "config_part realpath e key"] assms(2) by (intro both_accounted) blast+
  with None show ?thesis by (simp add: settled_def)
next
  case (Some r)
  then have "NotApplied key r \<in> set (snd (config_part realpath e key))"
    using assms(1) by (simp add: config_part_def environment_root_def)
  then have "NotApplied key r \<in> set (deny_notes realpath e)"
    using parts_in_candidates [of "config_part realpath e key"] assms(2) note_kept by blast
  with Some show ?thesis by (simp add: settled_def)
qed

lemma extra_settled:
  assumes "raw \<in> set (split_char (CHR 0x0A) (env_get e ENV_EXTRA_DENY_DIRS []))" "strip raw \<noteq> []"
  shows "settled realpath e ((rstrip_slash (strip raw), True), map_option (NotDenied (strip raw)) (unrepresentable (strip raw) False))"
proof -
  have "set (fst (declared_part realpath raw)) \<subseteq> set (fst (extra_part realpath e))"
    "set (snd (declared_part realpath raw)) \<subseteq> set (snd (extra_part realpath e))"
    using assms(1) unfolding extra_part_def set_parts by auto
  then have sub: "set (fst (declared_part realpath raw)) \<subseteq> set (fst (candidates realpath e))"
    "set (snd (declared_part realpath raw)) \<subseteq> set (snd (candidates realpath e))"
    using parts_in_candidates [of "extra_part realpath e" realpath e] by blast+
  show ?thesis
  proof (cases "unrepresentable (strip raw) False")
    case None
    then have "set (fst (both realpath (rstrip_slash (strip raw), True))) \<subseteq> set (fst (declared_part realpath raw))"
      "set (snd (both realpath (rstrip_slash (strip raw), True))) \<subseteq> set (snd (declared_part realpath raw))"
      using assms(2) by (auto simp: declared_part_def Let_def set_parts)
    with sub have "accounted realpath e (rstrip_slash (strip raw), True)" by (intro both_accounted) blast+
    with None show ?thesis by (simp add: settled_def)
  next
    case (Some r)
    then have "NotDenied (strip raw) r \<in> set (snd (declared_part realpath raw))"
      using assms(2) by (simp add: declared_part_def Let_def)
    then have "NotDenied (strip raw) r \<in> set (deny_notes realpath e)" using sub(2) note_kept by blast
    with Some show ?thesis by (simp add: settled_def)
  qed
qed

text \<open>C22: no store is left readable in silence. Every credential store the environment names (the home
  stores, the config directory and the one it replaced, the operator's declared directories) is denied
  as it is spelled and, where its canonical path is another, under that path too; and whatever cannot
  be denied is announced: a spelling no rule can carry, a path that is not absolute, a target that
  cannot be resolved or expressed.\<close>

theorem every_store_is_denied_or_announced:
  "list_all (settled realpath e) (named_stores e)"
  unfolding list_all_iff named_stores_def Let_def
  using home_settled config_settled [of e CONFIG_DIR] config_settled [of e ENV_AMBIENT_CONFIG_DIR] extra_settled
  by (auto split: if_splits)

end
