(* ===== verification/Transcript.thy ===== *)
theory Transcript
  imports Denylist Outcome
begin

text \<open>
  \<open>sidecar/reviewer/transcript.py\<close>, \<open>transcript_client.py\<close> and the destinations of \<open>objectstore.py\<close>: the
  capture of a run's event feed. Every line is scrubbed of the credential values the driver holds,
  appended to a local file, metered, and at the end the file is shipped. The file system and the
  network decide, write by write, whether they fail; \<open>json.loads\<close>, the length of a string's UTF-8
  encoding (\<open>None\<close> where it raises) and path resolution are parameters.
\<close>

section \<open>The scrubber\<close>

definition MIN_FRAGMENT :: nat where "MIN_FRAGMENT = 4"

definition REPLACEMENT_CHAR :: string where "REPLACEMENT_CHAR = [CHR 0xEF, CHR 0xBF, CHR 0xBD]"

definition redaction :: "string \<Rightarrow> string" where
  "redaction name = ''[REDACTED:'' @ name @ '']''"

text \<open>\<open>json.dumps(value)[1:-1]\<close>.\<close>

definition hex_of :: "nat \<Rightarrow> char" where
  "hex_of n = (if n < 10 then char_of (48 + n) else char_of (87 + n))"

definition json_escape_char :: "char \<Rightarrow> string" where
  "json_escape_char c =
     (let n = (of_char c :: nat); bs = BACKSLASH_CHAR
      in if c = CHR 0x22 then [bs, CHR 0x22]
         else if c = bs then [bs, bs]
         else if n = 0x0A then [bs, CHR ''n'']
         else if n = 0x0D then [bs, CHR ''r'']
         else if n = 0x09 then [bs, CHR ''t'']
         else if n = 0x0C then [bs, CHR ''f'']
         else if n = 0x08 then [bs, CHR ''b'']
         else if n < 0x20 \<or> 0x7E < n then [bs, CHR ''u'', CHR ''0'', CHR ''0'', hex_of (n div 16), hex_of (n mod 16)]
         else [c])"

definition json_inner :: "string \<Rightarrow> string" where
  "json_inner s = concat (map json_escape_char s)"

type_synonym scrubber = "(string \<times> string) list"

definition add_secret :: "string \<times> string \<Rightarrow> scrubber \<Rightarrow> scrubber" where
  "add_secret s d =
     (if snd s = '''' then d
      else dict_setdefault (json_inner (snd s)) (redaction (fst s)) (dict_setdefault (snd s) (redaction (fst s)) d))"

definition needles :: "(string \<times> string) list \<Rightarrow> scrubber" where
  "needles secrets = fold add_secret secrets []"

definition for_secrets :: "(string \<times> string) list \<Rightarrow> scrubber" where
  "for_secrets secrets = sort_key (\<lambda>e. - int (length (fst e))) (needles secrets)"

text \<open>\<open>str.replace\<close>.\<close>

fun replace :: "string \<Rightarrow> string \<Rightarrow> string \<Rightarrow> string" where
  "replace n m [] = []"
| "replace n m (c # cs) =
     (if n \<noteq> [] \<and> startswith (c # cs) n then m @ replace n m (drop (length n - 1) cs)
      else c # replace n m cs)"

definition scrub_one :: "string \<times> string \<Rightarrow> string \<Rightarrow> string" where
  "scrub_one e t = (if contains (fst e) t then replace (fst e) (snd e) t else t)"

definition scrub :: "scrubber \<Rightarrow> string \<Rightarrow> string" where
  "scrub reps t = fold scrub_one reps t"

text \<open>\<open>rstrip(REPLACEMENT_CHAR)\<close>, on the reversed text.\<close>

fun drop_marks :: "string \<Rightarrow> string" where
  "drop_marks (c # d # e # cs) = (if [e, d, c] = REPLACEMENT_CHAR then drop_marks cs else c # d # e # cs)"
| "drop_marks cs = cs"

definition rstrip_marks :: "string \<Rightarrow> string" where "rstrip_marks t = rev (drop_marks (rev t))"

text \<open>The longest proper prefix of a needle the text ends in, above \<open>best\<close>.\<close>

definition fragment :: "string \<Rightarrow> string \<Rightarrow> nat \<Rightarrow> nat option" where
  "fragment scanned needle best =
     find (\<lambda>k. MIN_FRAGMENT \<le> k \<and> endswith scanned (take k needle))
       (rev [Suc best ..< Suc (min (length scanned) (length needle - 1))])"

definition best_step :: "string \<Rightarrow> string \<times> string \<Rightarrow> nat \<times> string \<Rightarrow> nat \<times> string" where
  "best_step scanned e best =
     (case fragment scanned (fst e) (fst best) of None \<Rightarrow> best | Some k \<Rightarrow> (k, snd e))"

definition best_fragment :: "scrubber \<Rightarrow> string \<Rightarrow> nat \<times> string" where
  "best_fragment reps scanned = fold (best_step scanned) reps (0, '''')"

definition scrub_partial :: "scrubber \<Rightarrow> string \<Rightarrow> string" where
  "scrub_partial reps t =
     (let t1 = scrub reps t; scanned = rstrip_marks t1; (b, m) = best_fragment reps scanned
      in if b \<noteq> 0 then take (length scanned - b) scanned @ m else t1)"

definition scrub_line :: "scrubber \<Rightarrow> string \<Rightarrow> string" where
  "scrub_line reps line = (if endswith line nl then scrub reps line else scrub_partial reps line)"

section \<open>What a scrubbed line cannot contain\<close>

definition bracketed :: "string \<Rightarrow> string \<Rightarrow> bool" where
  "bracketed v m \<longleftrightarrow> (\<exists>inner. m = ''['' @ inner @ '']'' \<and> \<not> contains v inner)"

text \<open>A value no marker hides: not empty, without brackets, and part of no marker's text.\<close>

definition unbracketed :: "string \<Rightarrow> bool" where
  "unbracketed v \<longleftrightarrow> v \<noteq> [] \<and> CHR ''['' \<notin> set v \<and> CHR '']'' \<notin> set v"

lemma contains_split:
  assumes "contains v (a @ c # b)" "c \<notin> set v"
  shows "contains v a \<or> contains v b"
proof -
  from assms(1) obtain x y where e: "a @ c # b = x @ v @ y" unfolding contains_iff by blast
  consider t where "a = x @ v @ t" | t where "b = t @ v @ y"
  proof -
    from e consider (l) t where "a = x @ t" "t @ c # b = v @ y" | (r) t where "a @ t = x" "c # b = t @ v @ y"
      by (auto simp: append_eq_append_conv2)
    then show ?thesis
    proof cases
      case l
      from l(2) consider (p) u where "t = v @ u" | (q) u where "t @ u = v" "c # b = u @ y"
        by (auto simp: append_eq_append_conv2)
      then show ?thesis
      proof cases
        case p
        with l(1) that(1) show ?thesis by blast
      next
        case q
        with assms(2) have "u = []" by (cases u) auto
        with q l that(1) [of "[]"] show ?thesis by auto
      qed
    next
      case r
      then show ?thesis
      proof (cases t)
        case Nil
        with r assms(2) have "v = []" by (cases v) auto
        then show ?thesis using that(2) [of "[]"] r Nil that(1) [of "drop (length x) a"] by auto
      next
        case (Cons d t')
        with r that(2) show ?thesis by auto
      qed
    qed
  qed
  then show ?thesis unfolding contains_iff by blast
qed

lemma contains_marker:
  assumes "contains v (a @ m @ b)" "bracketed v m" "unbracketed v"
  shows "contains v a \<or> contains v b"
proof -
  from assms(2) obtain inner where m: "m = ''['' @ inner @ '']''" "\<not> contains v inner" by (auto simp: bracketed_def)
  from assms(1) m have "contains v (a @ CHR ''['' # inner @ CHR '']'' # b)" by simp
  with assms(3) m(2) contains_split [of v a _ "inner @ CHR '']'' # b"] contains_split [of v inner _ b]
  show ?thesis by (auto simp: unbracketed_def)
qed

lemma contains_suffix: "contains v (drop k t) \<Longrightarrow> contains v t"
  unfolding contains_iff by (metis append.assoc append_take_drop_id)

lemma contains_prefix: "contains v (take k t) \<Longrightarrow> contains v t"
  unfolding contains_iff by (metis append.assoc append_take_drop_id)

lemma replace_keeps:
  "bracketed v m \<Longrightarrow> unbracketed v \<Longrightarrow> contains v (p @ replace n m t) \<Longrightarrow> contains v (p @ t)"
proof (induction n m t arbitrary: p rule: replace.induct)
  case (2 n m c cs)
  show ?case
  proof (cases "n \<noteq> [] \<and> startswith (c # cs) n")
    case True
    with 2(5) have "contains v (p @ m @ replace n m (drop (length n - 1) cs))" by simp
    from contains_marker [OF this 2(3,4)] show ?thesis
    proof
      assume "contains v p"
      then show ?thesis using contains_in_context [of v p "[]" "c # cs"] by simp
    next
      assume "contains v (replace n m (drop (length n - 1) cs))"
      with 2(1) [OF True 2(3,4), of "[]"] have "contains v (drop (length n - 1) cs)" by simp
      then have "contains v cs" by (rule contains_suffix)
      then show ?thesis using contains_in_context [of v cs "p @ [c]" "[]"] by simp
    qed
  next
    case False
    with 2(5) have "contains v ((p @ [c]) @ replace n m cs)" by simp
    with 2(2) [OF False 2(3,4)] show ?thesis by fastforce
  qed
qed simp

lemma replace_prefix: "bracketed v m \<Longrightarrow> CHR ''['' \<notin> set x \<Longrightarrow> startswith (replace n m t) x \<Longrightarrow> startswith t x"
proof (induction n m t arbitrary: x rule: replace.induct)
  case (2 n m c cs)
  show ?case
  proof (cases x)
    case (Cons d x')
    with 2(3-5) have no: "\<not> (n \<noteq> [] \<and> startswith (c # cs) n)" by (auto simp: bracketed_def startswith_def)
    with 2(4,5) Cons have "d = c" "startswith (replace n m cs) x'" by (auto simp: startswith_def)
    moreover have "startswith cs x'" using 2(2) [OF no 2(3)] 2(4) Cons calculation(2) by simp
    ultimately show ?thesis using Cons by (simp add: startswith_def)
  qed simp
qed simp

lemma replace_removes: "bracketed v m \<Longrightarrow> unbracketed v \<Longrightarrow> \<not> contains v (replace v m t)"
proof (induction t rule: length_induct)
  case (1 t)
  note ub = 1(3)
  show ?case
  proof (cases t)
    case Nil
    with ub show ?thesis by (simp add: unbracketed_def)
  next
    case (Cons c cs)
    show ?thesis
    proof (cases "startswith t v")
      case True
      with ub Cons have r: "replace v m t = m @ replace v m (drop (length v - 1) cs)" by (simp add: unbracketed_def)
      have "\<not> contains v (replace v m (drop (length v - 1) cs))" using 1(1) 1(2) ub Cons by simp
      then show ?thesis using contains_marker [OF _ 1(2) ub, of "[]"] ub
        unfolding r by (auto simp: unbracketed_def)
    next
      case False
      with Cons have r: "replace v m t = c # replace v m cs" by simp
      have n: "\<not> contains v (replace v m cs)" using 1(1) 1(2) ub Cons by simp
      have "\<not> startswith (c # replace v m cs) v"
      proof
        assume s: "startswith (c # replace v m cs) v"
        from ub obtain d v' where v: "v = d # v'" by (cases v) (auto simp: unbracketed_def)
        with s have "d = c" "startswith (replace v m cs) v'" by (auto simp: startswith_def)
        moreover have "CHR ''['' \<notin> set v'" using ub v by (simp add: unbracketed_def)
        ultimately have "startswith cs v'" using replace_prefix [OF 1(2)] by blast
        with \<open>d = c\<close> v Cons False show False by (simp add: startswith_def)
      qed
      with n show ?thesis unfolding r by simp
    qed
  qed
qed

lemma scrub_one_keeps: "bracketed v (snd e) \<Longrightarrow> unbracketed v \<Longrightarrow> \<not> contains v t \<Longrightarrow> \<not> contains v (scrub_one e t)"
  using replace_keeps [of v "snd e" "[]" "fst e" t] by (auto simp: scrub_one_def)

lemma scrub_keeps:
  "\<forall>e \<in> set reps. bracketed v (snd e) \<Longrightarrow> unbracketed v \<Longrightarrow> \<not> contains v t \<Longrightarrow> \<not> contains v (scrub reps t)"
  unfolding scrub_def
proof (induction reps arbitrary: t)
  case (Cons e reps)
  then show ?case using scrub_one_keeps [of v e t] by simp
qed simp

lemma scrub_removes:
  assumes "\<forall>e \<in> set reps. bracketed v (snd e)" "unbracketed v" "v \<in> fst ` set reps"
  shows "\<not> contains v (scrub reps t)"
proof -
  from assms(3) obtain a m b where reps: "reps = a @ (v, m) # b" by (auto simp: in_set_conv_decomp)
  with assms(1) have "bracketed v m" by auto
  then have "\<not> contains v (scrub_one (v, m) (scrub a t))" using replace_removes [OF _ assms(2)] by (simp add: scrub_one_def)
  with assms(1,2) have "\<not> contains v (scrub b (scrub_one (v, m) (scrub a t)))" by (intro scrub_keeps) (auto simp: reps)
  then show ?thesis by (simp add: reps scrub_def)
qed

lemma add_secret_keys: "fst ` set (add_secret s d) = (if snd s = '''' then {} else {snd s, json_inner (snd s)}) \<union> fst ` set d"
  by (auto simp: add_secret_def dict_setdefault_def)

lemma add_secret_markers: "snd ` set (add_secret s d) \<subseteq> insert (redaction (fst s)) (snd ` set d)"
  by (auto simp: add_secret_def dict_setdefault_def)

lemma needles_keys: "fst ` set (fold add_secret secrets d) =
    fst ` set d \<union> (\<Union>s \<in> set secrets. if snd s = '''' then {} else {snd s, json_inner (snd s)})"
  by (induction secrets arbitrary: d) (auto simp: add_secret_keys)

lemma needles_markers: "snd ` set (fold add_secret secrets d) \<subseteq> snd ` set d \<union> redaction ` fst ` set secrets"
proof (induction secrets arbitrary: d)
  case (Cons s secrets)
  have "snd ` set (fold add_secret (s # secrets) d) \<subseteq> snd ` set (add_secret s d) \<union> redaction ` fst ` set secrets"
    using Cons by simp
  also have "\<dots> \<subseteq> snd ` set d \<union> redaction ` fst ` set (s # secrets)" using add_secret_markers [of s d] by auto
  finally show ?case .
qed simp

text \<open>A value in the clear: none of its own occurrences can come from the markers around it.\<close>

definition plain_value :: "(string \<times> string) list \<Rightarrow> string \<Rightarrow> bool" where
  "plain_value secrets v \<longleftrightarrow> unbracketed v \<and> CHR 0x0A \<notin> set v
     \<and> list_all (\<lambda>s. \<not> contains v (''REDACTED:'' @ fst s)) secrets"

lemma for_secrets_facts:
  assumes "plain_value secrets v"
  shows "\<forall>e \<in> set (for_secrets secrets). bracketed v (snd e)" "unbracketed v"
proof -
  have "bracketed v (snd e)" if e: "e \<in> set (for_secrets secrets)" for e
  proof -
    from e needles_markers [of secrets "[]"] obtain s where "s \<in> set secrets" "snd e = redaction (fst s)"
      by (auto simp: for_secrets_def needles_def)
    with assms show ?thesis by (auto simp: bracketed_def redaction_def plain_value_def list_all_iff)
  qed
  then show "\<forall>e \<in> set (for_secrets secrets). bracketed v (snd e)" by blast
  show "unbracketed v" using assms by (simp add: plain_value_def)
qed

text \<open>What the scrubber was told to replace: a value, verbatim or as Python writes it in JSON.\<close>

definition registered :: "(string \<times> string) list \<Rightarrow> string \<Rightarrow> bool" where
  "registered secrets v \<longleftrightarrow> (\<exists>s \<in> set secrets. snd s \<noteq> '''' \<and> v \<in> {snd s, json_inner (snd s)})"

lemma registered_needle: "registered secrets v \<Longrightarrow> v \<in> fst ` set (for_secrets secrets)"
  using needles_keys [of secrets "[]"] by (auto simp: registered_def for_secrets_def needles_def)

lemma drop_marks_suffix: "\<exists>k. drop_marks t = drop k t"
proof (induction t rule: drop_marks.induct)
  case (1 c d e cs)
  then show ?case
  proof (cases "[e, d, c] = REPLACEMENT_CHAR")
    case True
    with 1 obtain k where "drop_marks cs = drop k cs" by auto
    with True have "drop_marks (c # d # e # cs) = drop (Suc (Suc (Suc k))) (c # d # e # cs)" by simp
    then show ?thesis ..
  next
    case False
    then have "drop_marks (c # d # e # cs) = drop 0 (c # d # e # cs)" by simp
    then show ?thesis ..
  qed
qed (metis drop0 drop_marks.simps)+

lemma rstrip_marks_prefix: "\<exists>k. rstrip_marks t = take k t"
proof -
  from drop_marks_suffix obtain k where "drop_marks (rev t) = drop k (rev t)" by blast
  then have "rstrip_marks t = take (length t - k) t" by (simp add: rstrip_marks_def rev_drop)
  then show ?thesis ..
qed

lemma best_fragment_marker:
  "best_fragment reps s = (b, m) \<Longrightarrow> b = 0 \<and> m = '''' \<or> m \<in> snd ` set reps"
proof -
  have "fold (best_step s) reps q = (b, m) \<Longrightarrow> (b, m) = q \<or> m \<in> snd ` set reps" for q
    by (induction reps arbitrary: q) (force simp: best_step_def split: option.splits)+
  from this [of "(0, '''')"] show "best_fragment reps s = (b, m) \<Longrightarrow> b = 0 \<and> m = '''' \<or> m \<in> snd ` set reps"
    unfolding best_fragment_def by blast
qed

lemma scrub_line_clean:
  assumes "plain_value secrets v" "registered secrets v"
  shows "\<not> contains v (scrub_line (for_secrets secrets) line)"
proof -
  let ?reps = "for_secrets secrets" and ?t = "scrub (for_secrets secrets) line"
  note f = for_secrets_facts [OF assms(1)]
  have clean: "\<not> contains v ?t" by (rule scrub_removes [OF f registered_needle [OF assms(2)]])
  obtain b m where bm: "best_fragment ?reps (rstrip_marks ?t) = (b, m)" by fastforce
  have "\<not> contains v (take (length (rstrip_marks ?t) - b) (rstrip_marks ?t) @ m)" if "b \<noteq> 0"
  proof
    assume c: "contains v (take (length (rstrip_marks ?t) - b) (rstrip_marks ?t) @ m)"
    from best_fragment_marker [OF bm] that have "bracketed v m" using f(1) by auto
    with contains_marker [of v _ m "[]"] c f(2) have "contains v (take (length (rstrip_marks ?t) - b) (rstrip_marks ?t))"
      by (auto simp: unbracketed_def)
    moreover from rstrip_marks_prefix obtain k where "rstrip_marks ?t = take k ?t" by blast
    ultimately show False using clean contains_prefix by metis
  qed
  with clean bm show ?thesis by (simp add: scrub_line_def scrub_partial_def Let_def)
qed

lemma fragment_None:
  "fragment s n b = None \<Longrightarrow> b < k \<Longrightarrow> MIN_FRAGMENT \<le> k \<Longrightarrow> k < length n \<Longrightarrow> \<not> endswith s (take k n)"
proof -
  assume f: "fragment s n b = None" and k: "b < k" "MIN_FRAGMENT \<le> k" "k < length n"
  show "\<not> endswith s (take k n)"
  proof
    assume e: "endswith s (take k n)"
    with k(3) have "k \<le> length s" by (simp add: endswith_def)
    moreover from k(3) have "k \<le> length n - 1" by linarith
    ultimately have "k \<le> min (length s) (length n - 1)" by simp
    then have "k \<in> set (rev [Suc b ..< Suc (min (length s) (length n - 1))])"
      using k(1) unfolding set_rev set_upt atLeastLessThan_iff by linarith
    with f e k(2) show False unfolding fragment_def find_None_iff by blast
  qed
qed

lemma find_in: "find P xs = Some x \<Longrightarrow> x \<in> set xs"
  by (induction xs) (auto split: if_splits)

lemma fragment_Some: "fragment s n b = Some k \<Longrightarrow> b < k"
  unfolding fragment_def by (drule find_in) (simp only: set_rev set_upt atLeastLessThan_iff Suc_le_eq)

text \<open>With no fragment found, the text ends in no fragment of any needle.\<close>

lemma best_fragment_zero:
  assumes "best_fragment reps s = (0, m)" "e \<in> set reps" "MIN_FRAGMENT \<le> k" "k < length (fst e)"
  shows "\<not> endswith s (take k (fst e))"
proof -
  have step: "fst q \<le> fst (best_step s e q)" for e q
    using fragment_Some [of s "fst e" "fst q"] by (auto simp: best_step_def intro: less_imp_le split: option.split)
  have mono: "fst q \<le> fst (fold (best_step s) reps q)" for reps q
  proof (induction reps arbitrary: q)
    case (Cons e reps)
    from order_trans [OF step [of q e] Cons] show ?case by simp
  qed simp
  have "\<not> endswith s (take k (fst e))" if "fst (fold (best_step s) reps q) = 0" "e \<in> set reps" for reps q
    using that
  proof (induction reps arbitrary: q)
    case (Cons e' reps)
    from Cons(2) have z: "fst (best_step s e' q) = 0" using mono [of "best_step s e' q" reps] by simp
    then have n: "fragment s (fst e') (fst q) = None" and q: "fst q = 0"
      using fragment_Some [of s "fst e'" "fst q"] step [of q e'] by (auto simp: best_step_def split: option.splits)
    show ?case
    proof (cases "e = e'")
      case True
      with n q assms(3,4) show ?thesis by (intro fragment_None [of s "fst e" "fst q"]) (auto simp: MIN_FRAGMENT_def)
    next
      case False
      with Cons show ?thesis by auto
    qed
  qed simp
  from this [of reps "(0, '''')"] assms(1,2) show ?thesis unfolding best_fragment_def by simp
qed

lemma endswith_last: "endswith s p \<Longrightarrow> p \<noteq> [] \<Longrightarrow> s \<noteq> [] \<and> last s = last p"
  unfolding endswith_def by (metis drop_eq_Nil last_drop length_greater_0_conv linorder_not_less list.size(3) le_zero_eq)

lemma drop_marks_head: "t = c # cs \<Longrightarrow> c \<noteq> CHR 0xBF \<and> c \<noteq> CHR 0xBD \<Longrightarrow> drop_marks t = t"
  by (cases t rule: drop_marks.cases) (auto simp: REPLACEMENT_CHAR_def)

lemma rstrip_marks_last: "t \<noteq> [] \<Longrightarrow> last t = CHR '']'' \<Longrightarrow> rstrip_marks t = t"
  unfolding rstrip_marks_def using drop_marks_head [of "rev t" "last t" "tl (rev t)"]
  by (cases "rev t") (auto simp: hd_rev [symmetric])

lemma drop_marks_idem: "drop_marks (drop_marks t) = drop_marks t"
  by (induction t rule: drop_marks.induct) auto

text \<open>A line the pipe cut ends in no fragment of a value.\<close>

lemma scrub_partial_tail:
  assumes "plain_value secrets v" "registered secrets v" "MIN_FRAGMENT \<le> k" "k < length v"
  shows "\<not> endswith (rstrip_marks (scrub_partial (for_secrets secrets) line)) (take k v)"
proof -
  let ?reps = "for_secrets secrets" and ?t = "scrub (for_secrets secrets) line"
  obtain b m where bm: "best_fragment ?reps (rstrip_marks ?t) = (b, m)" by fastforce
  from registered_needle [OF assms(2)] obtain e where e: "e \<in> set ?reps" "fst e = v" by auto
  show ?thesis
  proof (cases "b = 0")
    case True
    with bm best_fragment_zero [of ?reps "rstrip_marks ?t" m e k] e assms(3,4)
    show ?thesis by (simp add: scrub_partial_def)
  next
    case False
    with best_fragment_marker [OF bm] for_secrets_facts(1) [OF assms(1)] have "bracketed v m" by auto
    then have m: "m \<noteq> []" "last m = CHR '']''" by (auto simp: bracketed_def)
    let ?out = "take (length (rstrip_marks ?t) - b) (rstrip_marks ?t) @ m"
    have out: "scrub_partial ?reps line = ?out" using False bm by (simp add: scrub_partial_def Let_def)
    have "rstrip_marks ?out = ?out" using m by (intro rstrip_marks_last) auto
    moreover have "\<not> endswith ?out (take k v)"
    proof
      assume e: "endswith ?out (take k v)"
      have ne: "take k v \<noteq> []" using assms(3,4) by (auto simp: MIN_FRAGMENT_def)
      from endswith_last [OF e ne] m have "last (take k v) = CHR '']''" by simp
      with ne have "CHR '']'' \<in> set v" by (metis in_set_takeD last_in_set)
      with assms(1) show False by (simp add: plain_value_def unbracketed_def)
    qed
    ultimately show ?thesis unfolding out by simp
  qed
qed

section \<open>The meter\<close>

definition READ_TOOL :: string where "READ_TOOL = ''Read''"

record meter =
  mt_calls :: "(string, nat) dict"
  mt_bytes :: nat
  mt_complete :: bool
  mt_broken :: bool
  mt_reads :: "(string, nat) dict"

definition meter_start :: meter where
  "meter_start = \<lparr>mt_calls = [], mt_bytes = 0, mt_complete = False, mt_broken = False, mt_reads = []\<rparr>"

definition tally :: "(string, nat) dict \<Rightarrow> string \<Rightarrow> nat" where
  "tally d k = (case map_of d k of None \<Rightarrow> 0 | Some n \<Rightarrow> n)"

definition bump :: "string \<Rightarrow> (string, nat) dict \<Rightarrow> (string, nat) dict" where
  "bump k d = dict_set k (tally d k + 1) d"

definition event_blocks :: "(string, json) dict \<Rightarrow> json list" where
  "event_blocks event =
     (case map_of event ''message'' of
        Some (JObj message) \<Rightarrow> (case map_of message ''content'' of Some (JList blocks) \<Rightarrow> blocks | _ \<Rightarrow> [])
      | _ \<Rightarrow> [])"

text \<open>A string's length in UTF-8, \<open>None\<close> where encoding it raises.\<close>

fun texts_bytes :: "(string \<Rightarrow> nat option) \<Rightarrow> json list \<Rightarrow> nat option" where
  "texts_bytes utf8 [] = Some 0"
| "texts_bytes utf8 (b # bs) =
     (case b of
        JObj d \<Rightarrow>
          (case map_of d ''text'' of
             Some (JStr s) \<Rightarrow>
               (case (utf8 s, texts_bytes utf8 bs) of (Some m, Some n) \<Rightarrow> Some (m + n) | _ \<Rightarrow> None)
           | _ \<Rightarrow> texts_bytes utf8 bs)
      | _ \<Rightarrow> texts_bytes utf8 bs)"

definition text_bytes :: "(string \<Rightarrow> nat option) \<Rightarrow> json option \<Rightarrow> nat option" where
  "text_bytes utf8 content =
     (case content of
        Some (JStr s) \<Rightarrow> utf8 s
      | Some (JList blocks) \<Rightarrow> texts_bytes utf8 blocks
      | _ \<Rightarrow> Some 0)"

definition tool_name :: "(string, json) dict \<Rightarrow> string" where
  "tool_name d = (case map_of d ''name'' of Some (JStr s) \<Rightarrow> if s \<noteq> '''' then s else ''?'' | _ \<Rightarrow> ''?'')"

definition read_path :: "json option \<Rightarrow> string option" where
  "read_path tool_input =
     (case tool_input of
        Some (JObj d) \<Rightarrow> (case map_of d ''file_path'' of Some (JStr s) \<Rightarrow> if s \<noteq> '''' then Some s else None | _ \<Rightarrow> None)
      | _ \<Rightarrow> None)"

definition call_block :: "json \<Rightarrow> meter \<Rightarrow> meter" where
  "call_block block m =
     (case block of
        JObj d \<Rightarrow>
          if map_of d ''type'' = Some (JStr ''tool_use'')
          then (let m1 = m\<lparr>mt_calls := bump (tool_name d) (mt_calls m)\<rparr>
                in if tool_name d = READ_TOOL
                   then (case read_path (map_of d ''input'') of
                           None \<Rightarrow> m1
                         | Some p \<Rightarrow> m1\<lparr>mt_reads := bump p (mt_reads m1)\<rparr>)
                   else m1)
          else m
      | _ \<Rightarrow> m)"

text \<open>The blocks of a \<open>user\<close> event; the flag is an exception, which the guard of \<open>feed\<close> catches.\<close>

fun result_blocks :: "(string \<Rightarrow> nat option) \<Rightarrow> json list \<Rightarrow> nat \<Rightarrow> nat \<times> bool" where
  "result_blocks utf8 [] n = (n, False)"
| "result_blocks utf8 (b # bs) n =
     (case b of
        JObj d \<Rightarrow>
          if map_of d ''type'' = Some (JStr ''tool_result'')
          then (case text_bytes utf8 (map_of d ''content'') of
                  None \<Rightarrow> (n, True)
                | Some k \<Rightarrow> result_blocks utf8 bs (n + k))
          else result_blocks utf8 bs n
      | _ \<Rightarrow> result_blocks utf8 bs n)"

definition feed :: "(string \<Rightarrow> nat + json) \<Rightarrow> (string \<Rightarrow> nat option) \<Rightarrow> string \<Rightarrow> meter \<Rightarrow> meter" where
  "feed loads utf8 line m =
     (case loads line of
        Inr (JObj event) \<Rightarrow>
          if map_of event ''type'' = Some (JStr ''assistant'') then fold call_block (event_blocks event) m
          else if map_of event ''type'' = Some (JStr ''user'')
          then (let (n, raised) = result_blocks utf8 (event_blocks event) (mt_bytes m)
                in m\<lparr>mt_bytes := n, mt_broken := mt_broken m \<or> raised\<rparr>)
          else if map_of event ''type'' = Some (JStr ''result'') then m\<lparr>mt_complete := True\<rparr>
          else m
      | _ \<Rightarrow> m)"

definition repeated_read_files :: "meter \<Rightarrow> nat" where
  "repeated_read_files m = length (filter (\<lambda>e. 1 < snd e) (mt_reads m))"

section \<open>The capture\<close>

text \<open>What the file system does with a write: all of it lands, or some of it does and it raises.\<close>

datatype write_fate = Written | WriteFailed nat string

text \<open>The sink and its state: whether it ships, the file, whether a line landed, what shared storage
  affirmed; and \<open>Transcript\<close>'s own.\<close>

record capture =
  cp_key :: string
  cp_scrubber :: scrubber
  cp_ships :: bool
  cp_file :: string
  cp_opened :: bool
  cp_stored :: "bool option"
  cp_failed :: bool
  cp_closed :: bool
  cp_meter :: meter
  cp_lines :: nat
  cp_notes :: "string list"

definition fresh_capture :: "string \<Rightarrow> (string \<times> string) list \<Rightarrow> bool \<Rightarrow> capture" where
  "fresh_capture key secrets ships =
     \<lparr>cp_key = key, cp_scrubber = for_secrets secrets, cp_ships = ships, cp_file = '''', cp_opened = False,
      cp_stored = None, cp_failed = False, cp_closed = False, cp_meter = meter_start, cp_lines = 0, cp_notes = []\<rparr>"

definition capture_fail :: "string \<Rightarrow> capture \<Rightarrow> capture" where
  "capture_fail e t =
     (if cp_failed t then t
      else t\<lparr>cp_failed := True, cp_notes := cp_notes t @ [''fuko: transcript '' @ cp_key t @ '' capture failed: '' @ e]\<rparr>)"

definition sink_line :: "string \<Rightarrow> string" where
  "sink_line line = (if endswith line nl then line else line @ nl)"

definition capture_write ::
  "(string \<Rightarrow> nat + json) \<Rightarrow> (string \<Rightarrow> nat option) \<Rightarrow> string \<times> write_fate \<Rightarrow> capture \<Rightarrow> capture" where
  "capture_write loads utf8 w t =
     (if cp_failed t \<or> cp_closed t \<or> strip (fst w) = '''' then t
      else let line = scrub_line (cp_scrubber t) (fst w)
           in case snd w of
                WriteFailed k e \<Rightarrow> capture_fail e (t\<lparr>cp_file := cp_file t @ take k (sink_line line)\<rparr>)
              | Written \<Rightarrow>
                  t\<lparr>cp_file := cp_file t @ sink_line line, cp_opened := True, cp_lines := cp_lines t + 1,
                    cp_meter := feed loads utf8 line (cp_meter t)\<rparr>)"

text \<open>Closing: the local file, which may raise; then, if a line landed, the upload.\<close>

definition capture_close :: "string option \<Rightarrow> (string \<Rightarrow> string \<Rightarrow> string + bool) \<Rightarrow> capture \<Rightarrow> capture" where
  "capture_close closing ship t =
     (if cp_closed t then t
      else let t1 = t\<lparr>cp_closed := True\<rparr>
           in case closing of
                Some e \<Rightarrow> capture_fail e t1
              | None \<Rightarrow>
                  if cp_ships t1 \<and> cp_opened t1
                  then (case ship (cp_key t1) (cp_file t1) of
                          Inl e \<Rightarrow> capture_fail e t1
                        | Inr ok \<Rightarrow> t1\<lparr>cp_stored := Some ok\<rparr>)
                  else t1)"

record index_row =
  ix_key :: string
  ix_complete :: bool
  ix_calls :: "(string, nat) dict"
  ix_bytes :: nat
  ix_repeated :: nat

definition capture_index :: "capture \<Rightarrow> index_row option" where
  "capture_index t =
     (if cp_failed t \<or> mt_broken (cp_meter t) \<or> cp_lines t = 0 \<or> cp_stored t \<noteq> Some True then None
      else Some \<lparr>ix_key = cp_key t, ix_complete = mt_complete (cp_meter t), ix_calls = mt_calls (cp_meter t),
                 ix_bytes = mt_bytes (cp_meter t), ix_repeated = repeated_read_files (cp_meter t)\<rparr>)"

text \<open>\<open>transcript_client.ship\<close>: through the sidecar, or straight to the store. \<open>upload\<close> raises or answers
  with a status and the store header.\<close>

definition STORE_UNCONFIGURED :: string where "STORE_UNCONFIGURED = ''unconfigured''"

definition ship ::
  "string \<Rightarrow> (string \<Rightarrow> string \<Rightarrow> string + int \<times> string option) \<Rightarrow> (string \<Rightarrow> string \<Rightarrow> string option) option
     \<Rightarrow> string \<Rightarrow> string \<Rightarrow> string + bool" where
  "ship fuko_url upload store key content =
     (if strip fuko_url = ''''
      then (case store of
              None \<Rightarrow> Inl ''no transcript store configured''
            | Some put \<Rightarrow> (case put key content of Some e \<Rightarrow> Inl e | None \<Rightarrow> Inr True))
      else (case upload (rstrip_slash (strip fuko_url) @ ''/transcripts/'' @ key) content of
              Inl e \<Rightarrow> Inl e
            | Inr (status, header) \<Rightarrow>
                if status = 503 \<and> header = Some STORE_UNCONFIGURED then Inr False
                else if 200 \<le> status \<and> status < 300 then Inr True
                else Inl (''HTTP '' @ str_int status)))"

section \<open>What lands in the file\<close>

lemma sink_line_nl: "\<exists>x. sink_line line = x @ nl"
  by (auto simp: sink_line_def endswith_def) (metis append_take_drop_id)

lemma contains_sink_line: "CHR 0x0A \<notin> set v \<Longrightarrow> v \<noteq> [] \<Longrightarrow> \<not> contains v line \<Longrightarrow> \<not> contains v (sink_line line)"
  using contains_split [of v line "CHR 0x0A" "[]"] by (auto simp: sink_line_def nl_def)

text \<open>Appending a clean line to a file of whole lines keeps it clean.\<close>

lemma contains_whole_lines:
  "CHR 0x0A \<notin> set v \<Longrightarrow> v \<noteq> [] \<Longrightarrow> f = [] \<or> (\<exists>x. f = x @ nl) \<Longrightarrow> \<not> contains v f \<Longrightarrow> \<not> contains v line
   \<Longrightarrow> \<not> contains v (f @ line)"
proof
  assume a: "CHR 0x0A \<notin> set v" "v \<noteq> []" "f = [] \<or> (\<exists>x. f = x @ nl)" "\<not> contains v f" "\<not> contains v line"
    and c: "contains v (f @ line)"
  from a(3) show False
  proof
    assume "f = []"
    with c a(5) show False by simp
  next
    assume "\<exists>x. f = x @ nl"
    then obtain x where x: "f = x @ nl" ..
    with c have "contains v (x @ CHR 0x0A # line)" by (simp add: nl_def)
    with a(1) have "contains v x \<or> contains v line" by (rule contains_split [rotated])
    moreover have "contains v x \<Longrightarrow> contains v f" using contains_in_context [of v x "[]" nl] x by simp
    ultimately show False using a(4,5) by blast
  qed
qed

definition clean_file :: "string \<Rightarrow> capture \<Rightarrow> bool" where
  "clean_file v t \<longleftrightarrow> \<not> contains v (cp_file t) \<and> (cp_failed t \<or> cp_file t = [] \<or> (\<exists>x. cp_file t = x @ nl))"

lemma capture_fail_simps [simp]:
  "cp_file (capture_fail e t) = cp_file t" "cp_failed (capture_fail e t)" "cp_scrubber (capture_fail e t) = cp_scrubber t"
  by (simp_all add: capture_fail_def)

lemma capture_write_scrubber [simp]: "cp_scrubber (capture_write loads utf8 w t) = cp_scrubber t"
  by (simp add: capture_write_def Let_def split: write_fate.split)

lemma capture_write_skipped: "cp_failed t \<or> cp_closed t \<or> strip (fst w) = [] \<Longrightarrow> capture_write loads utf8 w t = t"
  by (auto simp: capture_write_def)

lemma capture_write_accepted:
  "\<not> (cp_failed t \<or> cp_closed t \<or> strip (fst w) = []) \<Longrightarrow> snd w = Written \<Longrightarrow> capture_write loads utf8 w t =
     t\<lparr>cp_file := cp_file t @ sink_line (scrub_line (cp_scrubber t) (fst w)), cp_opened := True, cp_lines := cp_lines t + 1,
       cp_meter := feed loads utf8 (scrub_line (cp_scrubber t) (fst w)) (cp_meter t)\<rparr>"
  by (simp add: capture_write_def Let_def)

lemma capture_write_refused:
  "\<not> (cp_failed t \<or> cp_closed t \<or> strip (fst w) = []) \<Longrightarrow> snd w = WriteFailed k e \<Longrightarrow> capture_write loads utf8 w t =
     capture_fail e (t\<lparr>cp_file := cp_file t @ take k (sink_line (scrub_line (cp_scrubber t) (fst w)))\<rparr>)"
  by (simp add: capture_write_def Let_def)

lemma capture_write_clean:
  assumes "plain_value secrets v" "registered secrets v" "cp_scrubber t = for_secrets secrets" "clean_file v t"
  shows "clean_file v (capture_write loads utf8 w t)"
proof (cases "cp_failed t \<or> cp_closed t \<or> strip (fst w) = []")
  case True
  with assms(4) show ?thesis by (simp add: capture_write_skipped)
next
  case False
  have v: "CHR 0x0A \<notin> set v" "v \<noteq> []" using assms(1) by (auto simp: plain_value_def unbracketed_def)
  let ?line = "scrub_line (for_secrets secrets) (fst w)"
  have clean: "\<not> contains v (sink_line ?line)"
    using contains_sink_line [OF v] scrub_line_clean [OF assms(1,2)] by blast
  have f: "\<not> contains v (cp_file t)" "cp_file t = [] \<or> (\<exists>x. cp_file t = x @ nl)"
    using assms(4) False by (auto simp: clean_file_def)
  show ?thesis
  proof (cases "snd w")
    case Written
    have "\<not> contains v (cp_file t @ sink_line ?line)" by (rule contains_whole_lines [OF v f(2,1) clean])
    moreover have "\<exists>x. cp_file t @ sink_line ?line = x @ nl" using sink_line_nl [of ?line] by (metis append.assoc)
    ultimately show ?thesis using capture_write_accepted [OF False Written] assms(3) by (simp add: clean_file_def)
  next
    case (WriteFailed k e)
    have "\<not> contains v (take k (sink_line ?line))" using clean contains_prefix by blast
    from contains_whole_lines [OF v f(2,1) this] show ?thesis
      using capture_write_refused [OF False WriteFailed] assms(3) by (simp add: clean_file_def)
  qed
qed

lemma capture_run_clean:
  "plain_value secrets v \<Longrightarrow> registered secrets v \<Longrightarrow> cp_scrubber t = for_secrets secrets \<Longrightarrow> clean_file v t
   \<Longrightarrow> clean_file v (fold (capture_write loads utf8) writes t)"
proof (induction writes arbitrary: t)
  case (Cons w writes)
  show ?case using Cons(1) [OF Cons(2,3) _ capture_write_clean [OF Cons(2-5)]] Cons(4) by simp
qed simp

text \<open>A text that ends in a fragment of a value, at least \<open>MIN_FRAGMENT\<close> characters of its start.\<close>

definition cut_tail :: "string \<Rightarrow> string \<Rightarrow> bool" where
  "cut_tail v t = list_ex (\<lambda>k. endswith (rstrip_marks t) (take k v)) [MIN_FRAGMENT ..< length v]"

lemma ambient_secret_registered:
  assumes "map_of osv k = Some v" "credential sp k" "v \<noteq> ''''"
  shows "(k, v) \<in> set (transcript_secrets osv sp h token)"
proof -
  from assms(1) have "env_get osv k [] = v" by (simp add: env_get_def)
  with ambient_secrets_cover [OF ambient_secret_listed [OF assms(2,1)], of "[]" osv] assms(3)
  have "(k, v) \<in> set (ambient_secrets osv [] (ambient_secret_names osv sp))" by simp
  then show ?thesis unfolding transcript_secrets_def set_append by blast
qed


section \<open>What the index says\<close>

definition line_events :: "(string \<Rightarrow> nat + json) \<Rightarrow> string list \<Rightarrow> (string, json) dict list" where
  "line_events loads lines = concat (map (\<lambda>l. case loads l of Inr (JObj e) \<Rightarrow> [e] | _ \<Rightarrow> []) lines)"

definition of_kind :: "string \<Rightarrow> (string, json) dict \<Rightarrow> bool" where
  "of_kind kind e \<longleftrightarrow> map_of e ''type'' = Some (JStr kind)"

definition objects_of_kind :: "string \<Rightarrow> json list \<Rightarrow> (string, json) dict list" where
  "objects_of_kind kind blocks =
     concat (map (\<lambda>b. case b of JObj d \<Rightarrow> if of_kind kind d then [d] else [] | _ \<Rightarrow> []) blocks)"

text \<open>The tool calls of a feed, and the results it was given.\<close>

definition calls_of :: "(string, json) dict list \<Rightarrow> (string, json) dict list" where
  "calls_of events = concat (map (\<lambda>e. if of_kind ''assistant'' e then objects_of_kind ''tool_use'' (event_blocks e) else []) events)"

definition results_of :: "(string, json) dict list \<Rightarrow> (string, json) dict list" where
  "results_of events = concat (map (\<lambda>e. if of_kind ''user'' e then objects_of_kind ''tool_result'' (event_blocks e) else []) events)"

definition paths_of :: "(string, json) dict list \<Rightarrow> string list" where
  "paths_of calls = concat (map (\<lambda>d. if tool_name d = READ_TOOL
     then (case read_path (map_of d ''input'') of None \<Rightarrow> [] | Some p \<Rightarrow> [p]) else []) calls)"

lemma tally_bump: "tally (bump k d) j = tally d j + (if j = k then 1 else 0)"
  by (simp add: tally_def bump_def map_of_dict_set)

lemma fold_bump: "tally (fold bump ks d) j = tally d j + count_list ks j"
  by (induction ks arbitrary: d) (simp_all add: tally_bump)

lemma fold_bump_distinct: "distinct (map fst d) \<Longrightarrow> distinct (map fst (fold bump ks d))"
  by (induction ks arbitrary: d) (simp_all add: bump_def distinct_dict_set)

lemma tally_entry: "distinct (map fst d) \<Longrightarrow> e \<in> set d \<Longrightarrow> tally d (fst e) = snd e"
  by (cases e) (simp add: tally_def)

lemma call_blocks_fold:
  "fold call_block blocks m =
     m\<lparr>mt_calls := fold bump (map tool_name (objects_of_kind ''tool_use'' blocks)) (mt_calls m),
       mt_reads := fold bump (paths_of (objects_of_kind ''tool_use'' blocks)) (mt_reads m)\<rparr>"
proof (induction blocks arbitrary: m)
  case Nil
  show ?case by (simp add: objects_of_kind_def paths_of_def)
next
  case (Cons b blocks)
  show ?case
  proof (cases b)
    case (JObj d)
    show ?thesis
    proof (cases "of_kind ''tool_use'' d")
      case True
      then have o: "objects_of_kind ''tool_use'' (b # blocks) = d # objects_of_kind ''tool_use'' blocks"
        using JObj by (simp add: objects_of_kind_def)
      from True JObj have "call_block b m = m\<lparr>mt_calls := bump (tool_name d) (mt_calls m),
          mt_reads := fold bump (paths_of [d]) (mt_reads m)\<rparr>"
        by (simp add: call_block_def of_kind_def paths_of_def Let_def split: option.split)
      then show ?thesis unfolding o using Cons by (simp add: paths_of_def)
    next
      case False
      with JObj have "call_block b m = m" "objects_of_kind ''tool_use'' (b # blocks) = objects_of_kind ''tool_use'' blocks"
        by (simp_all add: call_block_def of_kind_def objects_of_kind_def)
      with Cons show ?thesis by simp
    qed
  qed (use Cons in \<open>simp_all add: call_block_def objects_of_kind_def\<close>)
qed

text \<open>Encoding the results of a feed never raises, and its bytes.\<close>

definition measurable :: "(string \<Rightarrow> nat option) \<Rightarrow> (string, json) dict list \<Rightarrow> bool" where
  "measurable utf8 results = list_all (\<lambda>d. text_bytes utf8 (map_of d ''content'') \<noteq> None) results"

definition bytes_of :: "(string \<Rightarrow> nat option) \<Rightarrow> (string, json) dict list \<Rightarrow> nat" where
  "bytes_of utf8 results = sum_list (map (\<lambda>d. case text_bytes utf8 (map_of d ''content'') of None \<Rightarrow> 0 | Some n \<Rightarrow> n) results)"

lemma result_blocks_cases:
  "let rs = objects_of_kind ''tool_result'' blocks
   in snd (result_blocks utf8 blocks n) = (\<not> measurable utf8 rs)
     \<and> (measurable utf8 rs \<longrightarrow> fst (result_blocks utf8 blocks n) = n + bytes_of utf8 rs)"
proof (induction blocks arbitrary: n)
  case Nil
  show ?case by (simp add: objects_of_kind_def measurable_def bytes_of_def)
next
  case (Cons b blocks)
  show ?case
  proof (cases b)
    case (JObj d)
    show ?thesis
    proof (cases "of_kind ''tool_result'' d")
      case True
      with JObj have o: "objects_of_kind ''tool_result'' (b # blocks) = d # objects_of_kind ''tool_result'' blocks"
        by (simp add: objects_of_kind_def)
      show ?thesis
      proof (cases "text_bytes utf8 (map_of d ''content'')")
        case None
        with True JObj show ?thesis unfolding o by (simp add: of_kind_def measurable_def)
      next
        case (Some k)
        with True JObj have "result_blocks utf8 (b # blocks) n = result_blocks utf8 blocks (n + k)" by (simp add: of_kind_def)
        with Some Cons [of "n + k"] show ?thesis unfolding o by (simp add: measurable_def bytes_of_def Let_def)
      qed
    next
      case False
      with JObj have "result_blocks utf8 (b # blocks) n = result_blocks utf8 blocks n"
        "objects_of_kind ''tool_result'' (b # blocks) = objects_of_kind ''tool_result'' blocks"
        by (simp_all add: of_kind_def objects_of_kind_def)
      with Cons show ?thesis by simp
    qed
  qed (use Cons in \<open>simp_all add: objects_of_kind_def\<close>)
qed

definition metered :: "(string \<Rightarrow> nat option) \<Rightarrow> (string, json) dict list \<Rightarrow> meter \<Rightarrow> meter \<Rightarrow> bool" where
  "metered utf8 events m m' \<longleftrightarrow>
     mt_calls m' = fold bump (map tool_name (calls_of events)) (mt_calls m)
     \<and> mt_reads m' = fold bump (paths_of (calls_of events)) (mt_reads m)
     \<and> mt_complete m' = (mt_complete m \<or> list_ex (of_kind ''result'') events)
     \<and> mt_broken m' = (mt_broken m \<or> \<not> measurable utf8 (results_of events))
     \<and> (measurable utf8 (results_of events) \<longrightarrow> mt_bytes m' = mt_bytes m + bytes_of utf8 (results_of events))"

lemma metered_trans: "metered utf8 a m m1 \<Longrightarrow> metered utf8 b m1 m2 \<Longrightarrow> metered utf8 (a @ b) m m2"
  by (auto simp: metered_def calls_of_def results_of_def paths_of_def measurable_def bytes_of_def)

lemma metered_none: "metered utf8 [] m m"
  by (simp add: metered_def calls_of_def results_of_def paths_of_def measurable_def bytes_of_def)

lemma feed_metered: "metered utf8 (line_events loads [line]) m (feed loads utf8 line m)"
proof (cases "\<exists>e. loads line = Inr (JObj e)")
  case False
  then have "line_events loads [line] = [] \<and> feed loads utf8 line m = m"
    by (auto simp: line_events_def feed_def split: sum.split json.split)
  then show ?thesis by (simp add: metered_none)
next
  case True
  then obtain e where e: "loads line = Inr (JObj e)" ..
  then have ev: "line_events loads [line] = [e]" by (simp add: line_events_def)
  consider (assistant) "of_kind ''assistant'' e" | (user) "of_kind ''user'' e" | (result) "of_kind ''result'' e"
    | (other) "\<not> of_kind ''assistant'' e" "\<not> of_kind ''user'' e" "\<not> of_kind ''result'' e" by blast
  then show ?thesis
  proof cases
    case assistant
    then have "\<not> of_kind ''user'' e" "\<not> of_kind ''result'' e" by (simp_all add: of_kind_def)
    moreover have "feed loads utf8 line m = fold call_block (event_blocks e) m" using e assistant by (simp add: feed_def of_kind_def)
    ultimately show ?thesis unfolding ev metered_def call_blocks_fold using assistant
      by (simp add: calls_of_def results_of_def measurable_def bytes_of_def call_blocks_fold)
  next
    case user
    then have k: "\<not> of_kind ''assistant'' e" "\<not> of_kind ''result'' e" by (simp_all add: of_kind_def)
    obtain n raised where r: "result_blocks utf8 (event_blocks e) (mt_bytes m) = (n, raised)" by fastforce
    have "feed loads utf8 line m = m\<lparr>mt_bytes := n, mt_broken := mt_broken m \<or> raised\<rparr>"
      using e user r by (simp add: feed_def of_kind_def)
    moreover note result_blocks_cases [of "event_blocks e" utf8 "mt_bytes m", unfolded r Let_def fst_conv snd_conv]
    ultimately show ?thesis unfolding ev metered_def using user k by (simp add: calls_of_def results_of_def paths_of_def)
  next
    case result
    then have k: "\<not> of_kind ''assistant'' e" "\<not> of_kind ''user'' e" by (simp_all add: of_kind_def)
    have "feed loads utf8 line m = m\<lparr>mt_complete := True\<rparr>" using e result by (simp add: feed_def of_kind_def)
    then show ?thesis unfolding ev metered_def using result k
      by (simp add: calls_of_def results_of_def paths_of_def measurable_def bytes_of_def)
  next
    case other
    have "feed loads utf8 line m = m" using e other by (simp add: feed_def of_kind_def)
    then show ?thesis unfolding ev metered_def using other
      by (simp add: calls_of_def results_of_def paths_of_def measurable_def bytes_of_def)
  qed
qed

lemma feeds_metered: "metered utf8 (line_events loads lines) m (fold (feed loads utf8) lines m)"
proof (induction lines arbitrary: m)
  case Nil
  show ?case by (simp add: line_events_def metered_none)
next
  case (Cons l lines)
  have "line_events loads (l # lines) = line_events loads [l] @ line_events loads lines" by (simp add: line_events_def)
  with metered_trans [OF feed_metered [of utf8 loads l m] Cons [of "feed loads utf8 l m"]] show ?case by simp
qed

text \<open>The lines a capture stores, scrubbed, when every write succeeds.\<close>

definition kept_lines :: "scrubber \<Rightarrow> (string \<times> write_fate) list \<Rightarrow> string list" where
  "kept_lines reps writes = map (\<lambda>w. scrub_line reps (fst w)) (filter (\<lambda>w. strip (fst w) \<noteq> []) writes)"

definition all_written :: "(string \<times> write_fate) list \<Rightarrow> bool" where
  "all_written writes = list_all (\<lambda>w. if strip (fst w) = [] then True else snd w = Written) writes"

lemma capture_fields [simp]:
  "cp_key (capture_write loads utf8 w t) = cp_key t" "cp_ships (capture_write loads utf8 w t) = cp_ships t"
  "cp_closed (capture_write loads utf8 w t) = cp_closed t" "cp_stored (capture_write loads utf8 w t) = cp_stored t"
  by (simp_all add: capture_write_def capture_fail_def Let_def split: write_fate.split)

lemma capture_run_fields [simp]:
  "cp_key (fold (capture_write loads utf8) ws t) = cp_key t" "cp_ships (fold (capture_write loads utf8) ws t) = cp_ships t"
  "cp_closed (fold (capture_write loads utf8) ws t) = cp_closed t" "cp_stored (fold (capture_write loads utf8) ws t) = cp_stored t"
  "cp_scrubber (fold (capture_write loads utf8) ws t) = cp_scrubber t"
  by (induction ws arbitrary: t) simp_all

text \<open>The capture is inert after its first failure; until then it holds every line.\<close>

lemma capture_run_state:
  fixes loads utf8 key secrets ships writes
  defines "t \<equiv> fold (capture_write loads utf8) writes (fresh_capture key secrets ships)"
    and "ls \<equiv> kept_lines (for_secrets secrets) writes"
  shows "cp_failed t = (\<not> all_written writes)
    \<and> (all_written writes \<longrightarrow> cp_file t = concat (map sink_line ls) \<and> cp_lines t = length ls
        \<and> cp_opened t = (ls \<noteq> []) \<and> cp_meter t = fold (feed loads utf8) ls meter_start)"
  unfolding t_def ls_def
proof (induction writes rule: rev_induct)
  case Nil
  show ?case by (simp add: fresh_capture_def all_written_def kept_lines_def)
next
  case (snoc w writes)
  let ?t = "fold (capture_write loads utf8) writes (fresh_capture key secrets ships)"
  have f: "cp_closed ?t = False" "cp_scrubber ?t = for_secrets secrets" by (simp_all add: fresh_capture_def)
  have fold: "fold (capture_write loads utf8) (writes @ [w]) (fresh_capture key secrets ships) = capture_write loads utf8 w ?t" by simp
  show ?case
  proof (cases "cp_failed ?t \<or> strip (fst w) = []")
    case True
    then have "capture_write loads utf8 w ?t = ?t" by (intro capture_write_skipped) blast
    with True snoc show ?thesis unfolding fold by (auto simp: all_written_def kept_lines_def)
  next
    case False
    then have go: "\<not> (cp_failed ?t \<or> cp_closed ?t \<or> strip (fst w) = [])" using f by blast
    have aw: "all_written writes" using snoc False by blast
    have ls: "kept_lines (for_secrets secrets) (writes @ [w]) = kept_lines (for_secrets secrets) writes @ [scrub_line (for_secrets secrets) (fst w)]"
      using False by (simp add: kept_lines_def)
    show ?thesis
    proof (cases "snd w")
      case Written
      with False aw have "all_written (writes @ [w])" by (simp add: all_written_def)
      with snoc aw show ?thesis unfolding fold ls capture_write_accepted [OF go Written] f(2)
        using False by simp
    next
      case (WriteFailed k e)
      with False have "\<not> all_written (writes @ [w])" by (simp add: all_written_def)
      then show ?thesis unfolding fold capture_write_refused [OF go WriteFailed] by simp
    qed
  qed
qed

lemma repeated_files:
  "repeated_read_files (m\<lparr>mt_reads := fold bump ps []\<rparr>) = length (filter (\<lambda>p. 1 < count_list ps p) (remdups ps))"
proof -
  let ?d = "fold bump ps []"
  have d: "distinct (map fst ?d)" by (rule fold_bump_distinct) simp
  have t: "tally ?d p = count_list ps p" for p unfolding fold_bump by (simp add: tally_def)
  have "fst ` set (filter (\<lambda>e. 1 < snd e) ?d) = set (filter (\<lambda>p. 1 < count_list ps p) (remdups ps))"
  proof (intro set_eqI iffI)
    fix p
    assume "p \<in> fst ` set (filter (\<lambda>e. 1 < snd e) ?d)"
    then obtain e where e: "e \<in> set ?d" "1 < snd e" "fst e = p" by auto
    with tally_entry [OF d e(1)] t [of p] have "1 < count_list ps p" by simp
    moreover from this have "p \<in> set ps" using count_notin [of p ps] by (cases "p \<in> set ps") simp_all
    ultimately show "p \<in> set (filter (\<lambda>p. 1 < count_list ps p) (remdups ps))" by simp
  next
    fix p
    assume "p \<in> set (filter (\<lambda>p. 1 < count_list ps p) (remdups ps))"
    then have c: "1 < tally ?d p" using t [of p] by simp
    then obtain n where n: "map_of ?d p = Some n" by (auto simp: tally_def split: option.splits)
    with c have "1 < n" by (simp add: tally_def)
    with map_of_SomeD [OF n] show "p \<in> fst ` set (filter (\<lambda>e. 1 < snd e) ?d)" by force
  qed
  moreover have "distinct (map fst (filter (\<lambda>e. 1 < snd e) ?d))" using d by (rule distinct_map_filter)
  ultimately have "length (map fst (filter (\<lambda>e. 1 < snd e) ?d)) = length (filter (\<lambda>p. 1 < count_list ps p) (remdups ps))"
    by (metis distinct_card distinct_filter distinct_remdups list.set_map)
  then show ?thesis by (simp add: repeated_read_files_def)
qed

lemma metered_start:
  assumes "metered utf8 events meter_start m"
  shows "mt_broken m = (\<not> measurable utf8 (results_of events))" "mt_complete m = list_ex (of_kind ''result'') events"
    "tally (mt_calls m) k = count_list (map tool_name (calls_of events)) k"
    "measurable utf8 (results_of events) \<Longrightarrow> mt_bytes m = bytes_of utf8 (results_of events)"
    "repeated_read_files m = length (filter (\<lambda>p. 1 < count_list (paths_of (calls_of events)) p) (remdups (paths_of (calls_of events))))"
proof -
  from assms have m: "mt_calls m = fold bump (map tool_name (calls_of events)) []" "mt_reads m = fold bump (paths_of (calls_of events)) []"
    by (simp_all add: metered_def meter_start_def)
  show "tally (mt_calls m) k = count_list (map tool_name (calls_of events)) k" unfolding m(1) fold_bump by (simp add: tally_def)
  show "repeated_read_files m = length (filter (\<lambda>p. 1 < count_list (paths_of (calls_of events)) p) (remdups (paths_of (calls_of events))))"
    using repeated_files [of "paths_of (calls_of events)" m] m(2) by (simp add: repeated_read_files_def)
qed (use assms in \<open>simp_all add: metered_def meter_start_def\<close>)

lemma capture_index_cases:
  fixes writes secrets loads ships key utf8 upload closing
  defines "ls \<equiv> kept_lines (for_secrets secrets) writes"
  defines "events \<equiv> line_events loads ls"
  defines "t \<equiv> capture_close closing upload (fold (capture_write loads utf8) writes (fresh_capture key secrets ships))"
  shows "capture_index t =
     (if ships \<and> all_written writes \<and> ls \<noteq> [] \<and> closing = None \<and> upload key (concat (map sink_line ls)) = Inr True
        \<and> measurable utf8 (results_of events)
      then Some \<lparr>ix_key = key, ix_complete = mt_complete (fold (feed loads utf8) ls meter_start),
        ix_calls = mt_calls (fold (feed loads utf8) ls meter_start), ix_bytes = mt_bytes (fold (feed loads utf8) ls meter_start),
        ix_repeated = repeated_read_files (fold (feed loads utf8) ls meter_start)\<rparr>
      else None)"
proof -
  let ?u = "fold (capture_write loads utf8) writes (fresh_capture key secrets ships)"
  have u: "cp_key ?u = key" "cp_ships ?u = ships" "cp_closed ?u = False" "cp_stored ?u = None"
    by (simp_all add: fresh_capture_def)
  note st = capture_run_state [of loads utf8 writes key secrets ships, folded ls_def]
  note b = metered_start(1) [OF feeds_metered [of utf8 loads ls meter_start], folded events_def]
  show ?thesis
  proof (cases "all_written writes")
    case False
    with st have f: "cp_failed ?u" by blast
    then have "cp_failed t" unfolding t_def capture_close_def Let_def
      by (auto simp: capture_fail_def u split: option.split sum.split)
    with False show ?thesis by (simp add: capture_index_def)
  next
    case True
    with st have s: "\<not> cp_failed ?u" "cp_file ?u = concat (map sink_line ls)" "cp_lines ?u = length ls"
      "cp_opened ?u = (ls \<noteq> [])" "cp_meter ?u = fold (feed loads utf8) ls meter_start" by blast+
    show ?thesis
    proof (cases closing)
      case (Some e)
      then have "cp_failed t" unfolding t_def capture_close_def by (simp add: fresh_capture_def)
      with Some show ?thesis by (simp add: capture_index_def)
    next
      case None
      show ?thesis
      proof (cases "ships \<and> ls \<noteq> []")
        case False
        then have "t = ?u\<lparr>cp_closed := True\<rparr>" unfolding t_def capture_close_def Let_def using u s None by auto
        with False u show ?thesis by (auto simp: capture_index_def)
      next
        case go: True
        show ?thesis
        proof (cases "upload key (concat (map sink_line ls))")
          case (Inl e)
          then have "cp_failed t" unfolding t_def capture_close_def Let_def using u s None go by simp
          with Inl show ?thesis by (simp add: capture_index_def)
        next
          case (Inr ok)
          then have t: "t = ?u\<lparr>cp_closed := True, cp_stored := Some ok\<rparr>"
            unfolding t_def capture_close_def Let_def using u s None go by simp
          show ?thesis using Inr go None True u s b unfolding t by (simp add: capture_index_def)
        qed
      qed
    qed
  qed
qed

text \<open>C18: the index row describes the bytes that were stored. A row exists exactly when every line of the
  run was written, the file closed and was accepted by shared storage, and every tool result could be
  measured; its figures are then those of the stored lines: the calls of each tool, the bytes of the
  tool results, the files read more than once, and whether the feed reached its end.\<close>

theorem index_describes_the_stored:
  "let ls = kept_lines (for_secrets secrets) writes; events = line_events loads ls;
       paths = paths_of (calls_of events);
       row = capture_index (capture_close closing upload (fold (capture_write loads utf8) writes (fresh_capture key secrets ships)))
   in (row \<noteq> None) =
        (ships \<and> all_written writes \<and> ls \<noteq> [] \<and> closing = None \<and> upload key (concat (map sink_line ls)) = Inr True
          \<and> measurable utf8 (results_of events))
      \<and> (case row of None \<Rightarrow> True
         | Some ix \<Rightarrow> ix_key ix = key
            \<and> (\<forall>tool. tally (ix_calls ix) tool = count_list (map tool_name (calls_of events)) tool)
            \<and> ix_bytes ix = bytes_of utf8 (results_of events)
            \<and> ix_repeated ix = length (filter (\<lambda>p. 1 < count_list paths p) (remdups paths))
            \<and> ix_complete ix = list_ex (of_kind ''result'') events)"
  unfolding Let_def capture_index_cases
  using metered_start [OF feeds_metered [of utf8 loads "kept_lines (for_secrets secrets) writes" meter_start]] by simp

section \<open>Where a transcript lands\<close>

text \<open>The reasons a directory is refused for.\<close>

datatype dir_refusal = Unresolvable string | RelativeRoot | RootDirectory | HoldsNewline | Padded | HoldsBackslash

text \<open>\<open>Path.expanduser\<close> and \<open>Path.resolve\<close>, which may raise.\<close>

type_synonym path_fn = "string \<Rightarrow> string + string"

definition transcript_dir :: "path_fn \<Rightarrow> path_fn \<Rightarrow> string \<Rightarrow> dir_refusal + string option" where
  "transcript_dir expand resolve setting =
     (if setting = '''' then Inr None
      else case expand setting of
        Inl e \<Rightarrow> Inl (Unresolvable e)
      | Inr x \<Rightarrow>
          (case resolve x of
             Inl e \<Rightarrow> Inl (Unresolvable e)
           | Inr d \<Rightarrow>
               if d = [slash] then Inl RootDirectory
               else if CHR 0x0A \<in> set d then Inl HoldsNewline
               else if d \<noteq> strip d then Inl Padded
               else if BACKSLASH_CHAR \<in> set d then Inl HoldsBackslash
               else Inr (Some d)))"

record blob_config =
  bc_backend :: string
  bc_root :: string
  bc_bucket :: string
  bc_prefix :: string
  bc_endpoint_url :: "string option"
  bc_creds_env_prefix :: string

definition local_blob_root :: "path_fn \<Rightarrow> path_fn \<Rightarrow> ('a) blob_config_scheme \<Rightarrow> dir_refusal + string option" where
  "local_blob_root expand resolve cfg =
     (if bc_backend cfg \<noteq> ''file'' \<or> bc_root cfg = '''' then Inr None
      else case expand (bc_root cfg) of
        Inl e \<Rightarrow> Inl (Unresolvable e)
      | Inr x \<Rightarrow>
          (case resolve x of
             Inl e \<Rightarrow> Inl (Unresolvable e)
           | Inr d \<Rightarrow>
               if \<not> startswith x [slash] then Inl RelativeRoot
               else if d = [slash] then Inl RootDirectory
               else if CHR 0x0A \<in> set d then Inl HoldsNewline
               else if d \<noteq> strip d then Inl Padded
               else if BACKSLASH_CHAR \<in> set d then Inl HoldsBackslash
               else Inr (Some d)))"

definition usable :: "dir_refusal + string option \<Rightarrow> string list" where
  "usable r = (case r of Inr (Some d) \<Rightarrow> [d] | _ \<Rightarrow> [])"

text \<open>\<open>invoke\<close>'s \<open>deny_dirs\<close>: both places a transcript can land on this host.\<close>

definition capture_dirs :: "path_fn \<Rightarrow> path_fn \<Rightarrow> string \<Rightarrow> ('a) blob_config_scheme \<Rightarrow> string list" where
  "capture_dirs expand resolve setting cfg =
     usable (transcript_dir expand resolve setting) @ usable (local_blob_root expand resolve cfg)"

definition upload_target :: "string \<Rightarrow> ('a) blob_config_scheme \<Rightarrow> string" where
  "upload_target fuko_url cfg =
     (if strip fuko_url \<noteq> '''' then ''sidecar'' else if bc_backend cfg \<noteq> '''' then ''store'' else '''')"

text \<open>The capture and the line that announces it.\<close>

definition open_transcript ::
  "path_fn \<Rightarrow> path_fn \<Rightarrow> string \<Rightarrow> string \<Rightarrow> ('a) blob_config_scheme \<Rightarrow> (string \<times> string) list \<Rightarrow> string \<Rightarrow> string
     \<Rightarrow> dir_refusal + (capture \<times> string) option" where
  "open_transcript expand resolve setting fuko_url cfg secrets label key =
     (case transcript_dir expand resolve setting of
        Inl r \<Rightarrow> Inl r
      | Inr None \<Rightarrow> Inr None
      | Inr (Some d) \<Rightarrow>
          (let target = upload_target fuko_url cfg; path = d @ ''/'' @ key @ ''.ndjson'';
               shown_path = (if target \<noteq> '''' then path @ '' -> '' @ target else path)
           in Inr (Some (fresh_capture key secrets (target \<noteq> ''''),
                if label \<noteq> '''' then ''fuko: agentic '' @ label @ '' transcript '' @ shown_path
                else ''fuko: transcript '' @ shown_path))))"

text \<open>What pathlib promises of a resolved path: it starts with one slash and ends in none.\<close>

definition resolved_path :: "string \<Rightarrow> bool" where
  "resolved_path d \<longleftrightarrow> d = [slash] \<or> startswith d [slash] \<and> \<not> startswith d [slash, slash] \<and> last d \<noteq> slash"

definition canonical :: "path_fn \<Rightarrow> bool" where
  "canonical resolve \<longleftrightarrow> (\<forall>p d. resolve p = Inr d \<longrightarrow> resolved_path d)"

lemma capture_dir_shape:
  assumes "canonical resolve" "d \<in> set (capture_dirs expand resolve setting cfg)"
  shows "resolved_path d" "d \<noteq> [slash]" "CHR 0x0A \<notin> set d" "strip d = d" "BACKSLASH_CHAR \<notin> set d"
  using assms unfolding capture_dirs_def usable_def transcript_dir_def local_blob_root_def canonical_def
  by (auto split: sum.splits option.splits if_splits)

lemma resolved_rule:
  assumes "resolved_path d" "d \<noteq> [slash]"
  shows "rstrip_slash d = d" "startswith d [slash]" "read_rule (d, True) = ''Read(/'' @ d @ ''/**)''"
proof -
  from assms obtain x where d: "d = slash # x" "x \<noteq> []" "last d \<noteq> slash" "\<not> startswith d [slash, slash]"
    by (cases d) (auto simp: resolved_path_def startswith_def)
  then show "startswith d [slash]" by (simp add: startswith_def)
  from d(1) have "d \<noteq> []" by simp
  then obtain y c where y: "d = y @ [c]" by (metis append_butlast_last_id)
  with d(3) have "c \<noteq> slash" by simp
  then show "rstrip_slash d = d" unfolding y rstrip_slash_def by simp
  from d(1,2,4) have "lstrip_slash d = x" by (cases x) (auto simp: lstrip_slash_def startswith_def)
  with d(1) show "read_rule (d, True) = ''Read(/'' @ d @ ''/**)''" by (simp add: read_rule_def slash_def)
qed

lemma transcript_dir_candidate:
  assumes "map_of e ENV_TRANSCRIPT_DENY_DIR = Some (join nl ds)" "d \<in> set ds"
    and "\<And>x. x \<in> set ds \<Longrightarrow> CHR 0x0A \<notin> set x"
    and "strip d = d" "BACKSLASH_CHAR \<notin> set d" "rstrip_slash d = d" "d \<noteq> []"
  shows "(d, True) \<in> set (fst (transcript_part e))"
proof -
  have "split_char (CHR 0x0A) (join nl ds) = ds" using assms(2,3) by (intro split_join_nl) auto
  moreover have "map (\<lambda>c. if c = BACKSLASH_CHAR then slash else c) d = d" using assms(5) by (intro map_eq_id_on) auto
  ultimately show ?thesis using assms unfolding transcript_part_def Let_def env_get_def
    by (force simp: image_iff)
qed


text \<open>The spelling the feed really uses is missed: Python escapes what is not ASCII, the feed's
  \<open>JSON.stringify\<close> does not. A value with a quote and a letter outside ASCII is written through.\<close>

definition accented :: string where "accented = [CHR ''k'', CHR 0x22, CHR 0xE9, CHR ''x'']"

lemma accented_value_is_written:
  "scrub_line (for_secrets [(''KEY'', accented)]) ([CHR ''k'', BACKSLASH_CHAR, CHR 0x22, CHR 0xE9, CHR ''x''] @ nl)
     = [CHR ''k'', BACKSLASH_CHAR, CHR 0x22, CHR 0xE9, CHR ''x''] @ nl"
  by code_simp

section \<open>Witnesses\<close>

definition sample_writes :: "(string \<times> write_fate) list" where
  "sample_writes = [(''a k2-secret b'' @ nl, Written), (''tail k2-se'', Written)]"

lemma sample_secret:
  "map_of [(''ZAI_KEY'', ''k2-secret'')] ''ZAI_KEY'' = Some ''k2-secret''" "credential '''' ''ZAI_KEY''"
  "plain_value (transcript_secrets [(''ZAI_KEY'', ''k2-secret'')] '''' [] '''') ''k2-secret''"
  by code_simp+


definition sample_resolve :: "string \<Rightarrow> string + string" where
  "sample_resolve p = (if resolved_path p then Inr p else Inl ''relative'')"

definition sample_blobs :: blob_config where
  "sample_blobs = \<lparr>bc_backend = '''', bc_root = '''', bc_bucket = '''', bc_prefix = '''', bc_endpoint_url = None,
     bc_creds_env_prefix = ''FUKO_S3''\<rparr>"


end
