(* ===== verification/Object_Store.thy ===== *)
theory Object_Store
  imports Transcript
begin

text \<open>
  \<open>sidecar/objectstore.py\<close> and the read and write cycles of \<open>sidecar/sqlite_store.py\<close>: one mutable
  object under optimistic concurrency, and many write-once blobs. The promises the clients rely on
  are the locales \<open>versioned_object\<close> and \<open>write_once\<close>; the local-file stores interpret them. The S3
  client is a parameter, with what the code relies on of a bucket as \<open>bucket_contract\<close>; the digest
  \<open>sha256\<close> is a parameter.
\<close>

section \<open>One mutable object\<close>

datatype save_error = PreconditionFailed string | SaveRaised string

type_synonym 't loaded = "string option \<times> 't option"

text \<open>\<open>FileObjectStore\<close>: the file's content, if it exists.\<close>

definition file_load :: "(string \<Rightarrow> string) \<Rightarrow> string option \<Rightarrow> string + string loaded" where
  "file_load sha f = Inr (f, map_option sha f)"

text \<open>The checks of \<open>save\<close>, then its write.\<close>

definition file_check :: "(string \<Rightarrow> string) \<Rightarrow> string option \<Rightarrow> string option \<Rightarrow> string option" where
  "file_check sha token f =
     (case (token, f) of
        (None, Some _) \<Rightarrow> Some ''object already exists''
      | (Some _, None) \<Rightarrow> Some ''object deleted since load''
      | (Some t, Some d) \<Rightarrow> if sha d \<noteq> t then Some ''object changed since load'' else None
      | (None, None) \<Rightarrow> None)"

definition file_save :: "(string \<Rightarrow> string) \<Rightarrow> string \<Rightarrow> string option \<Rightarrow> string option
    \<Rightarrow> (save_error + string) \<times> string option" where
  "file_save sha d token f =
     (case file_check sha token f of
        Some m \<Rightarrow> (Inl (PreconditionFailed m), f)
      | None \<Rightarrow> (Inr (sha d), Some d))"

text \<open>A client error, by what \<open>_error_code\<close> reads of it.\<close>

record client_error =
  ce_code :: "string option"
  ce_status :: "int option"
  ce_message :: string

definition error_code :: "client_error \<Rightarrow> string" where
  "error_code e =
     (case ce_code e of None \<Rightarrow> '''' | Some c \<Rightarrow> c) @ '':''
     @ (case ce_status e of None \<Rightarrow> ''None'' | Some n \<Rightarrow> str_int n)"

definition is_missing :: "client_error \<Rightarrow> bool" where
  "is_missing e = (contains ''NoSuchKey'' (error_code e) \<or> contains ''404'' (error_code e))"

definition is_refused :: "client_error \<Rightarrow> bool" where
  "is_refused e = (contains ''PreconditionFailed'' (error_code e) \<or> contains ''412'' (error_code e)
     \<or> contains ''PreconditionRequired'' (error_code e))"

text \<open>The condition a \<open>PutObject\<close> carries.\<close>

datatype condition = IfNoneMatch | IfMatch string

type_synonym 's bucket_get = "'s \<Rightarrow> client_error + string \<times> string"
type_synonym 's bucket_put = "condition \<Rightarrow> string \<Rightarrow> 's \<Rightarrow> (client_error + string) \<times> 's"

definition s3_load :: "'s bucket_get \<Rightarrow> 's \<Rightarrow> string + string loaded" where
  "s3_load get s =
     (case get s of
        Inr (d, etag) \<Rightarrow> Inr (Some d, Some etag)
      | Inl e \<Rightarrow> if is_missing e then Inr (None, None) else Inl (ce_message e))"

definition s3_save :: "'s bucket_put \<Rightarrow> string \<Rightarrow> string option \<Rightarrow> 's \<Rightarrow> (save_error + string) \<times> 's" where
  "s3_save put d token s =
     (case put (case token of None \<Rightarrow> IfNoneMatch | Some t \<Rightarrow> IfMatch t) d s of
        (Inr etag, s') \<Rightarrow> (Inr etag, s')
      | (Inl e, s') \<Rightarrow>
          (Inl (if is_refused e
                then PreconditionFailed ''conditional put failed (object changed)''
                else SaveRaised (ce_message e)), s'))"

section \<open>The cycles of the knowledge file\<close>

definition MAX_RETRIES :: nat where "MAX_RETRIES = 5"

datatype cycle_error = LostRaces | CycleRaised string

text \<open>\<open>_mutate\<close>: \<open>act k\<close> is the callback's \<open>k\<close>-th last run on the downloaded bytes, from its result and the
  new bytes; \<open>env k\<close> is what other writers do between that download and the upload.\<close>

fun mutate_from ::
  "('s \<Rightarrow> string + 't loaded) \<Rightarrow> (string \<Rightarrow> 't option \<Rightarrow> 's \<Rightarrow> (save_error + 't) \<times> 's)
     \<Rightarrow> (nat \<Rightarrow> string option \<Rightarrow> string + 'r \<times> string) \<Rightarrow> (nat \<Rightarrow> 's \<Rightarrow> 's) \<Rightarrow> nat \<Rightarrow> 's \<Rightarrow> (cycle_error + 'r) \<times> 's" where
  "mutate_from load save act env 0 s = (Inl LostRaces, s)"
| "mutate_from load save act env (Suc n) s =
     (case load s of
        Inl e \<Rightarrow> (Inl (CycleRaised e), s)
      | Inr (d, token) \<Rightarrow>
          (case act n d of
             Inl e \<Rightarrow> (Inl (CycleRaised e), s)
           | Inr (r, new) \<Rightarrow>
               (case save new token (env n s) of
                  (Inr t, s') \<Rightarrow> (Inr r, s')
                | (Inl (PreconditionFailed m), s') \<Rightarrow> mutate_from load save act env n s'
                | (Inl (SaveRaised e), s') \<Rightarrow> (Inl (CycleRaised e), s'))))"

definition mutate where
  "mutate load save act env s = mutate_from load save act env MAX_RETRIES s"

text \<open>\<open>_read\<close>: the callback reports whether opening the file migrated it; only then is it written back,
  and a lost race there is no error.\<close>

definition read_cycle ::
  "('s \<Rightarrow> string + 't loaded) \<Rightarrow> (string \<Rightarrow> 't option \<Rightarrow> 's \<Rightarrow> (save_error + 't) \<times> 's)
     \<Rightarrow> (string option \<Rightarrow> string + 'r \<times> string \<times> bool) \<Rightarrow> ('s \<Rightarrow> 's) \<Rightarrow> 's \<Rightarrow> (string + 'r) \<times> 's" where
  "read_cycle load save act env s =
     (case load s of
        Inl e \<Rightarrow> (Inl e, s)
      | Inr (d, token) \<Rightarrow>
          (case act d of
             Inl e \<Rightarrow> (Inl e, s)
           | Inr (r, new, migrated) \<Rightarrow>
               if \<not> migrated then (Inr r, env s)
               else (case save new token (env s) of
                       (Inl (SaveRaised e), s') \<Rightarrow> (Inl e, s')
                     | (_, s') \<Rightarrow> (Inr r, s'))))"

section \<open>What the cycles rely on\<close>

text \<open>An object that only a writer who saw it can replace. \<open>digest\<close> is what a token tells of the content.\<close>

locale versioned_object =
  fixes load :: "'s \<Rightarrow> string + 't loaded"
    and save :: "string \<Rightarrow> 't option \<Rightarrow> 's \<Rightarrow> (save_error + 't) \<times> 's"
    and content :: "'s \<Rightarrow> string option"
    and digest :: "string option \<Rightarrow> 'd"
  assumes load_reads: "load s = Inr (d0, t) \<Longrightarrow> d0 = content s"
    and save_commits: "load s0 = Inr (d0, t) \<Longrightarrow> save d t s = (Inr t', s') \<Longrightarrow>
        digest (content s) = digest d0 \<and> content s' = Some d"
    and save_refuses: "save d t s = (Inl (PreconditionFailed m), s') \<Longrightarrow> s' = s"
    and save_raises: "save d t s = (Inl (SaveRaised m), s') \<Longrightarrow> content s' = content s \<or> content s' = Some d"
    and save_unopposed: "load s = Inr (d0, t) \<Longrightarrow> save d t s \<noteq> (Inl (PreconditionFailed m), s')"
begin

text \<open>A write that succeeds replaced the content its callback saw; a write that lost its races left the
  object to the other writers.\<close>

lemma mutate_atomic:
  "mutate_from load save act env n s = (Inr r, s') \<Longrightarrow>
     \<exists>k d new. k < n \<and> act k d = Inr (r, new) \<and> digest d = digest (content (fold env (rev [k..<n]) s)) \<and> content s' = Some new"
proof (induction n arbitrary: s)
  case (Suc n)
  from Suc.prems obtain d t r0 new where l: "load s = Inr (d, t)" and a: "act n d = Inr (r0, new)"
    by (auto split: sum.splits prod.splits)
  show ?case
  proof (cases "save new t (env n s)")
    case (Pair out s1)
    show ?thesis
    proof (cases out)
      case (Inr t')
      with Pair l a Suc.prems have e: "r0 = r" "s1 = s'" by simp_all
      have "rev [n..<Suc n] = [n]" by simp
      with save_commits [OF l Pair [unfolded Inr]] a e show ?thesis by (intro exI [of _ n] exI [of _ d] exI [of _ new]) simp
    next
      case (Inl e)
      with Pair l a Suc.prems have "\<exists>m. e = PreconditionFailed m" by (cases e) simp_all
      with Inl Pair l a Suc.prems save_refuses [of new t "env n s"]
      have m: "mutate_from load save act env n (env n s) = (Inr r, s')" by auto
      from Suc.IH [OF m] obtain k d new where k: "k < n" "act k d = Inr (r, new)"
        "digest d = digest (content (fold env (rev [k..<n]) (env n s)))" "content s' = Some new" by blast
      then have "digest d = digest (content (fold env (rev [k..<Suc n]) s))" by simp
      with k show ?thesis by (metis less_SucI)
    qed
  qed
qed simp

lemma mutate_lost:
  "mutate_from load save act env n s = (Inl LostRaces, s') \<Longrightarrow> s' = fold env (rev [0..<n]) s"
proof (induction n arbitrary: s)
  case (Suc n)
  then obtain d t r0 new where l: "load s = Inr (d, t)" and a: "act n d = Inr (r0, new)"
    by (auto split: sum.splits prod.splits)
  obtain out s1 where sv: "save new t (env n s) = (out, s1)" by fastforce
  with l a Suc.prems obtain m where "out = Inl (PreconditionFailed m)"
    by (auto split: sum.splits save_error.splits)
  with sv l a Suc.prems save_refuses [of new t "env n s"]
  have "mutate_from load save act env n (env n s) = (Inl LostRaces, s')" by auto
  from Suc.IH [OF this] show ?case by simp
qed simp

text \<open>What every writer keeps of the content, the object keeps, whatever the outcome.\<close>

lemma mutate_keeps:
  assumes "P (content s)" "\<And>k s. P (content s) \<Longrightarrow> P (content (env k s))"
    and "\<And>k d r new. P d \<Longrightarrow> act k d = Inr (r, new) \<Longrightarrow> P (Some new)"
  shows "P (content (snd (mutate_from load save act env n s)))"
  using assms(1)
proof (induction n arbitrary: s)
  case (Suc n)
  show ?case
  proof (cases "load s")
    case (Inr dt)
    obtain d t where dt: "dt = (d, t)" by fastforce
    note l = Inr [unfolded dt]
    with Suc.prems have "P d" using load_reads by simp
    show ?thesis
    proof (cases "act n d")
      case (Inr rn)
      obtain r new where rn: "rn = (r, new)" by fastforce
      note a = Inr [unfolded rn]
      have new: "P (Some new)" using assms(3) \<open>P d\<close> a by blast
      have env: "P (content (env n s))" using assms(2) Suc.prems by blast
      obtain out s1 where sv: "save new t (env n s) = (out, s1)" by fastforce
      show ?thesis
      proof (cases out)
        case (Inr t')
        with sv save_commits [OF l] have "content s1 = Some new" by blast
        with Inr sv l a new show ?thesis by simp
      next
        case (Inl e)
        show ?thesis
        proof (cases e)
          case (PreconditionFailed m)
          with sv Inl save_refuses have "s1 = env n s" by blast
          with env have "P (content s1)" by simp
          with Suc.IH PreconditionFailed Inl sv l a show ?thesis by simp
        next
          case (SaveRaised m)
          with sv Inl save_raises have "P (content s1)" using env new by metis
          with SaveRaised Inl sv l a show ?thesis by simp
        qed
      qed
    qed (use l Suc.prems in simp)
  qed (use Suc.prems in simp)
qed simp

text \<open>Alone, the first attempt decides.\<close>

lemma mutate_alone:
  assumes "load s = Inr (d, t)" "act n d = Inr (r, new)" "env n s = s"
  shows "case mutate_from load save act env (Suc n) s of
      (Inr r', s') \<Rightarrow> r' = r \<and> content s' = Some new
    | (Inl e, s') \<Rightarrow> e \<noteq> LostRaces \<and> (\<exists>m. save new t s = (Inl (SaveRaised m), s'))"
proof -
  obtain out s1 where sv: "save new t s = (out, s1)" by fastforce
  show ?thesis
  proof (cases out)
    case (Inr t')
    with assms sv save_commits [OF assms(1)] show ?thesis by simp
  next
    case (Inl e)
    show ?thesis
    proof (cases e)
      case (PreconditionFailed m)
      with Inl sv save_unopposed [OF assms(1)] show ?thesis by blast
    next
      case (SaveRaised m)
      with Inl sv assms show ?thesis by simp
    qed
  qed
qed

end

text \<open>The local file keeps the promises, with its digest.\<close>

interpretation file_object: versioned_object "file_load sha" "file_save sha" "\<lambda>f. f" "map_option sha" for sha
proof unfold_locales
  fix s d0 t assume "file_load sha s = Inr (d0, t)" then show "d0 = s" by (simp add: file_load_def)
next
  fix s0 d0 t d s t' s'
  assume "file_load sha s0 = Inr (d0, t)" "file_save sha d t s = (Inr t', s')"
  then show "map_option sha s = map_option sha d0 \<and> s' = Some d"
    by (auto simp: file_load_def file_save_def file_check_def split: option.splits if_splits)
next
  fix d t s m s' assume "file_save sha d t s = (Inl (PreconditionFailed m), s')"
  then show "s' = s" by (auto simp: file_save_def split: option.splits)
next
  fix d t s m s' assume "file_save sha d t s = (Inl (SaveRaised m), s')"
  then show "s' = s \<or> s' = Some d" by (auto simp: file_save_def split: option.splits)
next
  fix s d0 t d m s' assume "file_load sha s = Inr (d0, t)"
  then show "file_save sha d t s \<noteq> (Inl (PreconditionFailed m), s')"
    by (auto simp: file_load_def file_save_def file_check_def split: option.splits)
qed

text \<open>What the code relies on of a bucket: a read gives the object and its tag or says it is missing; a tag
  stands for one content; a conditional write happens exactly under its condition, or the call raises
  something else and may or may not have written.\<close>

definition bucket_contract :: "'s bucket_get \<Rightarrow> 's bucket_put \<Rightarrow> ('s \<Rightarrow> string option) \<Rightarrow> (string \<Rightarrow> string) \<Rightarrow> bool" where
  "bucket_contract get put content tag \<longleftrightarrow>
     (\<forall>s d etag. get s = Inr (d, etag) \<longrightarrow> content s = Some d \<and> etag = tag d)
     \<and> (\<forall>s e. get s = Inl e \<longrightarrow> is_missing e \<longrightarrow> content s = None)
     \<and> (\<forall>c d s etag s'. put c d s = (Inr etag, s') \<longrightarrow> content s' = Some d
          \<and> (case c of IfNoneMatch \<Rightarrow> content s = None | IfMatch t \<Rightarrow> map_option tag (content s) = Some t))
     \<and> (\<forall>c d s e s'. put c d s = (Inl e, s') \<longrightarrow>
          (if is_refused e
           then s' = s
             \<and> (case c of IfNoneMatch \<Rightarrow> content s \<noteq> None | IfMatch t \<Rightarrow> map_option tag (content s) \<noteq> Some t)
           else content s' = content s \<or> content s' = Some d))"

lemma s3_object:
  assumes b: "bucket_contract get put content tag"
  shows "versioned_object (s3_load get) (s3_save put) content (map_option tag)"
proof unfold_locales
  have g: "content s = Some d \<and> etag = tag d" if "get s = Inr (d, etag)" for s d etag
    using b that unfolding bucket_contract_def by blast
  have miss: "content s = None" if "get s = Inl e" "is_missing e" for s e
    using b that unfolding bucket_contract_def by blast
  have p: "content s' = Some d \<and> (case c of IfNoneMatch \<Rightarrow> content s = None | IfMatch t \<Rightarrow> map_option tag (content s) = Some t)"
    if "put c d s = (Inr etag, s')" for c d s etag s'
    using b that unfolding bucket_contract_def by blast
  have f: "if is_refused e
           then s' = s
             \<and> (case c of IfNoneMatch \<Rightarrow> content s \<noteq> None | IfMatch t \<Rightarrow> map_option tag (content s) \<noteq> Some t)
           else content s' = content s \<or> content s' = Some d" if "put c d s = (Inl e, s')" for c d s e s'
    using b that unfolding bucket_contract_def by simp
  have load: "d0 = content s \<and> t = map_option tag (content s)" if "s3_load get s = Inr (d0, t)" for s d0 t
  proof (cases "get s")
    case (Inl e)
    with that miss show ?thesis by (auto simp: s3_load_def split: if_splits)
  next
    case (Inr de)
    with that g show ?thesis by (cases de) (auto simp: s3_load_def)
  qed
  have raised: "\<exists>e. put (case t of None \<Rightarrow> IfNoneMatch | Some t \<Rightarrow> IfMatch t) d s = (Inl e, s')
      \<and> is_refused e = (\<exists>m. x = PreconditionFailed m)" if "s3_save put d t s = (Inl x, s')" for d t s x s'
    using that by (auto simp: s3_save_def split: prod.splits sum.splits if_splits)
  { fix s d0 t assume "s3_load get s = Inr (d0, t)" then show "d0 = content s" using load by blast }
  { fix s0 d0 t d s t' s'
    assume l: "s3_load get s0 = Inr (d0, t)" and s: "s3_save put d t s = (Inr t', s')"
    from s have "put (case t of None \<Rightarrow> IfNoneMatch | Some t \<Rightarrow> IfMatch t) d s = (Inr t', s')"
      by (auto simp: s3_save_def split: prod.splits sum.splits)
    from p [OF this] load [OF l] show "map_option tag (content s) = map_option tag d0 \<and> content s' = Some d"
      by (cases "content s0") auto }
  { fix d t s m s'
    assume "s3_save put d t s = (Inl (PreconditionFailed m), s')"
    from raised [OF this] f show "s' = s" by fastforce }
  { fix d t s m s'
    assume "s3_save put d t s = (Inl (SaveRaised m), s')"
    from raised [OF this] f show "content s' = content s \<or> content s' = Some d" by fastforce }
  { fix s d0 t d m s'
    assume l: "s3_load get s = Inr (d0, t)"
    show "s3_save put d t s \<noteq> (Inl (PreconditionFailed m), s')"
    proof
      assume "s3_save put d t s = (Inl (PreconditionFailed m), s')"
      from raised [OF this] f load [OF l] show False by (cases "content s") fastforce+
    qed }
qed

lemma file_mutate_raised:
  "mutate_from (file_load sha) (file_save sha) act env n f = (Inl (CycleRaised e), f') \<Longrightarrow>
     \<exists>k \<le> n. f' = fold env (rev [k..<n]) f"
proof (induction n arbitrary: f)
  case (Suc n)
  show ?case
  proof (cases "act n f")
    case (Inl x)
    with Suc.prems have "f' = f" by (simp add: file_load_def)
    then show ?thesis by (intro exI [of _ "Suc n"]) simp
  next
    case (Inr rn)
    obtain r new where rn: "rn = (r, new)" by fastforce
    have l: "file_load sha f = Inr (f, map_option sha f)" by (simp add: file_load_def)
    have "mutate_from (file_load sha) (file_save sha) act env n (env n f) = (Inl (CycleRaised e), f')"
    proof (cases "file_check sha (map_option sha f) (env n f)")
      case None
      then have "file_save sha new (map_option sha f) (env n f) = (Inr (sha new), Some new)" by (simp add: file_save_def)
      with Suc.prems Inr rn l show ?thesis by simp
    next
      case (Some m)
      then have "file_save sha new (map_option sha f) (env n f) = (Inl (PreconditionFailed m), env n f)" by (simp add: file_save_def)
      with Suc.prems Inr rn l show ?thesis by simp
    qed
    from Suc.IH [OF this] obtain k where "k \<le> n" "f' = fold env (rev [k..<n]) (env n f)" by blast
    then show ?thesis by (intro exI [of _ k]) simp
  qed
qed simp


definition sample_env :: "nat \<Rightarrow> string option \<Rightarrow> string option" where
  "sample_env k f = (if k = 4 then Some ''theirs'' else f)"

definition sample_act :: "nat \<Rightarrow> string option \<Rightarrow> string + nat \<times> string" where
  "sample_act k d = Inr (k, (case d of None \<Rightarrow> ''new'' | Some x \<Rightarrow> x @ ''+mine''))"


section \<open>Write-once blobs\<close>

text \<open>\<open>BLOB_KEY_RE.fullmatch\<close>: one letter or digit, then at most 127 characters of the set.\<close>

definition alnum :: "char \<Rightarrow> bool" where
  "alnum c = (CHR ''A'' \<le> c \<and> c \<le> CHR ''Z'' \<or> CHR ''a'' \<le> c \<and> c \<le> CHR ''z'' \<or> CHR ''0'' \<le> c \<and> c \<le> CHR ''9'')"

definition valid_key :: "string \<Rightarrow> bool" where
  "valid_key key =
     (case key of
        [] \<Rightarrow> False
      | c # cs \<Rightarrow> alnum c \<and> length cs \<le> 127 \<and> list_all (\<lambda>x. alnum x \<or> x \<in> set ''._-'') cs)"

datatype blob_error = InvalidKey | BlobExists | BlobRaised string

text \<open>\<open>FileBlobStore\<close> on the directory's files; a failing system call before the link leaves no file. The
  staging file, removed in every case, is not part of the state.\<close>

type_synonym blob_dir = "string \<rightharpoonup> string"

definition file_blob_put :: "string option \<Rightarrow> string \<Rightarrow> string \<Rightarrow> blob_dir \<Rightarrow> blob_error option \<times> blob_dir" where
  "file_blob_put fault key d dir =
     (if \<not> valid_key key then (Some InvalidKey, dir)
      else case fault of
             Some e \<Rightarrow> (Some (BlobRaised e), dir)
           | None \<Rightarrow> if dir key \<noteq> None then (Some BlobExists, dir) else (None, dir(key \<mapsto> d)))"

definition file_blob_get :: "string \<Rightarrow> blob_dir \<Rightarrow> blob_error + string option" where
  "file_blob_get key dir = (if valid_key key then Inr (dir key) else Inl InvalidKey)"

text \<open>\<open>S3BlobStore\<close>, over a bucket of named objects.\<close>

definition strip_slashes :: "string \<Rightarrow> string" where "strip_slashes s = rstrip_slash (lstrip_slash s)"

definition blob_prefix :: "string \<Rightarrow> string" where
  "blob_prefix pfx =
     (let cleaned = strip_slashes (strip pfx) in if cleaned \<noteq> '''' then cleaned @ ''/'' else '''')"

definition s3_blob_put ::
  "(string \<Rightarrow> condition \<Rightarrow> string \<Rightarrow> 's \<Rightarrow> (client_error + string) \<times> 's) \<Rightarrow> string \<Rightarrow> string \<Rightarrow> string \<Rightarrow> 's \<Rightarrow> blob_error option \<times> 's" where
  "s3_blob_put put pfx key d s =
     (if \<not> valid_key key then (Some InvalidKey, s)
      else case put (blob_prefix pfx @ key) IfNoneMatch d s of
             (Inr etag, s') \<Rightarrow> (None, s')
           | (Inl e, s') \<Rightarrow>
               (Some (if contains ''PreconditionFailed'' (error_code e) \<or> contains ''412'' (error_code e)
                      then BlobExists else BlobRaised (ce_message e)), s'))"

definition s3_blob_get :: "(string \<Rightarrow> 's \<Rightarrow> client_error + string) \<Rightarrow> string \<Rightarrow> string \<Rightarrow> 's \<Rightarrow> blob_error + string option" where
  "s3_blob_get get pfx key s =
     (if \<not> valid_key key then Inl InvalidKey
      else case get (blob_prefix pfx @ key) s of
             Inr d \<Rightarrow> Inr (Some d)
           | Inl e \<Rightarrow> if is_missing e then Inr None else Inl (BlobRaised (ce_message e)))"

text \<open>\<open>make_blob_store\<close>: no store, a directory or a bucket; the misconfigurations by kind.\<close>

datatype store_kind = NoStore | FileBlobs string | BucketBlobs string string
datatype store_fault = RootMissing | RootRefused dir_refusal | UnknownBackend string | BucketMissing

definition make_blob_store :: "path_fn \<Rightarrow> path_fn \<Rightarrow> ('a) blob_config_scheme \<Rightarrow> store_fault + store_kind" where
  "make_blob_store expand resolve cfg =
     (if bc_backend cfg = '''' then Inr NoStore
      else if bc_backend cfg = ''file''
      then (if bc_root cfg = '''' then Inl RootMissing
            else case local_blob_root expand resolve cfg of
                   Inl r \<Rightarrow> Inl (RootRefused r)
                 | Inr None \<Rightarrow> Inr (FileBlobs ''None'')
                 | Inr (Some d) \<Rightarrow> Inr (FileBlobs d))
      else if bc_backend cfg \<noteq> ''s3'' \<and> bc_backend cfg \<noteq> ''r2'' then Inl (UnknownBackend (bc_backend cfg))
      else if bc_bucket cfg = '''' then Inl BucketMissing
      else Inr (BucketBlobs (bc_bucket cfg) (bc_prefix cfg)))"

text \<open>\<open>from_settings\<close>, on the settings as they are read.\<close>

definition from_settings :: "string \<Rightarrow> string \<Rightarrow> string \<Rightarrow> string \<Rightarrow> string \<Rightarrow> string \<Rightarrow> blob_config" where
  "from_settings backend dir bucket pfx endpoint_url creds_env_prefix =
     \<lparr>bc_backend = lower (strip backend), bc_root = dir, bc_bucket = bucket, bc_prefix = pfx,
      bc_endpoint_url = (if endpoint_url \<noteq> '''' then Some endpoint_url else None),
      bc_creds_env_prefix = strip creds_env_prefix\<rparr>"

text \<open>What a blob store promises: the first write of a key is the only one. \<open>'f\<close> is what the world decides
  of a write.\<close>

locale write_once =
  fixes put :: "'f \<Rightarrow> string \<Rightarrow> string \<Rightarrow> 's \<Rightarrow> blob_error option \<times> 's"
    and get :: "string \<Rightarrow> 's \<Rightarrow> blob_error + string option"
  assumes put_new: "put f k d s = (None, s') \<Longrightarrow> get k s = Inr None \<and> get k s' = Inr (Some d)"
    and put_refused: "put f k d s = (Some e, s') \<Longrightarrow> get k s' = get k s"
    and put_other: "put f k d s = (r, s') \<Longrightarrow> j \<noteq> k \<Longrightarrow> get j s' = get j s"
begin

lemma put_keeps: "get k s = Inr (Some d) \<Longrightarrow> get k (snd (put f j x s)) = Inr (Some d)"
proof -
  assume g: "get k s = Inr (Some d)"
  obtain r s' where p: "put f j x s = (r, s')" by fastforce
  show ?thesis
  proof (cases "j = k")
    case True
    with p g put_new put_refused show ?thesis by (cases r) fastforce+
  next
    case False
    with p g put_other show ?thesis by fastforce
  qed
qed

lemma puts_keep: "get k s = Inr (Some d) \<Longrightarrow> get k (fold (\<lambda>(f, k, d) s. snd (put f k d s)) ws s) = Inr (Some d)"
proof (induction ws arbitrary: s)
  case (Cons w ws)
  obtain f j x where w: "w = (f, j, x)" by (cases w) auto
  from Cons.IH [OF put_keeps [OF Cons.prems]] show ?case by (simp add: w)
qed simp

end

interpretation file_blobs: write_once file_blob_put file_blob_get
proof unfold_locales
  fix f k d s s' assume "file_blob_put f k d s = (None, s')"
  then show "file_blob_get k s = Inr None \<and> file_blob_get k s' = Inr (Some d)"
    by (auto simp: file_blob_put_def file_blob_get_def split: if_splits option.splits)
next
  fix f k d s e s' assume "file_blob_put f k d s = (Some e, s')"
  then show "file_blob_get k s' = file_blob_get k s"
    by (auto simp: file_blob_put_def split: if_splits option.splits)
next
  fix f k d s r s' j assume "file_blob_put f k d s = (r, s')" "j \<noteq> k"
  then show "file_blob_get j s' = file_blob_get j s"
    by (auto simp: file_blob_put_def file_blob_get_def split: if_splits option.splits)
qed

text \<open>A valid key names a file directly under the store's directory, and no staging file.\<close>

lemma valid_key_segment:
  "valid_key k \<Longrightarrow> CHR ''/'' \<notin> set k \<and> BACKSLASH_CHAR \<notin> set k \<and> CHR 0x0A \<notin> set k \<and> k \<noteq> [] \<and> hd k \<noteq> CHR ''.'' \<and> length k \<le> 128"
proof -
  assume v: "valid_key k"
  have a: "\<not> alnum (CHR ''/'')" "\<not> alnum BACKSLASH_CHAR" "\<not> alnum (CHR 0x0A)" "\<not> alnum (CHR ''.'')" by code_simp+
  have b: "CHR ''/'' \<notin> set ''._-''" "BACKSLASH_CHAR \<notin> set ''._-''" "CHR 0x0A \<notin> set ''._-''" by code_simp+
  obtain c cs where k: "k = c # cs" "alnum c" "length cs \<le> 127" "list_all (\<lambda>x. alnum x \<or> x \<in> set ''._-'') cs"
    using v unfolding valid_key_def by (cases k) (simp_all only: list.case simp_thms)
  then have m: "alnum x \<or> x \<in> set ''._-''" if "x \<in> set k" for x
    using that unfolding list_all_iff k(1) by (metis set_ConsD)
  show ?thesis
  proof (intro conjI)
    show "CHR ''/'' \<notin> set k" "BACKSLASH_CHAR \<notin> set k" "CHR 0x0A \<notin> set k" using m a b by blast+
    show "hd k \<noteq> CHR ''.''" using k(1,2) a(4) by (metis list.sel(1))
  qed (use k(1,3) in simp_all)
qed

text \<open>C17: a stored transcript is permanent. Once a write reported success under a key, reading the key
  returns exactly those bytes, whatever later writes attempt under any key and however they fail; the
  write that reports a taken key changed nothing; and the key, which arrives from outside, names
  one file directly in the store's directory, never a path.\<close>

theorem stored_transcript_is_permanent:
  assumes "file_blob_put fault key d dir = (None, dir')"
  shows "file_blob_get key (fold (\<lambda>(f, k, x) s. snd (file_blob_put f k x s)) ws dir') = Inr (Some d)
    \<and> file_blob_get key dir = Inr None
    \<and> slash \<notin> set key \<and> hd key \<noteq> CHR ''.''"
proof -
  from file_blobs.put_new [OF assms] have g: "file_blob_get key dir = Inr None" "file_blob_get key dir' = Inr (Some d)" by blast+
  from assms have "valid_key key" by (auto simp: file_blob_put_def split: if_splits)
  from valid_key_segment [OF this] g file_blobs.puts_keep [OF g(2), of ws]
  show ?thesis by (simp add: slash_def)
qed

theorem stored_transcript_is_permanent_witness:
  "file_blob_get ''k1'' (fold (\<lambda>(f, k, x) s. snd (file_blob_put f k x s)) [(None, ''k1'', ''other''), (None, ''../k1'', ''y'')]
     (snd (file_blob_put None ''k1'' ''feed'' Map.empty))) = Inr (Some ''feed'')"
proof -
  have "file_blob_put None ''k1'' ''feed'' Map.empty = (None, snd (file_blob_put None ''k1'' ''feed'' Map.empty))"
    by (simp add: file_blob_put_def valid_key_def alnum_def less_eq_char_def)
  from stored_transcript_is_permanent [OF this] show ?thesis by blast
qed

text \<open>The store writes where the read denylist reaches.\<close>

lemma file_store_is_covered:
  "make_blob_store expand resolve cfg = Inr (FileBlobs d) \<Longrightarrow> d \<in> set (capture_dirs expand resolve setting cfg)"
proof -
  assume m: "make_blob_store expand resolve cfg = Inr (FileBlobs d)"
  then have b: "bc_backend cfg = ''file''" "bc_root cfg \<noteq> ''''" by (auto simp: make_blob_store_def split: if_splits)
  then have "local_blob_root expand resolve cfg \<noteq> Inr None"
    by (auto simp: local_blob_root_def split: sum.splits if_splits)
  with m b have "local_blob_root expand resolve cfg = Inr (Some d)"
    by (auto simp: make_blob_store_def split: sum.splits option.splits)
  then show ?thesis by (simp add: capture_dirs_def usable_def)
qed

end
