(* ===== verification/Embedding.thy ===== *)
theory Embedding
  imports Review_Output
begin

text \<open>
  \<open>sidecar/embed.py\<close> and the assembly of a query in \<open>sidecar/retrieve.py\<close>. The endpoint is a
  parameter: what it answers to a batch, and what it says it serves. A vector is a value of any
  type. The lemmas show that a batch-wise embedding is the embedding of each text, that an assembled
  query is never cut at the transport, and that what it keeps of the changed files are whole paths.
\<close>

section \<open>The embedder\<close>

text \<open>The settings of \<open>config.py\<close> the knowledge base reads.\<close>

record kb_settings =
  ks_max_chars :: nat
  ks_prefix :: string
  ks_batch :: int
  ks_model :: string
  ks_base_url :: string
  ks_embed_dim :: int
  ks_top_k :: int
  ks_candidate_k :: int
  ks_digests :: bool
  ks_ingest_max_new :: int

definition default_settings :: kb_settings where
  "default_settings = \<lparr>ks_max_chars = 12000,
     ks_prefix = ''Instruct: Given a code review question, retrieve engineering learnings ''
       @ ''that apply to it'' @ nl @ ''Query: '',
     ks_batch = 32, ks_model = ''qwen3-embedding-0.6b'', ks_base_url = ''http://localhost:11434/v1'',
     ks_embed_dim = 1024, ks_top_k = 6, ks_candidate_k = 50, ks_digests = False,
     ks_ingest_max_new = 10\<rparr>"

text \<open>What a POST to \<open>/embeddings\<close> ends in: an HTTP error, with the answer's body if there was one, or a
  \<open>data\<close> list, absent or empty as the empty list.\<close>

datatype 'v embed_reply = HttpFailed string "string option" | Data "'v list"

datatype embed_error = EmbedError string | ZeroBatch

definition embed_url :: "kb_settings \<Rightarrow> string" where
  "embed_url S = rev (dropWhile (\<lambda>c. c = CHR ''/'') (rev (ks_base_url S))) @ ''/embeddings''"

definition fit :: "kb_settings \<Rightarrow> string \<Rightarrow> string" where
  "fit S t = take (ks_max_chars S) t"

text \<open>\<open>texts[i : i + n] for i in range(0, len(texts), n)\<close>.\<close>

function batches :: "nat \<Rightarrow> 'a list \<Rightarrow> 'a list list" where
  "batches n xs = (if xs = [] \<or> n = 0 then [] else take n xs # batches n (drop n xs))"
  by pat_completeness auto
termination by (relation "measure (length \<circ> snd)") auto

declare batches.simps [simp del]

fun embed_loop ::
  "kb_settings \<Rightarrow> (string list \<Rightarrow> 'v embed_reply) \<Rightarrow> string list list \<Rightarrow> 'v list \<Rightarrow> embed_error + 'v list" where
  "embed_loop S ask [] acc = Inr acc"
| "embed_loop S ask (b # bs) acc =
     (case ask (map (fit S) b) of
        HttpFailed e body \<Rightarrow>
          Inl (EmbedError (''embedding request to '' @ embed_url S @ '' failed: '' @ e @ nl @ ''body: ''
            @ (case body of None \<Rightarrow> '''' | Some t \<Rightarrow> take 1000 t)))
      | Data vs \<Rightarrow>
          if vs = [] then Inl (EmbedError (''empty 'data' in embeddings response from '' @ embed_url S))
          else embed_loop S ask bs (acc @ vs))"

definition embed ::
  "kb_settings \<Rightarrow> (string list \<Rightarrow> 'v embed_reply) \<Rightarrow> string list \<Rightarrow> embed_error + 'v list" where
  "embed S ask texts =
     (if texts = [] then Inr []
      else if ks_batch S = 0 then Inl ZeroBatch
      else embed_loop S ask (batches (nat (ks_batch S)) texts) [])"

text \<open>\<open>self.embed([text])[0]\<close>: with a negative batch size nothing is asked and the index raises.\<close>

datatype one_error = OneFailed embed_error | IndexError

definition embed_one :: "kb_settings \<Rightarrow> (string list \<Rightarrow> 'v embed_reply) \<Rightarrow> string \<Rightarrow> one_error + 'v" where
  "embed_one S ask t =
     (case embed S ask [t] of
        Inl e \<Rightarrow> Inl (OneFailed e)
      | Inr [] \<Rightarrow> Inl IndexError
      | Inr (v # vs) \<Rightarrow> Inr v)"

definition embed_query :: "kb_settings \<Rightarrow> (string list \<Rightarrow> 'v embed_reply) \<Rightarrow> string \<Rightarrow> one_error + 'v" where
  "embed_query S ask t = embed_one S ask (ks_prefix S @ t)"

text \<open>\<open>probe_dim\<close> with its cache.\<close>

definition probe_dim ::
  "kb_settings \<Rightarrow> (string list \<Rightarrow> 'v embed_reply) \<Rightarrow> ('v \<Rightarrow> int) \<Rightarrow> int option \<Rightarrow> (one_error + int) \<times> int option" where
  "probe_dim S ask width cached =
     (case cached of
        Some d \<Rightarrow> (Inr d, cached)
      | None \<Rightarrow>
          (case embed_one S ask ''dimension probe'' of
             Inl e \<Rightarrow> (Inl e, None)
           | Inr v \<Rightarrow> (Inr (width v), Some (width v))))"

subsection \<open>What the endpoint serves\<close>

definition obj_get :: "string \<Rightarrow> json \<Rightarrow> json option" where
  "obj_get k j = (case j of JObj d \<Rightarrow> map_of d k | _ \<Rightarrow> None)"

text \<open>The first of the fields that is a non-empty string.\<close>

fun first_name :: "json \<Rightarrow> string list \<Rightarrow> string option" where
  "first_name j [] = None"
| "first_name j (f # fs) =
     (case obj_get f j of
        Some (JStr s) \<Rightarrow> if s \<noteq> '''' then Some s else first_name j fs
      | _ \<Rightarrow> first_name j fs)"

definition entry_names :: "string list \<Rightarrow> json option \<Rightarrow> string list" where
  "entry_names fs x =
     (case x of Some (JList es) \<Rightarrow> List.map_filter (\<lambda>e. first_name e fs) es | _ \<Rightarrow> [])"

text \<open>\<open>served_models\<close>: the argument is the body, absent when the request failed or did not parse.\<close>

definition served_models :: "json option \<Rightarrow> string list option" where
  "served_models body =
     (case body of
        Some (JObj d) \<Rightarrow>
          let names = entry_names [''id''] (map_of d ''data'') @ entry_names [''name'', ''model''] (map_of d ''models'')
          in if names = [] then None else Some names
      | _ \<Rightarrow> None)"

definition is_served :: "string \<Rightarrow> string list \<Rightarrow> bool" where
  "is_served model names =
     (model \<in> set names \<or> (CHR '':'' \<notin> set model \<and> model @ '':latest'' \<in> set names))"

definition model_mismatch :: "kb_settings \<Rightarrow> string list \<Rightarrow> string" where
  "model_mismatch S names =
     rev (dropWhile (\<lambda>c. c = CHR ''/'') (rev (ks_base_url S))) @ '' does not serve ''
     @ [CHR 0x27] @ ks_model S @ [CHR 0x27] @ '' -- it serves '' @ join '', '' (sort (remdups names))
     @ ''. Embedding requests would still succeed and return vectors from the ''
     @ ''wrong model, so this refuses to start instead. Point ''
     @ ''FUKO_EMBED_MODEL at what is actually served (and move ''
     @ ''FUKO_EMBED_QUERY_PREFIX with it).''"

definition verify_model :: "kb_settings \<Rightarrow> json option \<Rightarrow> string option" where
  "verify_model S body =
     (case served_models body of
        None \<Rightarrow> None
      | Some names \<Rightarrow> if is_served (ks_model S) names then None else Some (model_mismatch S names))"

section \<open>The query of a pull request\<close>

definition PR_BODY_CHARS :: nat where "PR_BODY_CHARS = 6000"

text \<open>\<open>s.rpartition(newline)[0]\<close>.\<close>

definition before_last_nl :: "string \<Rightarrow> string" where
  "before_last_nl s = rev (drop 1 (dropWhile (\<lambda>c. c \<noteq> CHR 0x0A) (rev s)))"

definition trim_files_block :: "string \<Rightarrow> int \<Rightarrow> string" where
  "trim_files_block block room =
     (if room \<le> 0 then ''''
      else if int (length block) \<le> room then block
      else let cut = (if block ! nat room = CHR 0x0A then take (nat room) block
                      else before_last_nl (take (nat room) block))
           in if CHR 0x0A \<in> set cut then cut else '''')"

definition files_block :: "string list \<Rightarrow> string" where
  "files_block files = (if files = [] then '''' else ''Changed files:'' @ nl @ join nl files)"

text \<open>One step of the allocation: the state is the characters used so far.\<close>

definition allot :: "nat \<Rightarrow> bool \<Rightarrow> string \<Rightarrow> nat \<Rightarrow> string \<times> nat" where
  "allot limit is_files part used =
     (if part = '''' then ('''', used)
      else let sep = (if used = 0 then 0 else 1);
               room = int limit - int used - int sep;
               kept = (if is_files then trim_files_block part room else take (nat room) part)
           in if kept = '''' then ('''', used) else (kept, used + length kept + sep))"

definition query_limit :: "kb_settings \<Rightarrow> nat" where
  "query_limit S = ks_max_chars S - length (ks_prefix S)"

definition build_query :: "kb_settings \<Rightarrow> string list \<Rightarrow> string option \<Rightarrow> string option \<Rightarrow> string" where
  "build_query S files pr_body query_text =
     (let limit = query_limit S;
          head0 = strip (case query_text of None \<Rightarrow> '''' | Some t \<Rightarrow> t);
          body0 = take PR_BODY_CHARS (strip (case pr_body of None \<Rightarrow> '''' | Some t \<Rightarrow> t));
          (head, u1) = allot limit False head0 0;
          (block, u2) = allot limit True (files_block files) u1;
          (body, u3) = allot limit False body0 u2
      in strip (join nl (filter (\<lambda>p. p \<noteq> '''') [head, body, block])))"

section \<open>Lemmas\<close>

lemma batches_Nil [simp]: "batches n [] = []"
  by (simp add: batches.simps)

lemma concat_batches: "0 < n \<Longrightarrow> concat (batches n xs) = xs"
proof (induction n xs rule: batches.induct)
  case (1 n xs)
  then show ?case by (cases "xs = []") (simp_all add: batches.simps [of n xs])
qed

lemma in_batches: "b \<in> set (batches n xs) \<Longrightarrow> b \<noteq> [] \<and> length b \<le> n"
proof (induction n xs rule: batches.induct)
  case (1 n xs)
  then show ?case by (cases "xs = [] \<or> n = 0") (auto simp: batches.simps [of n xs])
qed

lemma embed_loop_honest:
  assumes "\<And>b. b \<noteq> [] \<Longrightarrow> ask b = Data (map e b)"
  shows "\<forall>b \<in> set bs. b \<noteq> [] \<Longrightarrow>
     embed_loop S ask bs acc = Inr (acc @ map (\<lambda>t. e (fit S t)) (concat bs))"
  by (induction bs arbitrary: acc) (simp_all add: assms comp_def)

lemma embed_honest:
  assumes "\<And>b. b \<noteq> [] \<Longrightarrow> ask b = Data (map e b)" "0 < ks_batch S"
  shows "embed S ask ts = Inr (map (\<lambda>t. e (fit S t)) ts)"
proof (cases "ts = []")
  case False
  let ?bs = "batches (nat (ks_batch S)) ts"
  have "embed_loop S ask ?bs [] = Inr (map (\<lambda>t. e (fit S t)) (concat ?bs))"
    using embed_loop_honest [where bs = ?bs and acc = "[]", OF assms(1)] in_batches by fastforce
  with False assms(2) show ?thesis by (simp add: embed_def concat_batches)
qed (simp add: embed_def)

lemma embed_one_honest:
  assumes "\<And>b. b \<noteq> [] \<Longrightarrow> ask b = Data (map e b)" "0 < ks_batch S"
  shows "embed_one S ask t = Inr (e (fit S t))"
  using embed_honest [OF assms, of "[t]"] by (simp add: embed_one_def)

lemma is_served_iff:
  "is_served model names \<longleftrightarrow>
     model \<in> set names \<or> (\<exists>n \<in> set names. n = model @ '':latest'' \<and> CHR '':'' \<notin> set model)"
  by (auto simp: is_served_def)

subsection \<open>Whole paths\<close>

lemma join_nl_take_Suc:
  assumes "n < length fs" "0 < n"
  shows "join nl (take (Suc n) fs) = join nl (take n fs) @ nl @ (fs ! n)"
proof -
  have "take n fs \<noteq> []" using assms by auto
  with assms show ?thesis by (simp add: take_Suc_conv_app_nth join_append)
qed

text \<open>A prefix of a joined list of lines is some whole lines and a part of the next.\<close>

lemma take_join_nl:
  assumes "m \<le> length (join nl fs)" "fs \<noteq> []"
  shows "\<exists>n r s t. n < length fs \<and> fs ! n = r @ s \<and> drop m (join nl fs) = s @ t
     \<and> take m (join nl fs) = (if n = 0 then r else join nl (take n fs) @ nl @ r)"
  using assms
proof (induction fs arbitrary: m)
  case (Cons f fs)
  show ?case
  proof (cases "m \<le> length f")
    case True
    obtain t where "join nl (f # fs) = f @ t" by (cases fs) auto
    with True show ?thesis
      by (intro exI [of _ 0] exI [of _ "take m f"] exI [of _ "drop m f"] exI [of _ t]) simp
  next
    case False
    with Cons.prems obtain g gs where fs: "fs = g # gs" by (cases fs) auto
    let ?m = "m - Suc (length f)"
    have j: "join nl (f # fs) = (f @ nl) @ join nl fs" and l: "length (f @ nl) = Suc (length f)"
      using fs by (simp_all add: nl_def)
    have "?m \<le> length (join nl fs)" using Cons.prems j l by simp
    from Cons.IH [OF this] fs obtain n r s t where n: "n < length fs" "fs ! n = r @ s"
      "drop ?m (join nl fs) = s @ t"
      "take ?m (join nl fs) = (if n = 0 then r else join nl (take n fs) @ nl @ r)" by blast
    have tk: "take m (join nl (f # fs)) = f @ nl @ take ?m (join nl fs)"
      and dr: "drop m (join nl (f # fs)) = drop ?m (join nl fs)"
      unfolding j using False l by simp_all
    have "join nl (take (Suc n) (f # fs)) = (if n = 0 then f else f @ nl @ join nl (take n fs))"
      using fs n(1) by (cases n) simp_all
    then have "take m (join nl (f # fs)) = join nl (take (Suc n) (f # fs)) @ nl @ r"
      using n(4) tk by simp
    then show ?thesis using n(1-3) dr
      by (intro exI [of _ "Suc n"] exI [of _ r] exI [of _ s] exI [of _ t]) simp
  qed
qed simp

lemma before_last_nl_append: "CHR 0x0A \<notin> set r \<Longrightarrow> before_last_nl (x @ nl @ r) = x"
proof -
  assume "CHR 0x0A \<notin> set r"
  then have "dropWhile (\<lambda>c. c \<noteq> CHR 0x0A) (rev r @ CHR 0x0A # rev x) = CHR 0x0A # rev x"
    by (subst dropWhile_append2) auto
  then show ?thesis by (simp add: before_last_nl_def nl_def)
qed

lemma before_last_nl_none: "CHR 0x0A \<notin> set r \<Longrightarrow> before_last_nl r = ''''"
proof -
  assume "CHR 0x0A \<notin> set r"
  then have "dropWhile (\<lambda>c. c \<noteq> CHR 0x0A) (rev r) = []" by (auto simp: dropWhile_eq_Nil_conv)
  then show ?thesis unfolding before_last_nl_def by (simp only:) simp
qed

lemma nl_in_join: "CHR 0x0A \<in> set (join nl (x # y # ys))"
  by (simp add: nl_def)

lemma files_block_lines: "files \<noteq> [] \<Longrightarrow> files_block files = join nl (''Changed files:'' # files)"
  by (cases files) (simp_all add: files_block_def)

text \<open>What is left of the block is empty or the block of the first paths.\<close>

lemma trim_keeps_whole_paths:
  assumes no_nl: "\<forall>f \<in> set files. CHR 0x0A \<notin> set f"
  shows "\<exists>n \<le> length files. trim_files_block (files_block files) room = files_block (take n files)"
proof (cases "files = [] \<or> room \<le> 0")
  case True
  then show ?thesis by (intro exI [of _ 0]) (auto simp: trim_files_block_def files_block_def)
next
  case False
  let ?L = "''Changed files:'' # files" and ?B = "files_block files" and ?m = "nat room"
  have B: "?B = join nl ?L" using False by (simp add: files_block_lines)
  have Lno: "\<forall>f \<in> set ?L. CHR 0x0A \<notin> set f" using no_nl by auto
  show ?thesis
  proof (cases "int (length ?B) \<le> room")
    case True
    with False show ?thesis by (intro exI [of _ "length files"]) (simp add: trim_files_block_def)
  next
    case small: False
    then have m: "?m < length ?B" using False by (simp add: not_le nat_less_iff)
    from take_join_nl [of ?m ?L] m B obtain n r s t where n: "n < length ?L" "?L ! n = r @ s"
      "drop ?m ?B = s @ t" "take ?m ?B = (if n = 0 then r else join nl (take n ?L) @ nl @ r)"
      by auto
    have "CHR 0x0A \<notin> set (?L ! n)" using Lno n(1) nth_mem by blast
    then have free: "CHR 0x0A \<notin> set r" "CHR 0x0A \<notin> set s" using n(2) by simp_all
    define cut where "cut = (if ?B ! ?m = CHR 0x0A then take ?m ?B else before_last_nl (take ?m ?B))"
    have "\<exists>k \<le> length ?L. cut = join nl (take k ?L)"
    proof (cases "?B ! ?m = CHR 0x0A")
      case True
      have "?B ! ?m = hd (drop ?m ?B)" using m by (simp add: hd_drop_conv_nth)
      with True n(3) free(2) have "s = []" by (cases s) auto
      with n True have "cut = join nl (take (Suc n) ?L)"
        by (cases n) (simp_all only: cut_def if_True if_False join_nl_take_Suc, simp_all)
      with Suc_leI [OF n(1)] show ?thesis by (intro exI [of _ "Suc n"] conjI)
    next
      case other: False
      show ?thesis
      proof (cases "n = 0")
        case True
        with other n(4) free(1) show ?thesis
          by (intro exI [of _ 0]) (simp add: cut_def before_last_nl_none)
      next
        case False
        with other n(4) free(1) have "cut = join nl (take n ?L)"
          by (simp only: cut_def if_False before_last_nl_append [OF free(1)])
        with less_imp_le [OF n(1)] show ?thesis by (intro exI [of _ n] conjI)
      qed
    qed
    then obtain k where k: "k \<le> length ?L" "cut = join nl (take k ?L)" by blast
    have trim: "trim_files_block ?B room = (if CHR 0x0A \<in> set cut then cut else '''')"
      using False small by (simp add: trim_files_block_def cut_def Let_def)
    show ?thesis
    proof (cases "k \<le> 1")
      case True
      then have "CHR 0x0A \<notin> set cut" using k(2) by (cases k) auto
      with trim show ?thesis by (intro exI [of _ 0]) (simp add: files_block_def)
    next
      case big: False
      then have ne: "take (k - 1) files \<noteq> []" using False by simp
      have tk: "take k ?L = ''Changed files:'' # take (k - 1) files" using big by (cases k) simp_all
      with ne k(2) have "CHR 0x0A \<in> set cut" using nl_in_join by (metis neq_Nil_conv)
      with trim k(2) tk ne have "trim_files_block ?B room = files_block (take (k - 1) files)"
        by (simp only: files_block_lines [OF ne] if_True)
      with k(1) show ?thesis by (intro exI [of _ "k - 1"]) simp
    qed
  qed
qed

subsection \<open>The budget\<close>

lemma length_before_last_nl: "length (before_last_nl s) \<le> length s"
proof -
  have "length (dropWhile (\<lambda>c. c \<noteq> CHR 0x0A) (rev s)) \<le> length s"
    using length_dropWhile_le [of _ "rev s"] by simp
  then show ?thesis by (simp add: before_last_nl_def)
qed

lemma length_trim: "int (length (trim_files_block block room)) \<le> max 0 room"
proof (cases "room \<le> 0 \<or> int (length block) \<le> room")
  case False
  have "length (before_last_nl (take (nat room) block)) \<le> nat room"
    using length_before_last_nl [of "take (nat room) block"] by simp
  with False show ?thesis by (auto simp: trim_files_block_def Let_def)
qed (auto simp: trim_files_block_def)

text \<open>What a step keeps, with its separator, fits into what was left.\<close>

lemma allot_bounds:
  assumes "allot limit is_files part used = (kept, used')" "used \<le> limit"
  shows "used' \<le> limit \<and>
     used' = (if kept = '''' then used else used + length kept + (if used = 0 then 0 else 1))"
proof -
  define sep where "sep = (if used = 0 then 0 else 1 :: nat)"
  define room where "room = int limit - int used - int sep"
  define k where "k = (if is_files then trim_files_block part room else take (nat room) part)"
  have k: "int (length k) \<le> max 0 room"
    using length_trim [of part room] by (auto simp: k_def)
  from assms(1) have "(kept, used') = (if part = '''' \<or> k = '''' then ('''', used) else (k, used + length k + sep))"
    by (auto simp: allot_def Let_def sep_def room_def k_def split: if_splits)
  moreover have "k \<noteq> '''' \<Longrightarrow> used + length k + sep \<le> limit"
    using k assms(2) by (cases "room \<le> 0") (auto simp: room_def)
  ultimately show ?thesis using assms(2) by (auto simp: sep_def split: if_splits)
qed

lemma length_join3:
  "length (join nl (filter (\<lambda>p. p \<noteq> '''') [a, b, c])) =
     length a + length b + length c + (length (filter (\<lambda>p. p \<noteq> '''') [a, b, c]) - 1)"
  by (simp add: nl_def)

definition or_blank :: "string option \<Rightarrow> string" where
  "or_blank x = (case x of None \<Rightarrow> '''' | Some t \<Rightarrow> t)"

lemma build_query_shape:
  assumes "\<forall>f \<in> set files. CHR 0x0A \<notin> set f"
  shows "\<exists>body tail n. build_query S files pr_body query_text =
       strip (join nl (filter (\<lambda>p. p \<noteq> '''')
         [take (query_limit S) (strip (or_blank query_text)), body, files_block (take n files)]))
     \<and> n \<le> length files \<and> strip (or_blank pr_body) = body @ tail
     \<and> length (build_query S files pr_body query_text) \<le> query_limit S"
proof -
  let ?limit = "query_limit S"
  let ?head0 = "strip (or_blank query_text)" and ?body0 = "take PR_BODY_CHARS (strip (or_blank pr_body))"
  obtain head u1 where 1: "allot ?limit False ?head0 0 = (head, u1)" by fastforce
  obtain block u2 where 2: "allot ?limit True (files_block files) u1 = (block, u2)" by fastforce
  obtain body u3 where 3: "allot ?limit False ?body0 u2 = (body, u3)" by fastforce
  let ?parts = "filter (\<lambda>p. p \<noteq> '''') [head, body, block]"
  have q: "build_query S files pr_body query_text = strip (join nl ?parts)"
    using 1 2 3 by (simp add: build_query_def or_blank_def)
  have head: "head = take ?limit ?head0"
    using 1 by (auto simp: allot_def Let_def split: if_splits)
  have "\<exists>n \<le> length files. block = files_block (take n files)"
  proof (cases "block = ''''")
    case True
    then show ?thesis by (intro exI [of _ 0]) (simp add: files_block_def)
  next
    case False
    with 2 have "\<exists>room. block = trim_files_block (files_block files) room"
      by (auto simp: allot_def Let_def split: if_splits)
    with trim_keeps_whole_paths [OF assms] show ?thesis by auto
  qed
  then obtain n where n: "n \<le> length files" "block = files_block (take n files)" by blast
  have "\<exists>k. body = take k ?body0"
    using 3 by (auto simp: allot_def Let_def split: if_splits intro: exI [of _ 0])
  then obtain k where "body = take k ?body0" by blast
  then have body: "strip (or_blank pr_body) = body @ drop (min k PR_BODY_CHARS) (strip (or_blank pr_body))"
    by (simp add: min.commute)
  note b1 = allot_bounds [OF 1 le0]
  note b2 = allot_bounds [OF 2 conjunct1 [OF b1]]
  note b3 = allot_bounds [OF 3 conjunct1 [OF b2]]
  have "length (join nl ?parts) \<le> u3" using b1 b2 b3
    unfolding length_join3 by (auto split: if_splits)
  with b3 length_strip [of "join nl ?parts"] q have "length (build_query S files pr_body query_text) \<le> ?limit"
    by simp
  with q head n body show ?thesis by blast
qed

text \<open>C32: A query that is asked is embedded whole: with the instruction in front of it, the transport cuts
  nothing off. It consists of the question, the beginning of the description and the changed files, in
  that order; the question is cut only where it alone overruns the budget, and of the files it keeps
  whole paths from the front.\<close>

theorem query_is_never_cut:
  assumes "\<forall>f \<in> set files. CHR 0x0A \<notin> set f"
  shows "\<exists>body tail n.
     (build_query S files pr_body query_text \<noteq> '''' \<longrightarrow>
        fit S (ks_prefix S @ build_query S files pr_body query_text)
          = ks_prefix S @ build_query S files pr_body query_text)
   \<and> build_query S files pr_body query_text =
       strip (join nl (filter (\<lambda>p. p \<noteq> '''')
         [take (query_limit S) (strip (or_blank query_text)), body, files_block (take n files)]))
   \<and> n \<le> length files \<and> strip (or_blank pr_body) = body @ tail"
proof -
  let ?q = "build_query S files pr_body query_text"
  from build_query_shape [OF assms] obtain body tail n where *: "?q =
       strip (join nl (filter (\<lambda>p. p \<noteq> '''')
         [take (query_limit S) (strip (or_blank query_text)), body, files_block (take n files)]))"
    "n \<le> length files" "strip (or_blank pr_body) = body @ tail" "length ?q \<le> query_limit S"
    by blast
  have "?q \<noteq> '''' \<longrightarrow> fit S (ks_prefix S @ ?q) = ks_prefix S @ ?q"
    using *(4) by (cases "length (ks_prefix S) \<le> ks_max_chars S") (auto simp: query_limit_def fit_def)
  with * show ?thesis by blast
qed

text \<open>A budget of 42 characters: the second path would have to be cut, so it goes.\<close>

definition sample_settings :: kb_settings where
  "sample_settings = default_settings\<lparr>ks_max_chars := 42, ks_prefix := ''Query: ''\<rparr>"

theorem query_is_never_cut_witness:
  "build_query sample_settings [''src/a.py'', ''src/b.py''] (Some ''long'') (Some ''why?'')
     = ''why?'' @ nl @ ''long'' @ nl @ ''Changed files:'' @ nl @ ''src/a.py''
   \<and> fit sample_settings (ks_prefix sample_settings
        @ build_query sample_settings [''src/a.py'', ''src/b.py''] (Some ''long'') (Some ''why?''))
      = ks_prefix sample_settings @ build_query sample_settings [''src/a.py'', ''src/b.py''] (Some ''long'') (Some ''why?'')"
proof -
  have q: "build_query sample_settings [''src/a.py'', ''src/b.py''] (Some ''long'') (Some ''why?'')
     = ''why?'' @ nl @ ''long'' @ nl @ ''Changed files:'' @ nl @ ''src/a.py''"
    by code_simp
  with query_is_never_cut [of "[''src/a.py'', ''src/b.py'']" sample_settings "Some ''long''" "Some ''why?''"]
  show ?thesis by auto
qed

end
