(* ===== verification/Moment.thy ===== *)
theory Moment
  imports Fuko_Prelude
begin

text \<open>
  The part of Python's \<open>datetime\<close> the knowledge base uses: a moment with its fields and an optional
  offset from UTC in whole minutes, the text \<open>isoformat\<close> gives it, and the instant it denotes. The
  lemmas relate the order of the texts, which \<open>sqlite_store.py\<close> compares, to the order of the instants.
\<close>

record moment =
  mo_year :: nat
  mo_month :: nat
  mo_day :: nat
  mo_hour :: nat
  mo_minute :: nat
  mo_second :: nat
  mo_micro :: nat
  mo_offset :: "int option"

definition leap :: "nat \<Rightarrow> bool" where
  "leap y = (y mod 4 = 0 \<and> (y mod 100 \<noteq> 0 \<or> y mod 400 = 0))"

definition month_days :: "nat list" where
  "month_days = [31, 28, 31, 30, 31, 30, 31, 31, 30, 31, 30, 31]"

definition days_in :: "nat \<Rightarrow> nat \<Rightarrow> nat" where
  "days_in y m = month_days ! (m - 1) + (if m = 2 \<and> leap y then 1 else 0)"

definition valid_moment :: "moment \<Rightarrow> bool" where
  "valid_moment t = (1 \<le> mo_year t \<and> mo_year t \<le> 9999 \<and> 1 \<le> mo_month t \<and> mo_month t \<le> 12
     \<and> 1 \<le> mo_day t \<and> mo_day t \<le> days_in (mo_year t) (mo_month t)
     \<and> mo_hour t < 24 \<and> mo_minute t < 60 \<and> mo_second t < 60 \<and> mo_micro t < 1000000)"

text \<open>Decimal digits in a field of fixed width.\<close>

fun fixed :: "nat \<Rightarrow> nat \<Rightarrow> string" where
  "fixed 0 n = ''''"
| "fixed (Suc k) n = char_of (48 + n div 10 ^ k mod 10) # fixed k n"

definition iso_offset :: "int option \<Rightarrow> string" where
  "iso_offset z =
     (case z of
        None \<Rightarrow> ''''
      | Some m \<Rightarrow> (if m < 0 then ''-'' else ''+'') @ fixed 2 (nat \<bar>m\<bar> div 60) @ '':'' @ fixed 2 (nat \<bar>m\<bar> mod 60))"

definition iso_tail :: "moment \<Rightarrow> string" where
  "iso_tail t = (if mo_micro t = 0 then '''' else ''.'' @ fixed 6 (mo_micro t)) @ iso_offset (mo_offset t)"

definition isoformat :: "moment \<Rightarrow> string" where
  "isoformat t =
     fixed 4 (mo_year t) @ ''-'' @ fixed 2 (mo_month t) @ ''-'' @ fixed 2 (mo_day t) @ ''T''
     @ fixed 2 (mo_hour t) @ '':'' @ fixed 2 (mo_minute t) @ '':'' @ fixed 2 (mo_second t) @ iso_tail t"

text \<open>The instant, in microseconds, of a moment whose missing offset means UTC.\<close>

definition ordinal :: "nat \<Rightarrow> nat \<Rightarrow> nat \<Rightarrow> int" where
  "ordinal y m d =
     (let z = y - 1 in int z * 365 + int (z div 4) - int (z div 100) + int (z div 400))
     + int (sum_list (take (m - 1) month_days) + (if 2 < m \<and> leap y then 1 else 0)) + int d"

definition day_time :: "moment \<Rightarrow> nat" where
  "day_time t = ((mo_hour t * 60 + mo_minute t) * 60 + mo_second t) * 1000000 + mo_micro t"

definition instant :: "moment \<Rightarrow> int" where
  "instant t =
     ordinal (mo_year t) (mo_month t) (mo_day t) * 86400000000 + int (day_time t)
     - (case mo_offset t of None \<Rightarrow> 0 | Some m \<Rightarrow> m * 60000000)"

definition in_utc :: "moment \<Rightarrow> bool" where
  "in_utc t = (mo_offset t = None \<or> mo_offset t = Some 0)"

section \<open>The order of the texts\<close>

lemma length_fixed [simp]: "length (fixed k n) = k"
  by (induction k n rule: fixed.induct) simp_all

lemma digit_less: "i < 10 \<Longrightarrow> j < 10 \<Longrightarrow> (char_of (48 + i) < (char_of (48 + j) :: char)) = (i < j)" for i j :: nat
  by (simp add: less_char_def)

lemma digit_eq: "i < 10 \<Longrightarrow> j < 10 \<Longrightarrow> (char_of (48 + i) = (char_of (48 + j) :: char)) = (i = j)" for i j :: nat
  by (metis digit_less linorder_less_linear nless_le)

lemma mod_Suc_pow: "n mod 10 ^ Suc k = (n div 10 ^ k mod 10) * 10 ^ k + n mod 10 ^ k" for n :: nat
  by (metis add.commute mod_mult2_eq mult.commute power_Suc2)

lemma lex_mod:
  "(q * b + r < q' * b + r') = (q < q' \<or> q = q' \<and> r < r')" if "r < b" "r' < b" for q q' r r' b :: nat
proof -
  have lt: "q * b + r < q' * b + r'" if "q < q'" "r < b" for q q' r r' :: nat
  proof -
    have "q * b + r < (q + 1) * b" using that by simp
    also have "\<dots> \<le> q' * b" using that by (intro mult_le_mono1) simp
    finally show ?thesis by simp
  qed
  from lt [of q q' r r'] lt [of q' q r' r] that show ?thesis
    by (cases q q' rule: linorder_cases) auto
qed

lemma lex_eq: "(q * b + r = q' * b + r') = (q = q' \<and> r = r')" if "r < b" "r' < b" for q q' r r' b :: nat
  using lex_mod [OF that] lex_mod [OF that(2,1)] by (metis less_irrefl linorder_neq_iff)

lemma fixed_less: "(fixed k a < fixed k b) = (a mod 10 ^ k < b mod 10 ^ k)"
proof (induction k)
  case (Suc k)
  have "(fixed (Suc k) a < fixed (Suc k) b) =
      (a div 10 ^ k mod 10 < b div 10 ^ k mod 10
       \<or> a div 10 ^ k mod 10 = b div 10 ^ k mod 10 \<and> a mod 10 ^ k < b mod 10 ^ k)"
    by (simp add: digit_less digit_eq Suc.IH)
  also have "\<dots> = (a mod 10 ^ Suc k < b mod 10 ^ Suc k)"
    unfolding mod_Suc_pow by (subst lex_mod) auto
  finally show ?case .
qed simp

lemma fixed_eq: "(fixed k a = fixed k b) = (a mod 10 ^ k = b mod 10 ^ k)"
  by (metis fixed_less linorder_neq_iff order_less_irrefl)

lemma append_less:
  "length u = length v \<Longrightarrow> (u @ x < v @ y) = (u < v \<or> u = v \<and> x < y)" for u v :: string
  by (induction u v rule: list_induct2) auto

lemma append_less_right: "length u = length v \<Longrightarrow> (u @ x < v) = (u < v)" for u v :: string
  using append_less [of u v x "[]"] by simp

definition utc_key :: "moment \<Rightarrow> nat list" where
  "utc_key t = [mo_year t, mo_month t, mo_day t, mo_hour t, mo_minute t, mo_second t, mo_micro t]"

lemma dash_less [simp]: "(CHR ''-'' # x < CHR ''-'' # y) = (x < y)" for x y :: string
  by simp

lemma month_cases: "1 \<le> m \<Longrightarrow> m \<le> 12 \<Longrightarrow> m = 1 \<or> m = 2 \<or> m = 3 \<or> m = 4 \<or> m = 5 \<or> m = 6 \<or> m = 7
    \<or> m = 8 \<or> m = 9 \<or> m = 10 \<or> m = 11 \<or> m = 12" for m :: nat
  by presburger

lemma days_in_31: "1 \<le> m \<Longrightarrow> m \<le> 12 \<Longrightarrow> days_in y m \<le> 31"
  by (drule (1) month_cases, elim disjE) (simp_all add: days_in_def month_days_def)

lemma iso_tail_less:
  assumes "mo_offset n = Some 0" "in_utc e" "mo_micro n < 1000000" "mo_micro e < 1000000"
  shows "(iso_tail n < iso_tail e) = (mo_micro n < mo_micro e)"
proof -
  have z: "iso_offset (Some 0) = ''+00:00''" by code_simp
  have sep: "CHR ''+'' < CHR ''.''" "\<not> CHR ''.'' < CHR ''+''" by (simp_all add: less_char_def)
  have f: "(fixed 6 (mo_micro n) < fixed 6 (mo_micro e)) = (mo_micro n < mo_micro e)"
    "(fixed 6 (mo_micro n) = fixed 6 (mo_micro e)) = (mo_micro n = mo_micro e)"
    using assms(3,4) by (simp_all only: fixed_less fixed_eq) simp_all
  from assms(2) consider "mo_offset e = None" | "mo_offset e = Some 0" by (auto simp: in_utc_def)
  then show ?thesis
  proof cases
    case 1
    then show ?thesis using assms(1) sep f
      by (simp add: iso_tail_def z append_less_right iso_offset_def [of None] del: fixed.simps)
  next
    case 2
    then show ?thesis using assms(1) sep f
      by (simp add: iso_tail_def z append_less del: fixed.simps)
  qed
qed

lemma isoformat_less:
  assumes "valid_moment n" "valid_moment e" "mo_offset n = Some 0" "in_utc e"
  shows "(isoformat n < isoformat e) = (utc_key n < utc_key e)"
proof -
  have f: "(fixed k x < fixed k y) = (x < y)" "(fixed k x = fixed k y) = (x = y)"
    if "x < 10 ^ k" "y < 10 ^ k" for k x y
    using that by (simp_all only: fixed_less fixed_eq) simp_all
  have b: "mo_year t < 10 ^ 4 \<and> mo_month t < 10 ^ 2 \<and> mo_day t < 10 ^ 2 \<and> mo_hour t < 10 ^ 2
      \<and> mo_minute t < 10 ^ 2 \<and> mo_second t < 10 ^ 2 \<and> mo_micro t < 1000000" if "valid_moment t" for t
    using that days_in_31 [of "mo_month t" "mo_year t"] by (auto simp: valid_moment_def)
  note bn = b [OF assms(1)] and be = b [OF assms(2)]
  have tail: "(iso_tail n < iso_tail e) = (mo_micro n < mo_micro e)"
    using iso_tail_less assms(3,4) bn be by blast
  show ?thesis
    unfolding isoformat_def utc_key_def
    using bn be by (simp add: append_less f tail del: fixed.simps)
qed

section \<open>The order of the instants\<close>

lemma year_arith:
  "(p400 \<Longrightarrow> p100) \<Longrightarrow> (p100 \<Longrightarrow> p4) \<Longrightarrow>
     int (Suc z) * 365 + (a + (if p4 then 1 else 0)) - (b + (if p100 then 1 else 0)) + (c + (if p400 then 1 else 0))
       = int z * 365 + a - b + c + 365 + (if p4 \<and> (\<not> p100 \<or> p400) then 1 else 0)" for a b c :: int
  by (cases p4; cases p100; cases p400) simp_all

lemma year_step:
  "1 \<le> y \<Longrightarrow> ordinal (Suc y) 1 0 = ordinal y 1 0 + 365 + (if leap y then 1 else 0)"
proof -
  assume "1 \<le> y"
  then obtain z where y: "y = Suc z" by (cases y) auto
  have s: "int (Suc z div k) = int (z div k) + (if Suc z mod k = 0 then 1 else 0)" for k
    by (simp add: div_Suc)
  have d: "Suc z mod 400 = 0 \<Longrightarrow> Suc z mod 100 = 0" "Suc z mod 100 = 0 \<Longrightarrow> Suc z mod 4 = 0"
    unfolding mod_eq_0_iff_dvd by (erule dvd_trans [rotated], simp)+
  have l: "ordinal (Suc y) 1 0 = int (Suc z) * 365 + (int (z div 4) + (if Suc z mod 4 = 0 then 1 else 0))
      - (int (z div 100) + (if Suc z mod 100 = 0 then 1 else 0)) + (int (z div 400) + (if Suc z mod 400 = 0 then 1 else 0))"
    and r: "ordinal y 1 0 = int z * 365 + int (z div 4) - int (z div 100) + int (z div 400)"
    unfolding y ordinal_def Let_def diff_Suc_1 s by simp_all
  show ?thesis unfolding l r unfolding y leap_def by (rule year_arith [OF d])
qed

lemma year_mono: "y \<le> y' \<Longrightarrow> 1 \<le> y \<Longrightarrow> ordinal y 1 0 \<le> ordinal y' 1 0"
proof (induction y' rule: dec_induct)
  case (step k)
  then show ?case using year_step [of k] by simp
qed simp

lemma month_step: "1 \<le> m \<Longrightarrow> m < 12 \<Longrightarrow> ordinal y (Suc m) 0 = ordinal y m 0 + int (days_in y m)"
  by (frule month_cases [OF _ less_imp_le], assumption, elim disjE) (simp_all add: ordinal_def days_in_def month_days_def Let_def)

lemma month_mono: "m \<le> m' \<Longrightarrow> 1 \<le> m \<Longrightarrow> m' \<le> 12 \<Longrightarrow> ordinal y m 0 \<le> ordinal y m' 0"
proof (induction m' rule: dec_induct)
  case (step k)
  then show ?case using month_step [of k y] by simp
qed simp

lemma december: "ordinal y 12 0 + int (days_in y 12) = ordinal y 1 0 + 365 + (if leap y then 1 else 0)"
  by (simp add: ordinal_def days_in_def month_days_def Let_def)

lemma ordinal_day: "ordinal y m d = ordinal y m 0 + int d"
  by (simp add: ordinal_def)

lemma ordinal_less:
  assumes "1 \<le> y" "1 \<le> m" "m \<le> 12" "1 \<le> d" "d \<le> days_in y m"
    and "1 \<le> y'" "1 \<le> m'" "m' \<le> 12" "1 \<le> d'" "d' \<le> days_in y' m'"
    and less: "[y, m, d] < [y', m', d']"
  shows "ordinal y m d < ordinal y' m' d'"
proof -
  consider "y < y'" | "y = y'" "m < m'" | "y = y'" "m = m'" "d < d'" using less by auto
  then show ?thesis
  proof cases
    case 1
    have "ordinal y m 0 + int (days_in y m) \<le> ordinal y 1 0 + 365 + (if leap y then 1 else 0)"
    proof (cases "m = 12")
      case True
      then show ?thesis using december by simp
    next
      case False
      with assms have "ordinal y m 0 + int (days_in y m) \<le> ordinal y 12 0"
        using month_step [of m y] month_mono [of "Suc m" 12 y] by simp
      then show ?thesis using december [of y] by linarith
    qed
    also have "\<dots> = ordinal (Suc y) 1 0" using year_step assms(1) by simp
    also have "\<dots> \<le> ordinal y' 1 0" using year_mono [of "Suc y" y'] 1 assms(1) by simp
    also have "\<dots> \<le> ordinal y' m' 0" using month_mono [of 1 m' y'] assms by simp
    finally show ?thesis
      using assms(5,9) ordinal_day [of y m d] ordinal_day [of y' m' d'] by linarith
  next
    case 2
    have "ordinal y m 0 + int (days_in y m) = ordinal y (Suc m) 0" using month_step [of m y] 2 assms by simp
    also have "\<dots> \<le> ordinal y m' 0" using month_mono [of "Suc m" m' y] 2 assms by simp
    finally have "ordinal y m 0 + int (days_in y m) \<le> ordinal y' m' 0" unfolding 2(1) .
    then show ?thesis
      using assms(5,9) ordinal_day [of y m d] ordinal_day [of y' m' d'] by linarith
  next
    case 3
    then show ?thesis by (simp add: ordinal_day [of _ _ d] ordinal_day [of _ _ d'])
  qed
qed

lemma utc_instant: "in_utc t \<Longrightarrow> instant t = ordinal (mo_year t) (mo_month t) (mo_day t) * 86400000000 + int (day_time t)"
  by (auto simp: instant_def in_utc_def)

lemma day_time_less:
  assumes "mo_minute s < 60" "mo_second s < 60" "mo_micro s < 1000000"
    and "mo_minute t < 60" "mo_second t < 60" "mo_micro t < 1000000"
  shows "(day_time s < day_time t) =
    ([mo_hour s, mo_minute s, mo_second s, mo_micro s] < [mo_hour t, mo_minute t, mo_second t, mo_micro t])"
  unfolding day_time_def lex_mod [OF assms(3,6)] lex_mod [OF assms(2,5)] lex_mod [OF assms(1,4)]
    lex_eq [OF assms(2,5)] lex_eq [OF assms(1,4)]
  by auto

lemma day_time_bound: "valid_moment t \<Longrightarrow> day_time t < 86400000000"
  by (simp add: valid_moment_def day_time_def)

lemma instant_less:
  assumes "valid_moment s" "valid_moment t" "in_utc s" "in_utc t" "utc_key s < utc_key t"
  shows "instant s < instant t"
proof -
  let ?d = "\<lambda>t. [mo_year t, mo_month t, mo_day t]"
  let ?o = "\<lambda>t. ordinal (mo_year t) (mo_month t) (mo_day t)"
  let ?c = "\<lambda>t. [mo_hour t, mo_minute t, mo_second t, mo_micro t]"
  have k: "utc_key t = ?d t @ ?c t" for t by (simp add: utc_key_def)
  have b: "int (day_time s) < 86400000000" "0 \<le> int (day_time t)"
    using day_time_bound [OF assms(1)] by simp_all
  consider "?d s < ?d t" | "?d s = ?d t" "?c s < ?c t"
    using assms(5) by (auto simp: utc_key_def)
  then show ?thesis
  proof cases
    case 1
    have "?o s < ?o t"
      by (rule ordinal_less [OF _ _ _ _ _ _ _ _ _ _ 1]) (use assms(1,2) in \<open>simp_all add: valid_moment_def\<close>)
    then show ?thesis using b unfolding utc_instant [OF assms(3)] utc_instant [OF assms(4)] by linarith
  next
    case 2
    then have "day_time s < day_time t"
      using assms(1,2) by (simp only: day_time_less valid_moment_def)
    then show ?thesis using 2(1) unfolding utc_instant [OF assms(3)] utc_instant [OF assms(4)] by simp
  qed
qed

text \<open>For moments in UTC the order of the texts is the order of the instants.\<close>

lemma isoformat_orders:
  assumes "valid_moment n" "valid_moment e" "mo_offset n = Some 0" "in_utc e"
  shows "(isoformat n < isoformat e) = (instant n < instant e)"
proof -
  have u: "in_utc n" using assms(3) by (simp add: in_utc_def)
  have less: "utc_key n < utc_key e \<Longrightarrow> instant n < instant e"
    and more: "utc_key e < utc_key n \<Longrightarrow> instant e < instant n"
    using instant_less assms u by blast+
  have "utc_key e = utc_key n \<Longrightarrow> instant e = instant n"
    by (simp add: utc_instant [OF u] utc_instant [OF assms(4)] utc_key_def day_time_def)
  with less more isoformat_less [OF assms] show ?thesis
    by (metis less_asym linorder_neq_iff)
qed

text \<open>With another offset it is not: half past midnight in Karachi is the evening before in London.\<close>

definition karachi :: moment where
  "karachi = \<lparr>mo_year = 2026, mo_month = 1, mo_day = 1, mo_hour = 0, mo_minute = 30, mo_second = 0,
     mo_micro = 0, mo_offset = Some 300\<rparr>"

definition london :: moment where
  "london = \<lparr>mo_year = 2025, mo_month = 12, mo_day = 31, mo_hour = 20, mo_minute = 0, mo_second = 0,
     mo_micro = 0, mo_offset = Some 0\<rparr>"

lemma fixed_two: "fixed 2 n = [char_of (48 + n div 10 mod 10), char_of (48 + n mod 10)]"
proof -
  have "fixed (Suc (Suc 0)) n = [char_of (48 + n div 10 mod 10), char_of (48 + n mod 10)]" by simp
  then show ?thesis by (simp only: numeral_2_eq_2)
qed

lemma fixed_four:
  "fixed 4 n = [char_of (48 + n div 1000 mod 10), char_of (48 + n div 100 mod 10),
     char_of (48 + n div 10 mod 10), char_of (48 + n mod 10)]"
proof -
  have "(4 :: nat) = Suc (Suc (Suc (Suc 0)))" by simp
  then show ?thesis by (simp only: fixed.simps) simp
qed

lemma isoformat_misorders:
  "isoformat karachi = ''2026-01-01T00:30:00+05:00'' \<and> isoformat london = ''2025-12-31T20:00:00+00:00''
   \<and> instant karachi < instant london \<and> isoformat london < isoformat karachi"
proof -
  have k: "isoformat karachi = ''2026-01-01T00:30:00+05:00''"
    by (simp add: isoformat_def iso_tail_def iso_offset_def karachi_def fixed_two fixed_four char_of_def bit_iff_odd)
  have l: "isoformat london = ''2025-12-31T20:00:00+00:00''"
    by (simp add: isoformat_def iso_tail_def iso_offset_def london_def fixed_two fixed_four char_of_def bit_iff_odd)
  have "instant karachi < instant london"
    by (simp add: instant_def karachi_def london_def ordinal_def day_time_def leap_def month_days_def Let_def)
  moreover have "isoformat london < isoformat karachi" unfolding k l by code_simp
  ultimately show ?thesis using k l by blast
qed

end
