(* ===== verification/Patterns.thy ===== *)
theory Patterns
  imports Fuko_Prelude
begin

text \<open>
  The two pattern languages of the knowledge base: SQL's \<open>LIKE ... ESCAPE\<close> with a backslash, which the
  listing searches with (\<open>like_escape\<close> of \<open>retrieve.py\<close>), and Python's \<open>fnmatch\<close>, which scopes a learning
  to files (\<open>glob.escape\<close> in \<open>digest.py\<close>). The lemmas show that an escaped text matches as itself.
\<close>

section \<open>LIKE\<close>

text \<open>The first argument is the pattern. A pattern that ends in its escape character matches nothing here;
  the code never sends one.\<close>

function like :: "string \<Rightarrow> string \<Rightarrow> bool" where
  "like [] s = (s = [])"
| "like (p # ps) s =
     (if p = CHR ''%'' then like ps s \<or> (case s of [] \<Rightarrow> False | c # cs \<Rightarrow> like (p # ps) cs)
      else case s of
        [] \<Rightarrow> False
      | c # cs \<Rightarrow>
          if p = CHR ''_'' then like ps cs
          else if p = CHR 0x5C then (case ps of [] \<Rightarrow> False | q # qs \<Rightarrow> c = q \<and> like qs cs)
          else c = p \<and> like ps cs)"
  by pat_completeness auto
termination
  by (relation "measure (\<lambda>(p, s). length p + length s)") auto

definition replace_char :: "char \<Rightarrow> string \<Rightarrow> string \<Rightarrow> string" where
  "replace_char c t s = concat (map (\<lambda>d. if d = c then t else [d]) s)"

definition like_escape :: "string \<Rightarrow> string" where
  "like_escape t =
     replace_char (CHR ''_'') [CHR 0x5C, CHR ''_'']
       (replace_char (CHR ''%'') [CHR 0x5C, CHR ''%'']
         (replace_char (CHR 0x5C) [CHR 0x5C, CHR 0x5C] t))"

definition like_pattern :: "string \<Rightarrow> string" where
  "like_pattern t = ''%'' @ like_escape t @ ''%''"

definition ilike :: "string \<Rightarrow> string \<Rightarrow> bool" where
  "ilike s pat = like (lower pat) (lower s)"

lemma like_escape_Nil [simp]: "like_escape [] = []"
  by (simp add: like_escape_def replace_char_def)

lemma like_escape_Cons:
  "like_escape (c # t) = (if c \<in> {CHR 0x5C, CHR ''%'', CHR ''_''} then [CHR 0x5C, c] else [c]) @ like_escape t"
  by (simp add: like_escape_def replace_char_def)

lemma like_literal: "like (like_escape t @ p) s \<longleftrightarrow> (\<exists>u. s = t @ u \<and> like p u)"
proof (induction t arbitrary: s)
  case (Cons c t)
  note IH = Cons.IH
  show ?case
  proof (cases s)
    case Nil
    then show ?thesis by (simp add: like_escape_Cons)
  next
    case (Cons d u)
    then have "like (like_escape (c # t) @ p) s \<longleftrightarrow> d = c \<and> like (like_escape t @ p) u"
      by (simp add: like_escape_Cons)
    with IH Cons show ?thesis by auto
  qed
qed simp

lemma like_any: "like (CHR ''%'' # p) s \<longleftrightarrow> (\<exists>u v. s = u @ v \<and> like p v)"
proof (induction s)
  case Nil
  then show ?case by simp
next
  case (Cons c s)
  have "(\<exists>u v. c # s = u @ v \<and> like p v) \<longleftrightarrow> like p (c # s) \<or> (\<exists>u v. s = u @ v \<and> like p v)"
    by (metis append_Cons append_Nil list.exhaust list.inject)
  with Cons show ?case by simp
qed

text \<open>An escaped search term between two wildcards is found exactly where it occurs literally.\<close>

lemma like_pattern_contains: "like (like_pattern t) s \<longleftrightarrow> contains t s"
proof -
  have any: "like [CHR ''%''] u" for u
    using like_any [of "[]" u] by auto
  have "like (like_pattern t) s \<longleftrightarrow> (\<exists>u v. s = u @ v \<and> like (like_escape t @ ''%'') v)"
    by (simp add: like_pattern_def like_any del: like.simps)
  also have "\<dots> \<longleftrightarrow> (\<exists>u v. s = u @ t @ v)"
    by (auto simp: like_literal any simp del: like.simps)
  finally show ?thesis by (simp add: contains_iff)
qed

lemma lower_char_special: "lower_char c \<in> {CHR 0x5C, CHR ''%'', CHR ''_''} \<longleftrightarrow> c \<in> {CHR 0x5C, CHR ''%'', CHR ''_''}"
  by (cases c) (auto simp: lower_char_bits)

lemma lower_append: "lower (s @ t) = lower s @ lower t"
  by (simp add: lower_def)

lemma lower_Cons: "lower (c # s) = lower_char c # lower s"
  by (simp add: lower_def)

lemma lower_escape: "lower (like_escape t) = like_escape (lower t)"
proof (induction t)
  case (Cons c t)
  show ?case
  proof (cases "c \<in> {CHR 0x5C, CHR ''%'', CHR ''_''}")
    case True
    then have "lower_char c = c" "lower_char (CHR 0x5C) = CHR 0x5C" by (auto simp: lower_char_bits)
    with True Cons show ?thesis by (auto simp: like_escape_Cons lower_def)
  next
    case False
    then have "lower_char c \<notin> {CHR 0x5C, CHR ''%'', CHR ''_''}" using lower_char_special by blast
    with False Cons show ?thesis by (simp add: like_escape_Cons lower_Cons)
  qed
qed simp

lemma ilike_pattern_contains: "ilike s (like_pattern t) \<longleftrightarrow> contains (lower t) (lower s)"
proof -
  have "lower (like_pattern t) = like_pattern (lower t)"
    by (simp add: like_pattern_def lower_append lower_Cons lower_escape) (simp add: lower_char_bits)
  then show ?thesis by (simp add: ilike_def like_pattern_contains)
qed

section \<open>fnmatch\<close>

text \<open>The ranges of a bracket expression; a single character is a range of one.\<close>

fun class_items :: "string \<Rightarrow> (char \<times> char) list" where
  "class_items [] = []"
| "class_items [a] = [(a, a)]"
| "class_items [a, b] = [(a, a), (b, b)]"
| "class_items (a # b # c # r) =
     (if b = CHR ''-'' then (a, c) # class_items r else (a, a) # class_items (b # c # r))"

text \<open>What follows an opening bracket: whether it is negated, its ranges and the rest of the pattern,
  or nothing when no bracket closes it. The closing bracket may be the first member.\<close>

definition bracket :: "string \<Rightarrow> (bool \<times> (char \<times> char) list \<times> string) option" where
  "bracket p =
     (let neg = (p \<noteq> [] \<and> hd p = CHR ''!'');
          q = (if neg then tl p else p);
          first = (if q \<noteq> [] \<and> hd q = CHR '']'' then '']'' else '''');
          r = drop (length first) q;
          body = takeWhile (\<lambda>c. c \<noteq> CHR '']'') r
      in if CHR '']'' \<in> set r
         then Some (neg, class_items (first @ body), drop (Suc (length body)) r) else None)"

definition in_class :: "char \<Rightarrow> bool \<Rightarrow> (char \<times> char) list \<Rightarrow> bool" where
  "in_class c neg items = (list_ex (\<lambda>(lo, hi). lo \<le> c \<and> c \<le> hi) items \<noteq> neg)"

lemma length_bracket: "bracket p = Some (neg, items, r) \<Longrightarrow> length r < Suc (length p)"
  by (auto simp: bracket_def Let_def split: if_splits)

function fnmatch :: "string \<Rightarrow> string \<Rightarrow> bool" where
  "fnmatch s [] = (s = [])"
| "fnmatch s (p # ps) =
     (if p = CHR ''*'' then fnmatch s ps \<or> (case s of [] \<Rightarrow> False | c # cs \<Rightarrow> fnmatch cs (p # ps))
      else case s of
        [] \<Rightarrow> False
      | c # cs \<Rightarrow>
          if p = CHR ''?'' then fnmatch cs ps
          else case (if p = CHR ''['' then bracket ps else None) of
                 None \<Rightarrow> c = p \<and> fnmatch cs ps
               | Some (neg, items, r) \<Rightarrow> in_class c neg items \<and> fnmatch cs r)"
  by pat_completeness auto
termination
  by (relation "measure (\<lambda>(s, p). length p + length s)")
    (auto dest: length_bracket split: if_splits)

definition glob_escape :: "string \<Rightarrow> string" where
  "glob_escape p = concat (map (\<lambda>c. if c \<in> {CHR ''*'', CHR ''?'', CHR ''[''} then [CHR ''['', c, CHR '']''] else [c]) p)"

lemma bracket_one:
  "c \<in> {CHR ''*'', CHR ''?'', CHR ''[''} \<Longrightarrow> bracket (c # CHR '']'' # r) = Some (False, [(c, c)], r)"
  by (auto simp: bracket_def)

text \<open>An escaped path matches itself and nothing else.\<close>

lemma fnmatch_escape: "fnmatch f (glob_escape p) \<longleftrightarrow> f = p"
proof (induction p arbitrary: f)
  case (Cons c p)
  have e: "glob_escape (c # p) =
      (if c \<in> {CHR ''*'', CHR ''?'', CHR ''[''} then [CHR ''['', c, CHR '']''] else [c]) @ glob_escape p"
    by (simp add: glob_escape_def)
  show ?case
  proof (cases f)
    case Nil
    then show ?thesis by (simp add: e)
  next
    case f: (Cons d g)
    have "fnmatch (d # g) (glob_escape (c # p)) \<longleftrightarrow> d = c \<and> fnmatch g (glob_escape p)"
    proof (cases "c \<in> {CHR ''*'', CHR ''?'', CHR ''[''}")
      case True
      have "in_class d False [(c, c)] \<longleftrightarrow> d = c" by (auto simp: in_class_def)
      with True bracket_one [OF True] show ?thesis by (simp add: e)
    next
      case False
      then show ?thesis by (simp add: e)
    qed
    with Cons.IH f show ?thesis by simp
  qed
qed (simp add: glob_escape_def)

end
