(* ===== verification/Knowledge.thy ===== *)
theory Knowledge
  imports Embedding Moment Patterns "HOL-Library.Multiset"
begin

text \<open>
  The knowledge base on Postgres: \<open>models.py\<close> (the items and the checks), \<open>dedup.py\<close>, \<open>ingest.py\<close> and
  \<open>retrieve.py\<close>. A table is a list of rows in insertion order, an operation a function on it, a
  transaction that raises leaves it as it was. What a knowledge store promises is the functions
  \<open>spec_ingest\<close>, \<open>spec_forget\<close> and \<open>spec_update\<close> on lists of entries, and the locale \<open>knowledge_store\<close>
  states that a store implements them; its clients are proved once inside it. The distance of two
  vectors, the parser of timestamps and the server's clock and ids are parameters.
\<close>

section \<open>Items and checks\<close>

record ingest_item =
  it_text :: string
  it_source :: string
  it_url :: "string option"
  it_globs :: "string list"
  it_topic :: "string option"
  it_origin :: "string option"
  it_expires :: "string option"

definition SOURCES :: "string list" where
  "SOURCES = [''remember'', ''review_thread'', ''docs'', ''digest'']"

definition DIGEST_SOURCE :: string where "DIGEST_SOURCE = ''digest''"

datatype kb_error =
    UnknownSource string
  | InvalidText
  | InvalidExpires string
  | DuplicateLearning
  | Constraint string
  | EmbedRaised one_error
  | Misaligned

definition show_opt :: "string option \<Rightarrow> string" where
  "show_opt x = (case x of None \<Rightarrow> ''None'' | Some s \<Rightarrow> s)"

definition check_source :: "string option \<Rightarrow> kb_error + string" where
  "check_source x =
     (case x of
        Some s \<Rightarrow> if s \<in> set SOURCES then Inr s
                  else Inl (UnknownSource (''unknown source '' @ [CHR 0x27] @ s @ [CHR 0x27]
                    @ ''; known sources: '' @ join '', '' SOURCES))
      | None \<Rightarrow> Inl (UnknownSource (''unknown source '' @ [CHR 0x27] @ ''None'' @ [CHR 0x27]
                    @ ''; known sources: '' @ join '', '' SOURCES)))"

definition check_text :: "string option \<Rightarrow> kb_error + string" where
  "check_text x =
     (case x of
        None \<Rightarrow> Inl InvalidText
      | Some t \<Rightarrow> if strip t = '''' then Inl InvalidText else Inr t)"

definition blank :: "string option \<Rightarrow> bool" where
  "blank x = (x = None \<or> x = Some '''')"

text \<open>\<open>_parse_dt\<close> after \<open>datetime.fromisoformat\<close>: the \<open>Z\<close> of a text is written as an offset first.\<close>

fun utc_z :: "string \<Rightarrow> string" where
  "utc_z [] = []"
| "utc_z (c # cs) = (if c = CHR ''Z'' then ''+00:00'' @ utc_z cs else c # utc_z cs)"

definition parse_dt :: "(string \<Rightarrow> moment option) \<Rightarrow> string option \<Rightarrow> moment option" where
  "parse_dt rd x = (case x of None \<Rightarrow> None | Some t \<Rightarrow> if t = '''' then None else rd (utc_z t))"

definition checked_expires :: "(string \<Rightarrow> moment option) \<Rightarrow> string option \<Rightarrow> kb_error + moment option" where
  "checked_expires rd x =
     (case x of
        None \<Rightarrow> Inr None
      | Some t \<Rightarrow>
          if t = '''' then Inr None
          else (case parse_dt rd x of None \<Rightarrow> Inl (InvalidExpires t) | Some m \<Rightarrow> Inr (Some m)))"

section \<open>Deduplication\<close>

type_synonym kb_key = "string \<times> string"

definition item_key :: "ingest_item \<Rightarrow> kb_key" where
  "item_key i = (it_text i, it_source i)"

record sieve =
  sv_embed :: "ingest_item list"
  sv_seen :: "kb_key set"
  sv_skipped :: nat
  sv_deferred :: nat

definition partition_step :: "kb_key set \<Rightarrow> int option \<Rightarrow> ingest_item \<Rightarrow> sieve \<Rightarrow> sieve" where
  "partition_step existing max_new i s =
     (if item_key i \<in> existing \<or> item_key i \<in> sv_seen s
      then s\<lparr>sv_skipped := Suc (sv_skipped s)\<rparr>
      else let s' = s\<lparr>sv_seen := insert (item_key i) (sv_seen s)\<rparr> in
        if (case max_new of None \<Rightarrow> False | Some n \<Rightarrow> n \<le> int (length (sv_embed s)))
        then s'\<lparr>sv_deferred := Suc (sv_deferred s)\<rparr>
        else s'\<lparr>sv_embed := sv_embed s @ [i]\<rparr>)"

definition partition_items ::
  "ingest_item list \<Rightarrow> kb_key set \<Rightarrow> int option \<Rightarrow> ingest_item list \<times> nat \<times> nat" where
  "partition_items items existing max_new =
     (let s = fold (partition_step existing max_new) items
                \<lparr>sv_embed = [], sv_seen = {}, sv_skipped = 0, sv_deferred = 0\<rparr>
      in (sv_embed s, sv_skipped s, sv_deferred s))"

text \<open>The reference: the first item of every key that is not stored yet, and the first of those.\<close>

fun fresh_items :: "kb_key set \<Rightarrow> ingest_item list \<Rightarrow> ingest_item list" where
  "fresh_items E [] = []"
| "fresh_items E (i # is) =
     (if item_key i \<in> E then fresh_items E is else i # fresh_items (insert (item_key i) E) is)"

definition capped :: "int option \<Rightarrow> 'a list \<Rightarrow> 'a list" where
  "capped max_new xs = (case max_new of None \<Rightarrow> xs | Some n \<Rightarrow> take (nat n) xs)"

lemma length_capped: "length (capped c xs) \<le> length xs"
  by (auto simp: capped_def split: option.split)

lemma set_capped: "set (capped c xs) \<subseteq> set xs"
  by (auto simp: capped_def split: option.split dest: in_set_takeD)

lemma fresh_items_not_in: "i \<in> set (fresh_items E is) \<Longrightarrow> item_key i \<notin> E"
  by (induction E "is" rule: fresh_items.induct) (auto split: if_splits)

lemma set_fresh_items: "set (fresh_items E is) \<subseteq> set is"
  by (induction E "is" rule: fresh_items.induct) auto

lemma fresh_items_distinct: "distinct (map item_key (fresh_items E is))"
  by (induction E "is" rule: fresh_items.induct) (auto dest: fresh_items_not_in)

lemma keys_fresh_items: "item_key ` set (fresh_items E is) = item_key ` set is - E"
  by (induction E "is" rule: fresh_items.induct) auto

lemma length_fresh_items: "length (fresh_items E is) \<le> length is"
  by (induction E "is" rule: fresh_items.induct) auto

lemma length_fresh_card: "length (fresh_items E is) = card (item_key ` set is - E)"
  using distinct_card [OF fresh_items_distinct [of E "is"]] by (simp add: keys_fresh_items)

definition room_left :: "int option \<Rightarrow> nat \<Rightarrow> nat \<Rightarrow> nat" where
  "room_left c used n = (case c of None \<Rightarrow> n | Some k \<Rightarrow> nat (k - int used))"

lemma fold_partition:
  "fold (partition_step E c) is s =
     \<lparr>sv_embed = sv_embed s @ take (room_left c (length (sv_embed s)) (length (fresh_items (E \<union> sv_seen s) is)))
                   (fresh_items (E \<union> sv_seen s) is),
      sv_seen = sv_seen s \<union> (item_key ` set is - E),
      sv_skipped = sv_skipped s + (length is - length (fresh_items (E \<union> sv_seen s) is)),
      sv_deferred = sv_deferred s + (length (fresh_items (E \<union> sv_seen s) is)
        - room_left c (length (sv_embed s)) (length (fresh_items (E \<union> sv_seen s) is)))\<rparr>"
proof (induction "is" arbitrary: s)
  case Nil
  then show ?case by (cases s) simp
next
  case (Cons i "is")
  consider (old) "item_key i \<in> E \<union> sv_seen s"
    | (full) n where "item_key i \<notin> E \<union> sv_seen s" "c = Some n" "n \<le> int (length (sv_embed s))"
    | (free) "item_key i \<notin> E \<union> sv_seen s" "c = None"
    | (room) n where "item_key i \<notin> E \<union> sv_seen s" "c = Some n" "int (length (sv_embed s)) < n"
    by (metis linorder_not_less option.exhaust)
  then show ?case
  proof cases
    case old
    then have "partition_step E c i s = s\<lparr>sv_skipped := Suc (sv_skipped s)\<rparr>"
      by (auto simp: partition_step_def)
    with Cons.IH [of "s\<lparr>sv_skipped := Suc (sv_skipped s)\<rparr>"] old
      length_fresh_items [of "E \<union> sv_seen s" "is"]
    show ?thesis by (auto simp: Suc_diff_le)
  next
    case full
    then have "partition_step E c i s =
        s\<lparr>sv_seen := insert (item_key i) (sv_seen s), sv_deferred := Suc (sv_deferred s)\<rparr>"
      by (auto simp: partition_step_def Let_def)
    with Cons.IH [of "s\<lparr>sv_seen := insert (item_key i) (sv_seen s), sv_deferred := Suc (sv_deferred s)\<rparr>"] full
    show ?thesis by (auto simp: room_left_def)
  next
    case free
    then have "partition_step E c i s =
        s\<lparr>sv_seen := insert (item_key i) (sv_seen s), sv_embed := sv_embed s @ [i]\<rparr>"
      by (auto simp: partition_step_def Let_def)
    with Cons.IH [of "s\<lparr>sv_seen := insert (item_key i) (sv_seen s), sv_embed := sv_embed s @ [i]\<rparr>"] free
    show ?thesis by (auto simp: room_left_def)
  next
    case room
    then have "partition_step E c i s =
        s\<lparr>sv_seen := insert (item_key i) (sv_seen s), sv_embed := sv_embed s @ [i]\<rparr>"
      by (auto simp: partition_step_def Let_def)
    moreover have "nat (n - int (length (sv_embed s))) = Suc (nat (n - int (Suc (length (sv_embed s)))))"
      using room by simp
    ultimately show ?thesis
      using Cons.IH [of "s\<lparr>sv_seen := insert (item_key i) (sv_seen s), sv_embed := sv_embed s @ [i]\<rparr>"] room
      by (auto simp: room_left_def)
  qed
qed

lemma partition_spec:
  "partition_items items existing max_new =
     (capped max_new (fresh_items existing items),
      length items - length (fresh_items existing items),
      length (fresh_items existing items) - length (capped max_new (fresh_items existing items)))"
  unfolding partition_items_def Let_def fold_partition
  by (auto simp: capped_def room_left_def min_def split: option.split)

text \<open>The one pass over a batch is its reference. What reaches the embedder are the first items of the keys
  neither stored nor seen, up to the cap; the rest of those are deferred, and everything else is counted
  as a duplicate.\<close>

theorem partition_is_reference:
  "partition_items items existing max_new =
     (capped max_new (fresh_items existing items),
      length items - length (fresh_items existing items),
      length (fresh_items existing items) - length (capped max_new (fresh_items existing items)))"
  by (rule partition_spec)

section \<open>The table\<close>

record 'v learning =
  ln_id :: string
  ln_repo :: string
  ln_text :: string
  ln_source :: string
  ln_url :: "string option"
  ln_globs :: "string list"
  ln_topic :: "string option"
  ln_vec :: 'v
  ln_origin :: "string option"
  ln_created :: int
  ln_expires :: "int option"

text \<open>What a request finds around it: the settings, the embedder, the server's clock and id generator (from
  the ids in use), the canonical form of an id, absent when \<open>UUID(id)\<close> raises, the timestamp parser and
  the rendering of a stored timestamp.\<close>

record 'v kb_env =
  ke_settings :: kb_settings
  ke_ask :: "string list \<Rightarrow> 'v embed_reply"
  ke_now :: int
  ke_uuid :: "string list \<Rightarrow> string"
  ke_id :: "string \<Rightarrow> string option"
  ke_read :: "string \<Rightarrow> moment option"
  ke_show :: "int \<Rightarrow> string"

type_synonym 'v learnings = "'v learning list"

definition ln_key :: "'v learning \<Rightarrow> string \<times> kb_key" where
  "ln_key r = (ln_repo r, ln_text r, ln_source r)"

definition live :: "int \<Rightarrow> 'v learning \<Rightarrow> bool" where
  "live now r = (case ln_expires r of None \<Rightarrow> True | Some e \<Rightarrow> now < e)"

subsection \<open>Ingest\<close>

definition existing_keys :: "string \<Rightarrow> ingest_item list \<Rightarrow> 'v learnings \<Rightarrow> kb_key set" where
  "existing_keys repo items t =
     (\<lambda>r. (ln_text r, ln_source r)) `
       set (filter (\<lambda>r. ln_repo r = repo \<and> ln_text r \<in> it_text ` set items
                     \<and> (ln_text r, ln_source r) \<in> item_key ` set items) t)"

definition new_row :: "'v kb_env \<Rightarrow> string \<Rightarrow> string \<Rightarrow> ingest_item \<Rightarrow> 'v \<Rightarrow> 'v learning" where
  "new_row env uid repo i v =
     \<lparr>ln_id = uid, ln_repo = repo, ln_text = it_text i, ln_source = it_source i, ln_url = it_url i,
      ln_globs = it_globs i, ln_topic = it_topic i, ln_vec = v, ln_origin = it_origin i,
      ln_created = ke_now env, ln_expires = map_option instant (parse_dt (ke_read env) (it_expires i))\<rparr>"

text \<open>\<open>_INSERT_SQL\<close>: the CHECK constraint, \<open>ON CONFLICT (repo, text, source) DO NOTHING\<close>, the primary key.
  The state of the loop is the table and the two counts.\<close>

definition insert_learning ::
  "'v kb_env \<Rightarrow> string \<Rightarrow> ingest_item \<times> 'v \<Rightarrow> 'v learnings \<times> nat \<times> nat \<Rightarrow> kb_error + 'v learnings \<times> nat \<times> nat" where
  "insert_learning env repo iv s =
     (case iv of (i, v) \<Rightarrow> case s of (t, inserted, skipped) \<Rightarrow>
        let uid = ke_uuid env (map ln_id t) in
        if it_source i \<notin> set SOURCES then Inl (Constraint ''learnings_source_check'')
        else if (repo, item_key i) \<in> ln_key ` set t then Inr (t, inserted, Suc skipped)
        else if uid \<in> ln_id ` set t then Inl (Constraint ''learnings_pkey'')
        else Inr (t @ [new_row env uid repo i v], Suc inserted, skipped))"

text \<open>\<open>ingest\<close>: the keys are read from \<open>seen\<close>, the table of an earlier transaction; the inserts run on \<open>t\<close>.
  \<open>zip(..., strict=True)\<close> raises after the shorter list, and the transaction is rolled back.\<close>

definition pg_ingest ::
  "'v kb_env \<Rightarrow> string \<Rightarrow> ingest_item list \<Rightarrow> int option \<Rightarrow> 'v learnings \<Rightarrow> 'v learnings
     \<Rightarrow> (kb_error + nat \<times> nat) \<times> 'v learnings" where
  "pg_ingest env repo items max_new seen t =
     (if items = [] then (Inr (0, 0), t)
      else case partition_items items (existing_keys repo items seen) max_new of
        (to_embed, skipped, deferred) \<Rightarrow>
          if to_embed = [] then (Inr (0, skipped), t)
          else case embed (ke_settings env) (ke_ask env) (map it_text to_embed) of
            Inl e \<Rightarrow> (Inl (EmbedRaised (OneFailed e)), t)
          | Inr vs \<Rightarrow>
              (case fold_err (insert_learning env repo) (zip to_embed vs) (t, 0, skipped) of
                 Inl e \<Rightarrow> (Inl e, t)
               | Inr (t', inserted, skipped') \<Rightarrow>
                   if length to_embed \<noteq> length vs then (Inl Misaligned, t)
                   else (Inr (inserted, skipped'), t')))"

subsection \<open>Reading\<close>

record stored_learning =
  sl_id :: string
  sl_repo :: string
  sl_text :: string
  sl_source :: string
  sl_url :: "string option"
  sl_globs :: "string list"
  sl_topic :: "string option"
  sl_created :: "string option"
  sl_expires :: "string option"

definition pg_row :: "'v kb_env \<Rightarrow> 'v learning \<Rightarrow> stored_learning" where
  "pg_row env r =
     \<lparr>sl_id = ln_id r, sl_repo = ln_repo r, sl_text = ln_text r, sl_source = ln_source r,
      sl_url = ln_url r, sl_globs = ln_globs r, sl_topic = ln_topic r,
      sl_created = Some (ke_show env (ln_created r)), sl_expires = map_option (ke_show env) (ln_expires r)\<rparr>"

definition is_row :: "string \<Rightarrow> string \<Rightarrow> 'v learning \<Rightarrow> bool" where
  "is_row repo uid r = (ln_repo r = repo \<and> ln_id r = uid)"

definition pg_get :: "'v kb_env \<Rightarrow> string \<Rightarrow> string \<Rightarrow> 'v learnings \<Rightarrow> stored_learning option" where
  "pg_get env repo uid t =
     (case ke_id env uid of
        None \<Rightarrow> None
      | Some u \<Rightarrow> map_option (pg_row env) (find (is_row repo u) t))"

text \<open>An optional filter of a listing; the empty string is no filter.\<close>

definition asked :: "string option \<Rightarrow> string \<Rightarrow> bool" where
  "asked x s = (blank x \<or> x = Some s)"

definition searched :: "(string \<Rightarrow> string \<Rightarrow> bool) \<Rightarrow> string option \<Rightarrow> string \<Rightarrow> string option \<Rightarrow> bool" where
  "searched matches q body topic =
     (case q of
        None \<Rightarrow> True
      | Some t \<Rightarrow> t = '''' \<or> matches body (like_pattern t)
                    \<or> matches (case topic of None \<Rightarrow> '''' | Some s \<Rightarrow> s) (like_pattern t))"

definition listed ::
  "'v kb_env \<Rightarrow> string option \<Rightarrow> string option \<Rightarrow> string option \<Rightarrow> bool \<Rightarrow> 'v learnings \<Rightarrow> 'v learnings" where
  "listed env repo source q include_expired t =
     filter (\<lambda>r. (include_expired \<or> live (ke_now env) r) \<and> asked repo (ln_repo r)
       \<and> asked source (ln_source r) \<and> searched ilike q (ln_text r) (ln_topic r)) t"

definition pg_list ::
  "'v kb_env \<Rightarrow> string option \<Rightarrow> string option \<Rightarrow> nat \<Rightarrow> nat \<Rightarrow> string option \<Rightarrow> bool \<Rightarrow> 'v learnings
     \<Rightarrow> stored_learning list \<times> nat" where
  "pg_list env repo source limit offset q include_expired t =
     (let rows = listed env repo source q include_expired t in
        (map (pg_row env) (take limit (drop offset (rev (sort_key (\<lambda>r. (ln_created r, ln_id r)) rows)))),
         length rows))"

text \<open>\<open>fold_repo_counts\<close> over the groups of a \<open>GROUP BY repo, source\<close>.\<close>

record repo_summary =
  sm_repo :: string
  sm_count :: nat
  sm_sources :: "(string, nat) dict"

definition count_repo :: "string \<times> string \<times> nat \<Rightarrow> (string, repo_summary) dict \<Rightarrow> (string, repo_summary) dict" where
  "count_repo g d =
     (case g of (repo, source, n) \<Rightarrow>
        let e = (case map_of d repo of None \<Rightarrow> \<lparr>sm_repo = repo, sm_count = 0, sm_sources = []\<rparr> | Some e \<Rightarrow> e);
            k = (case map_of (sm_sources e) source of None \<Rightarrow> 0 | Some k \<Rightarrow> k)
        in dict_set repo (e\<lparr>sm_count := sm_count e + n, sm_sources := dict_set source (k + n) (sm_sources e)\<rparr>) d)"

definition fold_repo_counts :: "(string \<times> string \<times> nat) list \<Rightarrow> repo_summary list" where
  "fold_repo_counts groups =
     (let d = fold count_repo groups [] in map (\<lambda>k. the (map_of d k)) (sort (map fst d)))"

definition group_counts :: "(string \<times> string) list \<Rightarrow> (string \<times> string \<times> nat) list" where
  "group_counts ks = map (\<lambda>k. (fst k, snd k, length (filter (\<lambda>x. x = k) ks))) (remdups ks)"

definition pg_repos :: "'v kb_env \<Rightarrow> 'v learnings \<Rightarrow> repo_summary list" where
  "pg_repos env t =
     fold_repo_counts (group_counts (map (\<lambda>r. (ln_repo r, ln_source r)) (filter (live (ke_now env)) t)))"

subsection \<open>Forgetting\<close>

definition pg_forget ::
  "'v kb_env \<Rightarrow> string \<Rightarrow> string option \<Rightarrow> string option \<Rightarrow> bool \<Rightarrow> 'v learnings \<Rightarrow> nat \<times> 'v learnings" where
  "pg_forget env repo uid source everything t =
     (let delete = (\<lambda>P. (length (filter P t), filter (\<lambda>r. \<not> P r) t)) in
      if \<not> blank uid then
        (case ke_id env (the uid) of None \<Rightarrow> (0, t) | Some u \<Rightarrow> delete (is_row repo u))
      else if \<not> blank source then delete (\<lambda>r. ln_repo r = repo \<and> ln_source r = the source)
      else if everything then delete (\<lambda>r. ln_repo r = repo)
      else (0, t))"

subsection \<open>Editing\<close>

text \<open>A supplied field is \<open>Some\<close>; its value may be null.\<close>

record kb_changes =
  ch_text :: "string option option"
  ch_source :: "string option option"
  ch_url :: "string option option"
  ch_globs :: "string list option option"
  ch_topic :: "string option option"
  ch_expires :: "string option option"

definition no_changes :: kb_changes where
  "no_changes = \<lparr>ch_text = None, ch_source = None, ch_url = None, ch_globs = None, ch_topic = None, ch_expires = None\<rparr>"

definition check_changes :: "(string \<Rightarrow> moment option) \<Rightarrow> kb_changes \<Rightarrow> kb_error + moment option option" where
  "check_changes rd ch =
     (case (case ch_source ch of None \<Rightarrow> Inr '''' | Some s \<Rightarrow> check_source s) of
        Inl e \<Rightarrow> Inl e
      | Inr _ \<Rightarrow>
          (case (case ch_text ch of None \<Rightarrow> Inr '''' | Some t \<Rightarrow> check_text t) of
             Inl e \<Rightarrow> Inl e
           | Inr _ \<Rightarrow>
               (case ch_expires ch of
                  None \<Rightarrow> Inr None
                | Some x \<Rightarrow> (case checked_expires rd x of Inl e \<Rightarrow> Inl e | Inr m \<Rightarrow> Inr (Some m)))))"

text \<open>The vector the edit needs: none when the text stays what it is.\<close>

definition new_vector ::
  "kb_settings \<Rightarrow> (string list \<Rightarrow> 'v embed_reply) \<Rightarrow> kb_changes \<Rightarrow> string \<Rightarrow> kb_error + 'v option" where
  "new_vector S ask ch current =
     (case ch_text ch of
        Some (Some t) \<Rightarrow>
          if t = current then Inr None
          else (case embed_one S ask t of Inl e \<Rightarrow> Inl (EmbedRaised e) | Inr v \<Rightarrow> Inr (Some v))
      | _ \<Rightarrow> Inr None)"

definition supplied :: "'a option \<Rightarrow> 'a \<Rightarrow> 'a" where
  "supplied x d = (case x of None \<Rightarrow> d | Some v \<Rightarrow> v)"

definition changed_row ::
  "kb_changes \<Rightarrow> moment option option \<Rightarrow> 'v option \<Rightarrow> 'v learning \<Rightarrow> 'v learning" where
  "changed_row ch ex v r =
     r\<lparr>ln_text := the (supplied (ch_text ch) (Some (ln_text r))),
       ln_source := the (supplied (ch_source ch) (Some (ln_source r))),
       ln_url := supplied (ch_url ch) (ln_url r),
       ln_globs := the (supplied (ch_globs ch) (Some (ln_globs r))),
       ln_topic := supplied (ch_topic ch) (ln_topic r),
       ln_expires := (case ex of None \<Rightarrow> ln_expires r | Some m \<Rightarrow> map_option instant m),
       ln_vec := supplied v (ln_vec r)\<rparr>"

text \<open>\<open>update\<close>. The \<open>file_globs\<close> column is NOT NULL.\<close>

definition pg_update ::
  "'v kb_env \<Rightarrow> string \<Rightarrow> string \<Rightarrow> kb_changes \<Rightarrow> 'v learnings
     \<Rightarrow> (kb_error + stored_learning option) \<times> 'v learnings" where
  "pg_update env repo uid ch t =
     (case ke_id env uid of
        None \<Rightarrow> (Inr None, t)
      | Some u \<Rightarrow>
          (case check_changes (ke_read env) ch of
             Inl e \<Rightarrow> (Inl e, t)
           | Inr ex \<Rightarrow>
               if ch = no_changes then (Inr (pg_get env repo uid t), t)
               else (case find (is_row repo u) t of
                  None \<Rightarrow> (Inr None, t)
                | Some cur \<Rightarrow>
                    (case new_vector (ke_settings env) (ke_ask env) ch (ln_text cur) of
                       Inl e \<Rightarrow> (Inl e, t)
                     | Inr v \<Rightarrow>
                         let new = changed_row ch ex v cur in
                         if ch_globs ch = Some None then (Inl (Constraint ''file_globs''), t)
                         else if list_ex (\<lambda>r. ln_id r \<noteq> u \<and> ln_key r = ln_key new) t
                         then (Inl DuplicateLearning, t)
                         else (Inr (Some (pg_row env new)), map (\<lambda>r. if is_row repo u r then new else r) t)))))"

subsection \<open>Retrieval\<close>

record 'd hit =
  ht_id :: string
  ht_text :: string
  ht_source :: string
  ht_url :: "string option"
  ht_globs :: "string list"
  ht_topic :: "string option"
  ht_score :: 'd

text \<open>\<open>xs[:k]\<close> for any integer, and a stable sort by falling score.\<close>

definition slice_to :: "int \<Rightarrow> 'a list \<Rightarrow> 'a list" where
  "slice_to k xs = take (nat (if 0 \<le> k then k else int (length xs) + k)) xs"

definition best_first :: "'d::linorder hit list \<Rightarrow> 'd hit list" where
  "best_first hs = rev (sort_key ht_score (rev hs))"

definition in_scope :: "string list \<Rightarrow> string list \<Rightarrow> bool" where
  "in_scope files globs = (globs = [] \<or> list_ex (\<lambda>f. list_ex (fnmatch f) globs) files)"

definition top_k :: "kb_settings \<Rightarrow> int option \<Rightarrow> int" where
  "top_k S k = (case k of None \<Rightarrow> ks_top_k S | Some n \<Rightarrow> if n = 0 then ks_top_k S else n)"

text \<open>\<open>ORDER BY embedding <=> vec LIMIT k\<close>; \<open>near\<close> is the distance of two vectors.\<close>

definition nearest :: "('v \<Rightarrow> 'v \<Rightarrow> 'd::linorder) \<Rightarrow> 'v \<Rightarrow> nat \<Rightarrow> 'v learnings \<Rightarrow> 'v learnings" where
  "nearest near v k rows = take k (sort_key (\<lambda>r. near (ln_vec r) v) rows)"

definition visible :: "'v kb_env \<Rightarrow> string \<Rightarrow> 'v learning \<Rightarrow> bool" where
  "visible env repo r = (ln_repo r = repo \<and> live (ke_now env) r
     \<and> (ks_digests (ke_settings env) \<or> ln_source r \<noteq> DIGEST_SOURCE))"

definition hit_of :: "('v \<Rightarrow> 'd) \<Rightarrow> 'v learning \<Rightarrow> 'd hit" where
  "hit_of score r = \<lparr>ht_id = ln_id r, ht_text = ln_text r, ht_source = ln_source r, ht_url = ln_url r,
     ht_globs = ln_globs r, ht_topic = ln_topic r, ht_score = score (ln_vec r)\<rparr>"

text \<open>The rows of both passes, one per id, at the place it was met first.\<close>

definition merged :: "'v learnings \<Rightarrow> 'v learnings" where
  "merged rows = map snd (fold (\<lambda>r d. dict_set (ln_id r) r d) rows [])"

definition pg_query ::
  "'v kb_env \<Rightarrow> ('v \<Rightarrow> 'v \<Rightarrow> 'd::linorder) \<Rightarrow> ('d \<Rightarrow> 'd) \<Rightarrow> string \<Rightarrow> string list \<Rightarrow> string option
     \<Rightarrow> string option \<Rightarrow> int option \<Rightarrow> 'v learnings \<Rightarrow> kb_error + 'd hit list" where
  "pg_query env near similarity repo files pr_body query_text k t =
     (let q = build_query (ke_settings env) files pr_body query_text in
      if q = '''' then Inr []
      else case embed_query (ke_settings env) (ke_ask env) q of
        Inl e \<Rightarrow> Inl (EmbedRaised e)
      | Inr v \<Rightarrow>
          let cand = nat (ks_candidate_k (ke_settings env));
              semantic = nearest near v cand (filter (visible env repo) t);
              scoped = nearest near v cand (filter (\<lambda>r. visible env repo r \<and> ln_globs r \<noteq> []) t)
          in Inr (slice_to (top_k (ke_settings env) k)
               (best_first (map (hit_of (\<lambda>w. similarity (near w v)))
                  (filter (\<lambda>r. in_scope files (ln_globs r)) (merged (semantic @ scoped)))))))"

section \<open>What a knowledge store promises\<close>

record 'v entry =
  en_id :: string
  en_repo :: string
  en_text :: string
  en_source :: string
  en_url :: "string option"
  en_globs :: "string list"
  en_topic :: "string option"
  en_vec :: 'v

definition en_key :: "'v entry \<Rightarrow> string \<times> kb_key" where
  "en_key r = (en_repo r, en_text r, en_source r)"

text \<open>Ids and keys are unique, and every vector is the embedding of the text beside it.\<close>

definition entries_ok :: "(string \<Rightarrow> 'v) \<Rightarrow> 'v entry list \<Rightarrow> bool" where
  "entries_ok emb es = (distinct (map en_id es) \<and> distinct (map en_key es)
     \<and> (\<forall>r \<in> set es. en_vec r = emb (en_text r) \<and> en_source r \<in> set SOURCES))"

definition keys_of :: "string \<Rightarrow> 'v entry list \<Rightarrow> kb_key set" where
  "keys_of repo es = (\<lambda>r. (en_text r, en_source r)) ` set (filter (\<lambda>r. en_repo r = repo) es)"

definition new_entry :: "(string \<Rightarrow> 'v) \<Rightarrow> string \<Rightarrow> string \<Rightarrow> ingest_item \<Rightarrow> 'v entry" where
  "new_entry emb uid repo i =
     \<lparr>en_id = uid, en_repo = repo, en_text = it_text i, en_source = it_source i, en_url = it_url i,
      en_globs = it_globs i, en_topic = it_topic i, en_vec = emb (it_text i)\<rparr>"

definition add_entry ::
  "(string list \<Rightarrow> string) \<Rightarrow> (string \<Rightarrow> 'v) \<Rightarrow> string \<Rightarrow> ingest_item \<Rightarrow> 'v entry list \<Rightarrow> 'v entry list" where
  "add_entry uuid emb repo i es = es @ [new_entry emb (uuid (map en_id es)) repo i]"

definition spec_ingest ::
  "(string list \<Rightarrow> string) \<Rightarrow> (string \<Rightarrow> 'v) \<Rightarrow> string \<Rightarrow> ingest_item list \<Rightarrow> int option \<Rightarrow> 'v entry list
     \<Rightarrow> (nat \<times> nat) \<times> 'v entry list" where
  "spec_ingest uuid emb repo items max_new es =
     (let fresh = fresh_items (keys_of repo es) items; taken = capped max_new fresh in
        ((length taken, length items - length fresh), fold (add_entry uuid emb repo) taken es))"

text \<open>The entries a \<open>forget\<close> names; \<open>canon\<close> is the form in which the store keeps an id.\<close>

definition forgotten ::
  "(string \<Rightarrow> string option) \<Rightarrow> string \<Rightarrow> string option \<Rightarrow> string option \<Rightarrow> bool \<Rightarrow> 'v entry \<Rightarrow> bool" where
  "forgotten canon repo uid source everything r = (en_repo r = repo \<and>
     (if \<not> blank uid then canon (the uid) = Some (en_id r)
      else if \<not> blank source then en_source r = the source
      else everything))"

definition changed_entry :: "(string \<Rightarrow> 'v) \<Rightarrow> kb_changes \<Rightarrow> 'v entry \<Rightarrow> 'v entry" where
  "changed_entry emb ch r =
     (let body = the (supplied (ch_text ch) (Some (en_text r))) in
      r\<lparr>en_text := body, en_source := the (supplied (ch_source ch) (Some (en_source r))),
        en_url := supplied (ch_url ch) (en_url r), en_globs := the (supplied (ch_globs ch) (Some (en_globs r))),
        en_topic := supplied (ch_topic ch) (en_topic r), en_vec := emb body\<rparr>)"

definition spec_update ::
  "(string \<Rightarrow> string option) \<Rightarrow> (string \<Rightarrow> moment option) \<Rightarrow> (string \<Rightarrow> 'v) \<Rightarrow> string \<Rightarrow> string \<Rightarrow> kb_changes
     \<Rightarrow> 'v entry list \<Rightarrow> (kb_error + 'v entry option) \<times> 'v entry list" where
  "spec_update canon rd emb repo uid ch es =
     (case canon uid of
        None \<Rightarrow> (Inr None, es)
      | Some u \<Rightarrow>
          (case check_changes rd ch of
             Inl e \<Rightarrow> (Inl e, es)
           | Inr ex \<Rightarrow>
               (case find (\<lambda>r. en_repo r = repo \<and> en_id r = u) es of
                  None \<Rightarrow> (Inr None, es)
                | Some cur \<Rightarrow>
                    let new = changed_entry emb ch cur in
                    if list_ex (\<lambda>r. en_id r \<noteq> u \<and> en_key r = en_key new) es then (Inl DuplicateLearning, es)
                    else (Inr (Some new), map (\<lambda>r. if en_repo r = repo \<and> en_id r = u then new else r) es))))"

subsection \<open>The promise keeps the entries in order\<close>

lemma add_entry_ok:
  assumes "entries_ok emb es" "\<And>ids. uuid ids \<notin> set ids" "item_key i \<notin> keys_of repo es"
    and "it_source i \<in> set SOURCES"
  shows "entries_ok emb (add_entry uuid emb repo i es)"
proof -
  have "en_key (new_entry emb u repo i) \<notin> en_key ` set es" for u
    using assms(3) by (auto simp: keys_of_def en_key_def new_entry_def item_key_def image_iff)
  moreover have "uuid (map en_id es) \<notin> en_id ` set es" using assms(2) [of "map en_id es"] by simp
  ultimately show ?thesis
    using assms(1,4) by (auto simp: entries_ok_def add_entry_def new_entry_def)
qed

lemma keys_add_entry: "keys_of repo (add_entry uuid emb repo i es) = insert (item_key i) (keys_of repo es)"
  by (auto simp: keys_of_def add_entry_def new_entry_def item_key_def)

lemma keys_add_entries:
  "keys_of repo (fold (add_entry uuid emb repo) is es) = item_key ` set is \<union> keys_of repo es"
  by (induction "is" arbitrary: es) (simp_all add: keys_add_entry)

lemma add_entries_ok:
  assumes "\<And>ids. uuid ids \<notin> set ids"
  shows "entries_ok emb es \<Longrightarrow> distinct (map item_key is) \<Longrightarrow> item_key ` set is \<inter> keys_of repo es = {}
     \<Longrightarrow> \<forall>i \<in> set is. it_source i \<in> set SOURCES \<Longrightarrow> entries_ok emb (fold (add_entry uuid emb repo) is es)"
proof (induction "is" arbitrary: es)
  case (Cons i "is")
  have "entries_ok emb (add_entry uuid emb repo i es)"
    using Cons.prems add_entry_ok [OF _ assms] by auto
  moreover have "item_key ` set is \<inter> keys_of repo (add_entry uuid emb repo i es) = {}"
    using Cons.prems by (auto simp: keys_add_entry)
  ultimately show ?case using Cons by simp
qed simp

lemma en_repo_new: "en_repo (new_entry emb u repo i) = repo"
  by (simp add: new_entry_def)

lemma add_entries_append: "\<exists>ns. fold (add_entry uuid emb repo) is es = es @ ns \<and> length ns = length is
   \<and> (\<forall>r \<in> set ns. en_repo r = repo)"
proof (induction "is" arbitrary: es)
  case (Cons i "is")
  from Cons.IH [of "add_entry uuid emb repo i es"] obtain ns where
    "fold (add_entry uuid emb repo) is (add_entry uuid emb repo i es) = add_entry uuid emb repo i es @ ns"
    "length ns = length is" "\<forall>r \<in> set ns. en_repo r = repo" by blast
  moreover have "add_entry uuid emb repo i es = es @ [new_entry emb (uuid (map en_id es)) repo i]"
    by (simp add: add_entry_def)
  ultimately show ?case
    by (intro exI [of _ "new_entry emb (uuid (map en_id es)) repo i # ns"]) (simp add: en_repo_new)
qed simp

lemma distinct_capped: "distinct (map f xs) \<Longrightarrow> distinct (map f (capped c xs))"
  by (auto simp: capped_def take_map [symmetric] split: option.split)

lemma spec_ingest_ok:
  assumes "\<And>ids. uuid ids \<notin> set ids" "entries_ok emb es" "\<forall>i \<in> set items. it_source i \<in> set SOURCES"
  shows "entries_ok emb (snd (spec_ingest uuid emb repo items c es))"
proof -
  let ?is = "capped c (fresh_items (keys_of repo es) items)"
  have "distinct (map item_key ?is)" by (rule distinct_capped [OF fresh_items_distinct])
  moreover have "item_key i \<notin> keys_of repo es" if "i \<in> set ?is" for i
    by (rule fresh_items_not_in [OF subsetD [OF set_capped that]])
  then have "item_key ` set ?is \<inter> keys_of repo es = {}" by blast
  moreover have "\<forall>i \<in> set ?is. it_source i \<in> set SOURCES"
    using assms(3) set_capped [of c "fresh_items (keys_of repo es) items"] set_fresh_items by blast
  ultimately show ?thesis
    using add_entries_ok [OF assms(1,2)] by (simp add: spec_ingest_def Let_def)
qed

lemma entries_ok_filter: "entries_ok emb es \<Longrightarrow> entries_ok emb (filter P es)"
  by (auto simp: entries_ok_def distinct_map_filter)

lemma checked_fields:
  "check_changes rd ch = Inr ex \<Longrightarrow>
     (case ch_source ch of None \<Rightarrow> True | Some s \<Rightarrow> \<exists>x. s = Some x \<and> x \<in> set SOURCES)
   \<and> (case ch_text ch of None \<Rightarrow> True | Some t \<Rightarrow> \<exists>x. t = Some x \<and> strip x \<noteq> '''')"
  by (auto simp: check_changes_def check_source_def check_text_def split: option.splits sum.splits if_splits)

lemma changed_entry_ok:
  assumes "check_changes rd ch = Inr ex" "en_source r \<in> set SOURCES"
  shows "en_vec (changed_entry emb ch r) = emb (en_text (changed_entry emb ch r))
     \<and> en_source (changed_entry emb ch r) \<in> set SOURCES
     \<and> en_id (changed_entry emb ch r) = en_id r \<and> en_repo (changed_entry emb ch r) = en_repo r"
  using checked_fields [OF assms(1)] assms(2)
  by (auto simp: changed_entry_def Let_def supplied_def split: option.splits)

lemma distinct_replace:
  assumes "distinct (map f xs)" "\<And>x. x \<in> set xs \<Longrightarrow> P x \<Longrightarrow> x = c" "\<forall>x \<in> set xs. \<not> P x \<longrightarrow> f x \<noteq> f n"
  shows "distinct (map f (map (\<lambda>x. if P x then n else x) xs))"
  using assms
proof (induction xs)
  case (Cons x xs)
  have IH: "distinct (map f (map (\<lambda>x. if P x then n else x) xs))" using Cons by simp
  have "\<not> P y" if "y \<in> set xs" "P x" for y
  proof
    assume "P y"
    then have "y = c" "x = c" using Cons.prems(2) that by simp_all
    then show False using Cons.prems(1) that(1) by simp
  qed
  have "f (if P x then n else x) \<noteq> f (if P y then n else y)" if y: "y \<in> set xs" for y
  proof (cases "P x")
    case True
    with \<open>y \<in> set xs\<close> \<open>\<And>y. y \<in> set xs \<Longrightarrow> P x \<Longrightarrow> \<not> P y\<close> Cons.prems(3) show ?thesis by force
  next
    case False
    with y Cons.prems(1,3) show ?thesis by (cases "P y") (force, force)
  qed
  then have "f (if P x then n else x) \<notin> set (map f (map (\<lambda>x. if P x then n else x) xs))"
    unfolding set_map image_image by blast
  with IH show ?case by (simp only: list.map distinct.simps simp_thms)
qed simp

lemma spec_update_ok:
  assumes "entries_ok emb es"
  shows "entries_ok emb (snd (spec_update canon rd emb repo uid ch es))"
proof -
  have "entries_ok emb (map (\<lambda>r. if en_repo r = repo \<and> en_id r = u then changed_entry emb ch cur else r) es)"
    if find: "find (\<lambda>r. en_repo r = repo \<and> en_id r = u) es = Some cur"
      and ex: "check_changes rd ch = Inr ex"
      and free: "\<not> list_ex (\<lambda>r. en_id r \<noteq> u \<and> en_key r = en_key (changed_entry emb ch cur)) es" for u cur ex
  proof -
    from find have cur: "cur \<in> set es" "en_repo cur = repo" "en_id cur = u"
      by (auto simp: find_Some_iff)
    have src: "en_source cur \<in> set SOURCES" using assms cur(1) by (simp add: entries_ok_def)
    note new = changed_entry_ok [OF ex src, of emb]
    have only: "x = cur" if "x \<in> set es" "en_repo x = repo \<and> en_id x = u" for x
      using distinct_map_inj [of en_id es x cur] assms that cur by (simp add: entries_ok_def)
    have id_only: "x = cur" if "x \<in> set es" "en_id x = u" for x
      using distinct_map_inj [of en_id es x cur] assms that cur by (simp add: entries_ok_def)
    have d: "distinct (map en_id es)" "distinct (map en_key es)" using assms by (simp_all add: entries_ok_def)
    have i: "\<forall>x \<in> set es. \<not> (en_repo x = repo \<and> en_id x = u) \<longrightarrow> en_id x \<noteq> en_id (changed_entry emb ch cur)"
    proof (intro ballI impI notI)
      fix x assume "x \<in> set es" "en_id x = en_id (changed_entry emb ch cur)"
      then have "x = cur" using id_only new cur(3) by simp
      moreover assume "\<not> (en_repo x = repo \<and> en_id x = u)"
      ultimately show False using cur by simp
    qed
    have k: "\<forall>x \<in> set es. \<not> (en_repo x = repo \<and> en_id x = u) \<longrightarrow> en_key x \<noteq> en_key (changed_entry emb ch cur)"
    proof (intro ballI impI notI)
      fix x assume x: "x \<in> set es" "en_key x = en_key (changed_entry emb ch cur)"
      then have "en_id x = u" using free unfolding list_ex_iff by blast
      then have "x = cur" using id_only x(1) by simp
      moreover assume "\<not> (en_repo x = repo \<and> en_id x = u)"
      ultimately show False using cur by simp
    qed
    note distinct_replace [OF d(1) only i] distinct_replace [OF d(2) only k]
    moreover have "\<forall>r \<in> set (map (\<lambda>r. if en_repo r = repo \<and> en_id r = u then changed_entry emb ch cur else r) es).
        en_vec r = emb (en_text r) \<and> en_source r \<in> set SOURCES"
      using assms new cur(1) by (auto simp: entries_ok_def)
    ultimately show ?thesis unfolding entries_ok_def by blast
  qed
  then show ?thesis using assms
    unfolding spec_update_def Let_def
    by (simp split: option.split sum.split)
qed

subsection \<open>The interface and its clients\<close>

definition shows_entry :: "stored_learning \<Rightarrow> 'v entry \<Rightarrow> bool" where
  "shows_entry s r = (sl_id s = en_id r \<and> sl_repo s = en_repo r \<and> sl_text s = en_text r
     \<and> sl_source s = en_source r \<and> sl_url s = en_url r \<and> sl_globs s = en_globs r \<and> sl_topic s = en_topic r)"

text \<open>\<open>Store\<close> of \<open>backends/base.py\<close>, as far as it changes what is stored. Clearing \<open>file_globs\<close> with a null
  is left out: the two stores treat it differently.\<close>

locale knowledge_store =
  fixes ingest :: "string \<Rightarrow> ingest_item list \<Rightarrow> int option \<Rightarrow> 'db \<Rightarrow> (kb_error + nat \<times> nat) \<times> 'db"
    and forget :: "string \<Rightarrow> string option \<Rightarrow> string option \<Rightarrow> bool \<Rightarrow> 'db \<Rightarrow> (kb_error + nat) \<times> 'db"
    and update :: "string \<Rightarrow> string \<Rightarrow> kb_changes \<Rightarrow> 'db \<Rightarrow> (kb_error + stored_learning option) \<times> 'db"
    and entries :: "'db \<Rightarrow> 'v entry list"
    and inv :: "'db \<Rightarrow> bool"
    and uuid :: "string list \<Rightarrow> string"
    and emb :: "string \<Rightarrow> 'v"
    and canon :: "string \<Rightarrow> string option"
    and rd :: "string \<Rightarrow> moment option"
  assumes in_order: "inv db \<Longrightarrow> entries_ok emb (entries db)"
    and ingest_meets: "inv db \<Longrightarrow> \<forall>i \<in> set items. it_source i \<in> set SOURCES \<Longrightarrow>
        fst (ingest repo items c db) = Inr (fst (spec_ingest uuid emb repo items c (entries db)))
        \<and> entries (snd (ingest repo items c db)) = snd (spec_ingest uuid emb repo items c (entries db))
        \<and> inv (snd (ingest repo items c db))"
    and forget_meets: "inv db \<Longrightarrow>
        fst (forget repo uid source everything db)
          = Inr (length (filter (forgotten canon repo uid source everything) (entries db)))
        \<and> entries (snd (forget repo uid source everything db))
          = filter (\<lambda>r. \<not> forgotten canon repo uid source everything r) (entries db)
        \<and> inv (snd (forget repo uid source everything db))"
    and update_meets: "inv db \<Longrightarrow> ch_globs ch \<noteq> Some None \<Longrightarrow>
        rel_sum (=) (rel_option shows_entry) (fst (update repo u ch db))
          (fst (spec_update canon rd emb repo u ch (entries db)))
        \<and> entries (snd (update repo u ch db)) = snd (spec_update canon rd emb repo u ch (entries db))
        \<and> inv (snd (update repo u ch db))"
begin

lemma ingest_keys:
  assumes "inv db" "\<forall>i \<in> set items. it_source i \<in> set SOURCES"
  shows "keys_of repo (entries (snd (ingest repo items c db)))
    = item_key ` set (capped c (fresh_items (keys_of repo (entries db)) items)) \<union> keys_of repo (entries db)"
  using ingest_meets [OF assms, of repo c] by (simp add: spec_ingest_def Let_def keys_add_entries)

text \<open>What is left of a batch after one pass of at most \<open>n\<close>.\<close>

lemma pass_left:
  assumes "inv db" "\<forall>i \<in> set items. it_source i \<in> set SOURCES"
  shows "length (fresh_items (keys_of repo (entries (snd (ingest repo items (Some (int n)) db)))) items)
    = length (fresh_items (keys_of repo (entries db)) items) - n"
proof -
  let ?E = "keys_of repo (entries db)"
  let ?fs = "fresh_items ?E items"
  have sub: "item_key ` set (take n ?fs) \<subseteq> item_key ` set items - ?E"
    using keys_fresh_items [of ?E items] set_take_subset [of n ?fs] by blast
  have "distinct (map item_key (take n ?fs))"
    unfolding take_map [symmetric] using fresh_items_distinct by (rule distinct_take)
  from distinct_card [OF this] have "card (item_key ` set (take n ?fs)) = length (take n ?fs)" by simp
  moreover have "item_key ` set items - (item_key ` set (take n ?fs) \<union> ?E)
      = (item_key ` set items - ?E) - item_key ` set (take n ?fs)" by blast
  moreover have "finite (item_key ` set (take n ?fs))" by simp
  ultimately have "card (item_key ` set items - (item_key ` set (take n ?fs) \<union> ?E)) = length ?fs - n"
    using card_Diff_subset [OF _ sub] by (simp add: length_fresh_card min_def)
  then show ?thesis
    using ingest_keys [OF assms, of repo "Some (int n)"] by (simp add: capped_def length_fresh_card)
qed

lemma passes_left:
  assumes "inv db" "\<forall>i \<in> set items. it_source i \<in> set SOURCES"
  shows "inv (((\<lambda>d. snd (ingest repo items (Some (int n)) d)) ^^ k) db)
    \<and> length (fresh_items (keys_of repo (entries (((\<lambda>d. snd (ingest repo items (Some (int n)) d)) ^^ k) db))) items)
      = length (fresh_items (keys_of repo (entries db)) items) - k * n"
proof (induction k)
  case (Suc k)
  let ?d = "((\<lambda>d. snd (ingest repo items (Some (int n)) d)) ^^ k) db"
  from Suc have i: "inv ?d" by blast
  from pass_left [OF i assms(2), of repo n] ingest_meets [OF i assms(2), of repo "Some (int n)"] Suc
  show ?case by (simp add: add.commute)
qed (simp add: assms(1))

text \<open>A pass answers how many items it left for a later one.\<close>

lemma pass_answers:
  assumes "inv db" "\<forall>i \<in> set items. it_source i \<in> set SOURCES"
  shows "\<exists>inserted skipped. fst (ingest repo items (Some (int n)) db) = Inr (inserted, skipped)
    \<and> length items - inserted - skipped = length (fresh_items (keys_of repo (entries db)) items) - n
    \<and> inserted + skipped \<le> length items"
  using ingest_meets [OF assms, of repo "Some (int n)"] length_fresh_items [of "keys_of repo (entries db)" items]
  by (auto simp: spec_ingest_def Let_def capped_def min_def)

text \<open>The batch is drained when as many items have been asked for as were missing.\<close>

lemma drained:
  assumes "inv db" "\<forall>i \<in> set items. it_source i \<in> set SOURCES"
    and "length (fresh_items (keys_of repo (entries db)) items) \<le> k * n"
  shows "item_key ` set items \<subseteq> keys_of repo (entries (((\<lambda>d. snd (ingest repo items (Some (int n)) d)) ^^ k) db))"
proof -
  let ?E = "keys_of repo (entries (((\<lambda>d. snd (ingest repo items (Some (int n)) d)) ^^ k) db))"
  have "length (fresh_items ?E items) = 0" using passes_left [OF assms(1,2)] assms(3) by simp
  then have "fresh_items ?E items = []" by simp
  then show ?thesis using keys_fresh_items [of ?E items] by simp
qed

text \<open>Storing one item: once stored it stays one entry, however often it is sent.\<close>

lemma remembered:
  assumes "inv db" "it_source i \<in> set SOURCES"
  shows "fst (ingest repo [i] None db) = Inr (if item_key i \<in> keys_of repo (entries db) then (0, 1) else (1, 0))
    \<and> item_key i \<in> keys_of repo (entries (snd (ingest repo [i] None db)))
    \<and> (item_key i \<in> keys_of repo (entries db) \<longrightarrow> entries (snd (ingest repo [i] None db)) = entries db)"
  using ingest_meets [OF assms(1), of "[i]" repo None] ingest_keys [OF assms(1), of "[i]" repo None] assms(2)
  by (simp add: spec_ingest_def Let_def capped_def)

lemma forgotten_all: "inv db \<Longrightarrow> keys_of repo (entries (snd (forget repo None None True db))) = {}"
  using forget_meets [of db repo None None True] by (auto simp: forgotten_def keys_of_def blank_def)

lemma forget_spares:
  "inv db \<Longrightarrow> repo' \<noteq> repo \<Longrightarrow>
     filter (\<lambda>r. en_repo r = repo') (entries (snd (forget repo uid source everything db)))
       = filter (\<lambda>r. en_repo r = repo') (entries db)"
proof -
  assume "inv db" "repo' \<noteq> repo"
  then have "filter (\<lambda>r. en_repo r = repo') (entries (snd (forget repo uid source everything db)))
      = filter (\<lambda>r. en_repo r = repo' \<and> \<not> forgotten canon repo uid source everything r) (entries db)"
    using forget_meets by (simp add: conj_commute)
  also have "\<dots> = filter (\<lambda>r. en_repo r = repo') (entries db)"
    using \<open>repo' \<noteq> repo\<close> by (intro filter_cong) (auto simp: forgotten_def)
  finally show ?thesis .
qed

end

subsection \<open>Postgres keeps the promise\<close>

definition entry_of :: "'v learning \<Rightarrow> 'v entry" where
  "entry_of r = \<lparr>en_id = ln_id r, en_repo = ln_repo r, en_text = ln_text r, en_source = ln_source r,
     en_url = ln_url r, en_globs = ln_globs r, en_topic = ln_topic r, en_vec = ln_vec r\<rparr>"

text \<open>An endpoint that answers one vector per text, computed from it, and ids that are not in use.\<close>

definition honest :: "'v kb_env \<Rightarrow> (string \<Rightarrow> 'v) \<Rightarrow> bool" where
  "honest env e = ((\<forall>b. b \<noteq> [] \<longrightarrow> ke_ask env b = Data (map e b)) \<and> 0 < ks_batch (ke_settings env)
     \<and> (\<forall>ids. ke_uuid env ids \<notin> set ids))"

definition vec_of :: "'v kb_env \<Rightarrow> (string \<Rightarrow> 'v) \<Rightarrow> string \<Rightarrow> 'v" where
  "vec_of env e t = e (fit (ke_settings env) t)"

definition pg_ok :: "'v kb_env \<Rightarrow> (string \<Rightarrow> 'v) \<Rightarrow> 'v learnings \<Rightarrow> bool" where
  "pg_ok env e t = (honest env e \<and> entries_ok (vec_of env e) (map entry_of t))"

lemma honest_embed: "honest env e \<Longrightarrow> embed (ke_settings env) (ke_ask env) ts = Inr (map (vec_of env e) ts)"
  by (simp add: honest_def embed_honest vec_of_def [abs_def])

lemma honest_embed_one: "honest env e \<Longrightarrow> embed_one (ke_settings env) (ke_ask env) t = Inr (vec_of env e t)"
  by (simp add: honest_def embed_one_honest vec_of_def)

lemma entry_fields [simp]:
  "en_id (entry_of r) = ln_id r" "en_repo (entry_of r) = ln_repo r" "en_text (entry_of r) = ln_text r"
  "en_source (entry_of r) = ln_source r" "en_url (entry_of r) = ln_url r" "en_globs (entry_of r) = ln_globs r"
  "en_topic (entry_of r) = ln_topic r" "en_vec (entry_of r) = ln_vec r"
  by (simp_all add: entry_of_def)

lemma entry_key [simp]: "en_key (entry_of r) = ln_key r"
  by (simp add: en_key_def ln_key_def)

lemma map_entry_ids [simp]: "map en_id (map entry_of t) = map ln_id t"
  by simp

lemma key_in_table: "(repo, k) \<in> ln_key ` set t \<longleftrightarrow> k \<in> keys_of repo (map entry_of t)"
  by (cases k) (force simp: keys_of_def ln_key_def image_iff)

lemma existing_keys_iff: "existing_keys repo items t = keys_of repo (map entry_of t) \<inter> item_key ` set items"
  by (force simp: existing_keys_def keys_of_def item_key_def)

text \<open>Only the keys of the batch matter to its deduplication.\<close>

lemma fresh_items_cong:
  "(\<And>i. i \<in> set is \<Longrightarrow> item_key i \<in> E \<longleftrightarrow> item_key i \<in> F) \<Longrightarrow> fresh_items E is = fresh_items F is"
proof (induction "is" arbitrary: E F)
  case (Cons i "is")
  have a: "fresh_items E is = fresh_items F is"
    by (rule Cons.IH) (rule Cons.prems, simp)
  have b: "fresh_items (insert (item_key i) E) is = fresh_items (insert (item_key i) F) is"
  proof (rule Cons.IH)
    fix j assume "j \<in> set is"
    then have "item_key j \<in> E \<longleftrightarrow> item_key j \<in> F" by (intro Cons.prems) simp
    then show "item_key j \<in> insert (item_key i) E \<longleftrightarrow> item_key j \<in> insert (item_key i) F" by simp
  qed
  have "item_key i \<in> E \<longleftrightarrow> item_key i \<in> F" by (rule Cons.prems) simp
  with a b show ?case by (simp only: fresh_items.simps)
qed simp

lemma fresh_existing: "fresh_items (existing_keys repo items t) items = fresh_items (keys_of repo (map entry_of t)) items"
  by (rule fresh_items_cong) (auto simp: existing_keys_iff)

text \<open>The insert loop on items whose keys are free.\<close>

lemma insert_fresh:
  assumes "honest env e"
  shows "distinct (map item_key is) \<Longrightarrow> item_key ` set is \<inter> keys_of repo (map entry_of t) = {}
    \<Longrightarrow> \<forall>i \<in> set is. it_source i \<in> set SOURCES
    \<Longrightarrow> \<exists>t'. fold_err (insert_learning env repo) (zip is (map (vec_of env e) (map it_text is))) (t, n, sk)
            = Inr (t', n + length is, sk)
        \<and> map entry_of t' = fold (add_entry (ke_uuid env) (vec_of env e) repo) is (map entry_of t)"
proof (induction "is" arbitrary: t n)
  case (Cons i "is")
  let ?u = "ke_uuid env (map ln_id t)"
  let ?t = "t @ [new_row env ?u repo i (vec_of env e (it_text i))]"
  have u: "?u \<notin> ln_id ` set t" using assms by (metis honest_def set_map)
  have k: "(repo, item_key i) \<notin> ln_key ` set t" using Cons.prems(2) by (simp add: key_in_table)
  have step: "insert_learning env repo (i, vec_of env e (it_text i)) (t, n, sk) = Inr (?t, Suc n, sk)"
    using Cons.prems(3) u k by (simp add: insert_learning_def Let_def)
  have e: "map entry_of ?t = add_entry (ke_uuid env) (vec_of env e) repo i (map entry_of t)"
    by (simp add: add_entry_def new_entry_def entry_of_def new_row_def comp_def)
  have free: "item_key ` set is \<inter> keys_of repo (map entry_of ?t) = {}"
  proof -
    have "item_key i \<notin> item_key ` set is" "item_key ` set is \<inter> keys_of repo (map entry_of t) = {}"
      using Cons.prems(1,2) by auto
    then show ?thesis unfolding e keys_add_entry by (simp add: Int_insert_right)
  qed
  have d: "distinct (map item_key is)" and src: "\<forall>i \<in> set is. it_source i \<in> set SOURCES"
    using Cons.prems(1,3) by simp_all
  have "\<exists>t'. fold_err (insert_learning env repo)
        (zip is (map (vec_of env e) (map it_text is))) (?t, Suc n, sk) = Inr (t', Suc n + length is, sk)
      \<and> map entry_of t' = fold (add_entry (ke_uuid env) (vec_of env e) repo) is (map entry_of ?t)"
    by (rule Cons.IH [OF d free src])
  then obtain t' where
    t': "fold_err (insert_learning env repo)
        (zip is (map (vec_of env e) (map it_text is))) (?t, Suc n, sk) = Inr (t', Suc n + length is, sk)
      \<and> map entry_of t' = fold (add_entry (ke_uuid env) (vec_of env e) repo) is (map entry_of ?t)" ..
  have "fold_err (insert_learning env repo)
      (zip (i # is) (map (vec_of env e) (map it_text (i # is)))) (t, n, sk) = Inr (t', n + length (i # is), sk)"
    using step conjunct1 [OF t'] by simp
  moreover have "map entry_of t' = fold (add_entry (ke_uuid env) (vec_of env e) repo) (i # is) (map entry_of t)"
    using conjunct2 [OF t'] unfolding e by simp
  ultimately show ?case by blast
qed simp

lemma partition_fresh:
  "partition_items items (existing_keys repo items t) c =
     (let fs = fresh_items (keys_of repo (map entry_of t)) items in
        (capped c fs, length items - length fs, length fs - length (capped c fs)))"
  by (simp add: partition_spec fresh_existing Let_def)

lemma pg_ingest_meets:
  assumes "pg_ok env e t" "\<forall>i \<in> set items. it_source i \<in> set SOURCES"
  shows "fst (pg_ingest env repo items c t t)
      = Inr (fst (spec_ingest (ke_uuid env) (vec_of env e) repo items c (map entry_of t)))
    \<and> map entry_of (snd (pg_ingest env repo items c t t))
      = snd (spec_ingest (ke_uuid env) (vec_of env e) repo items c (map entry_of t))
    \<and> pg_ok env e (snd (pg_ingest env repo items c t t))"
proof -
  let ?fs = "fresh_items (keys_of repo (map entry_of t)) items"
  let ?is = "capped c ?fs" and ?sk = "length items - length ?fs"
  have h: "honest env e" and ok: "entries_ok (vec_of env e) (map entry_of t)"
    using assms(1) by (simp_all add: pg_ok_def)
  have "distinct (map item_key ?is)" by (rule distinct_capped [OF fresh_items_distinct])
  moreover have "item_key i \<notin> keys_of repo (map entry_of t)" if "i \<in> set ?is" for i
    by (rule fresh_items_not_in [OF subsetD [OF set_capped that]])
  then have "item_key ` set ?is \<inter> keys_of repo (map entry_of t) = {}" by blast
  moreover have "\<forall>i \<in> set ?is. it_source i \<in> set SOURCES"
    using assms(2) set_capped [of c ?fs] set_fresh_items by blast
  ultimately obtain t' where t': "fold_err (insert_learning env repo)
        (zip ?is (map (vec_of env e) (map it_text ?is))) (t, 0, ?sk) = Inr (t', 0 + length ?is, ?sk)"
      "map entry_of t' = fold (add_entry (ke_uuid env) (vec_of env e) repo) ?is (map entry_of t)"
    using insert_fresh [OF h] by meson
  have "pg_ingest env repo items c t t = (Inr (length ?is, ?sk), if ?is = [] then t else t')"
  proof (cases "items = []")
    case True
    then show ?thesis by (simp add: pg_ingest_def capped_def split: option.split)
  next
    case False
    show ?thesis
    proof (cases "?is = []")
      case True
      with False show ?thesis by (simp add: pg_ingest_def partition_fresh Let_def)
    next
      case taken: False
      with False t'(1) show ?thesis
        by (simp add: pg_ingest_def partition_fresh Let_def honest_embed [OF h])
    qed
  qed
  moreover have "map entry_of (if ?is = [] then t else t')
      = snd (spec_ingest (ke_uuid env) (vec_of env e) repo items c (map entry_of t))"
    using t'(2) by (simp add: spec_ingest_def Let_def)
  moreover have "entries_ok (vec_of env e) (snd (spec_ingest (ke_uuid env) (vec_of env e) repo items c (map entry_of t)))"
    by (rule spec_ingest_ok [OF _ ok assms(2)]) (use h in \<open>simp add: honest_def\<close>)
  ultimately show ?thesis using h by (simp add: spec_ingest_def Let_def pg_ok_def)
qed

lemma pg_forget_meets:
  assumes "pg_ok env e t"
  shows "fst (pg_forget env repo uid source everything t)
      = length (filter (forgotten (ke_id env) repo uid source everything) (map entry_of t))
    \<and> map entry_of (snd (pg_forget env repo uid source everything t))
      = filter (\<lambda>r. \<not> forgotten (ke_id env) repo uid source everything r) (map entry_of t)
    \<and> pg_ok env e (snd (pg_forget env repo uid source everything t))"
proof -
  let ?P = "\<lambda>r. forgotten (ke_id env) repo uid source everything (entry_of r)"
  have f: "pg_forget env repo uid source everything t = (length (filter ?P t), filter (\<lambda>r. \<not> ?P r) t)"
    by (auto simp: pg_forget_def forgotten_def is_row_def Let_def intro!: arg_cong [where f = length] filter_cong
        split: option.split)
  have "entries_ok (vec_of env e) (filter (\<lambda>r. \<not> forgotten (ke_id env) repo uid source everything r) (map entry_of t))"
    using assms by (intro entries_ok_filter) (simp add: pg_ok_def)
  then show ?thesis using assms unfolding f
    by (simp add: pg_ok_def filter_map comp_def)
qed

lemma find_entry:
  "find (\<lambda>r. en_repo r = repo \<and> en_id r = u) (map entry_of t) = map_option entry_of (find (is_row repo u) t)"
  by (induction t) (simp_all add: is_row_def)

lemma shows_row: "shows_entry (pg_row env r) (entry_of r)"
  by (simp add: shows_entry_def pg_row_def)

lemma changed_row_entry:
  assumes "honest env e" "new_vector (ke_settings env) (ke_ask env) ch (ln_text r) = Inr v"
    and "ln_vec r = vec_of env e (ln_text r)" "check_changes rd ch = Inr ex"
  shows "entry_of (changed_row ch ex v r) = changed_entry (vec_of env e) ch (entry_of r)"
  using assms(2,3) checked_fields [OF assms(4)]
  by (auto simp: new_vector_def honest_embed_one [OF assms(1)] entry_of_def changed_row_def changed_entry_def
      supplied_def Let_def split: option.splits if_splits)

lemma new_vector_answers:
  "honest env e \<Longrightarrow> \<exists>v. new_vector (ke_settings env) (ke_ask env) ch x = Inr v"
  by (auto simp: new_vector_def honest_embed_one split: option.split)

lemma changed_nothing:
  assumes "entries_ok emb es" "r \<in> set es"
  shows "changed_entry emb no_changes r = r"
  using assms by (simp add: changed_entry_def no_changes_def supplied_def entries_ok_def Let_def)

lemma unchanged_update:
  assumes ok: "entries_ok emb es" and find: "find (\<lambda>r. en_repo r = repo \<and> en_id r = u) es = Some cur"
  shows "\<not> list_ex (\<lambda>r. en_id r \<noteq> u \<and> en_key r = en_key (changed_entry emb no_changes cur)) es"
    and "map (\<lambda>r. if en_repo r = repo \<and> en_id r = u then changed_entry emb no_changes cur else r) es = es"
proof -
  from find have cur: "cur \<in> set es" "en_repo cur = repo" "en_id cur = u" by (auto simp: find_Some_iff)
  note c = changed_nothing [OF ok cur(1)]
  have k: "r = cur" if "r \<in> set es" "en_key r = en_key cur" for r
    using distinct_map_inj [of en_key es r cur] that cur ok by (simp add: entries_ok_def)
  show "\<not> list_ex (\<lambda>r. en_id r \<noteq> u \<and> en_key r = en_key (changed_entry emb no_changes cur)) es"
    unfolding c list_ex_iff using k cur(3) by blast
  have i: "r = cur" if "r \<in> set es" "en_id r = u" for r
    using distinct_map_inj [of en_id es r cur] that cur ok by (simp add: entries_ok_def)
  show "map (\<lambda>r. if en_repo r = repo \<and> en_id r = u then changed_entry emb no_changes cur else r) es = es"
    unfolding c by (rule map_eq_id_on) (use i in auto)
qed

lemma no_changes_checked: "check_changes rd no_changes = Inr None"
  by (simp add: check_changes_def no_changes_def)

text \<open>An edit on the rows is the edit on the entries.\<close>

lemma pg_update_rows:
  assumes ok: "pg_ok env e t" and globs: "ch_globs ch \<noteq> Some None" and u: "ke_id env uid = Some u"
    and ex: "check_changes (ke_read env) ch = Inr ex" and ne: "ch \<noteq> no_changes"
    and find: "find (is_row repo u) t = Some cur"
  shows "\<exists>new. entry_of new = changed_entry (vec_of env e) ch (entry_of cur)
    \<and> pg_update env repo uid ch t =
        (if list_ex (\<lambda>r. en_id r \<noteq> u \<and> en_key r = en_key (entry_of new)) (map entry_of t)
         then (Inl DuplicateLearning, t)
         else (Inr (Some (pg_row env new)), map (\<lambda>r. if is_row repo u r then new else r) t))"
proof -
  have h: "honest env e" using ok by (simp add: pg_ok_def)
  obtain v where v: "new_vector (ke_settings env) (ke_ask env) ch (ln_text cur) = Inr v"
    using new_vector_answers [OF h] by blast
  have "cur \<in> set t" using find by (auto simp: find_Some_iff)
  then have "ln_vec cur = vec_of env e (ln_text cur)" using ok by (simp add: pg_ok_def entries_ok_def)
  then have "entry_of (changed_row ch ex v cur) = changed_entry (vec_of env e) ch (entry_of cur)"
    using changed_row_entry [OF h v _ ex] by blast
  moreover have "pg_update env repo uid ch t =
        (if list_ex (\<lambda>r. en_id r \<noteq> u \<and> en_key r = en_key (entry_of (changed_row ch ex v cur))) (map entry_of t)
         then (Inl DuplicateLearning, t)
         else (Inr (Some (pg_row env (changed_row ch ex v cur))),
           map (\<lambda>r. if is_row repo u r then changed_row ch ex v cur else r) t))"
    by (simp add: pg_update_def u ex ne find v globs Let_def list_ex_iff)
  ultimately show ?thesis by blast
qed

lemma pg_update_meets:
  assumes "pg_ok env e t" "ch_globs ch \<noteq> Some None"
  shows "rel_sum (=) (rel_option shows_entry) (fst (pg_update env repo uid ch t))
      (fst (spec_update (ke_id env) (ke_read env) (vec_of env e) repo uid ch (map entry_of t)))
    \<and> map entry_of (snd (pg_update env repo uid ch t))
      = snd (spec_update (ke_id env) (ke_read env) (vec_of env e) repo uid ch (map entry_of t))
    \<and> pg_ok env e (snd (pg_update env repo uid ch t))"
proof -
  let ?s = "spec_update (ke_id env) (ke_read env) (vec_of env e) repo uid ch (map entry_of t)"
  have h: "honest env e" and ok: "entries_ok (vec_of env e) (map entry_of t)"
    using assms(1) by (simp_all add: pg_ok_def)
  have "rel_sum (=) (rel_option shows_entry) (fst (pg_update env repo uid ch t)) (fst ?s)
    \<and> map entry_of (snd (pg_update env repo uid ch t)) = snd ?s"
  proof (cases "ke_id env uid")
    case None
    then show ?thesis by (simp add: pg_update_def spec_update_def)
  next
    case u: (Some u)
    show ?thesis
    proof (cases "check_changes (ke_read env) ch")
      case (Inl a)
      with u show ?thesis by (simp add: pg_update_def spec_update_def)
    next
      case ex: (Inr ex)
      show ?thesis
      proof (cases "find (is_row repo u) t")
        case None
        with u ex show ?thesis
          by (simp add: pg_update_def spec_update_def pg_get_def find_entry)
      next
        case cur: (Some cur)
        have find: "find (\<lambda>r. en_repo r = repo \<and> en_id r = u) (map entry_of t) = Some (entry_of cur)"
          using cur by (simp only: find_entry option.map)
        have spec: "?s = (let new = changed_entry (vec_of env e) ch (entry_of cur) in
            if list_ex (\<lambda>r. en_id r \<noteq> u \<and> en_key r = en_key new) (map entry_of t) then (Inl DuplicateLearning, map entry_of t)
            else (Inr (Some new), map (\<lambda>r. if en_repo r = repo \<and> en_id r = u then new else r) (map entry_of t)))"
          unfolding spec_update_def u ex option.case sum.case find ..
        show ?thesis
        proof (cases "ch = no_changes")
          case True
          have "cur \<in> set t" using cur by (auto simp: find_Some_iff)
          then have c: "changed_entry (vec_of env e) no_changes (entry_of cur) = entry_of cur"
            using changed_nothing [OF ok] by simp
          have "?s = (Inr (Some (entry_of cur)), map entry_of t)"
            unfolding spec unfolding True Let_def using unchanged_update [OF ok find]
            by (simp only: if_False c)
          moreover have "pg_update env repo uid ch t = (Inr (Some (pg_row env cur)), t)"
            using u ex cur True by (simp add: pg_update_def pg_get_def)
          ultimately show ?thesis by (simp add: shows_row)
        next
          case False
          from pg_update_rows [OF assms u ex False cur] obtain new where
            n: "entry_of new = changed_entry (vec_of env e) ch (entry_of cur)"
            and up: "pg_update env repo uid ch t =
              (if list_ex (\<lambda>r. en_id r \<noteq> u \<and> en_key r = en_key (entry_of new)) (map entry_of t)
               then (Inl DuplicateLearning, t)
               else (Inr (Some (pg_row env new)), map (\<lambda>r. if is_row repo u r then new else r) t))"
            by blast
          show ?thesis unfolding spec up n [symmetric] Let_def
            by (simp add: shows_row is_row_def)
        qed
      qed
    qed
  qed
  moreover have "entries_ok (vec_of env e) (snd ?s)" by (rule spec_update_ok [OF ok])
  ultimately show ?thesis using h by (simp add: pg_ok_def)
qed

lemma pg_delete_meets:
  assumes "pg_ok env e t"
  shows "fst (map_prod Inr id (pg_forget env repo uid source everything t))
      = Inr (length (filter (forgotten (ke_id env) repo uid source everything) (map entry_of t)))
    \<and> map entry_of (snd (map_prod Inr id (pg_forget env repo uid source everything t)))
      = filter (\<lambda>r. \<not> forgotten (ke_id env) repo uid source everything r) (map entry_of t)
    \<and> pg_ok env e (snd (map_prod Inr id (pg_forget env repo uid source everything t)))"
  using pg_forget_meets [OF assms] by (simp only: fst_map_prod snd_map_prod id_apply)

interpretation pg: knowledge_store
  "\<lambda>repo items c t. pg_ingest env repo items c t t"
  "\<lambda>repo uid source everything t. map_prod Inr id (pg_forget env repo uid source everything t)" "pg_update env" "map entry_of"
  "pg_ok env e" "ke_uuid env" "vec_of env e" "ke_id env" "ke_read env" for env e
proof unfold_locales
  show "entries_ok (vec_of env e) (map entry_of db)" if "pg_ok env e db" for db
    using that by (simp add: pg_ok_def)
qed (use pg_ingest_meets pg_delete_meets pg_update_meets in blast)+

section \<open>Properties of the store\<close>

text \<open>The table after a batch has been sent \<open>k\<close> times, with at most \<open>n\<close> new learnings a time.\<close>

definition resend :: "'v kb_env \<Rightarrow> string \<Rightarrow> ingest_item list \<Rightarrow> nat \<Rightarrow> nat \<Rightarrow> 'v learnings \<Rightarrow> 'v learnings" where
  "resend env repo items n k t = ((\<lambda>t. snd (pg_ingest env repo items (Some (int n)) t t)) ^^ k) t"

text \<open>C28: A backlog is drained. Re-sending a batch embeds at most \<open>n\<close> new learnings a time; every pass reports
  exactly how many are still missing, and as soon as it has been sent often enough for the keys that
  were missing at the start, all of them are stored.\<close>

theorem backlog_drains:
  assumes "pg_ok env e t" "\<forall>i \<in> set items. it_source i \<in> set SOURCES"
  shows "(\<exists>inserted skipped.
        fst (pg_ingest env repo items (Some (int n)) (resend env repo items n k t) (resend env repo items n k t))
          = Inr (inserted, skipped)
      \<and> length items - inserted - skipped
          = card (item_key ` set items - keys_of repo (map entry_of t)) - Suc k * n)
    \<and> (card (item_key ` set items - keys_of repo (map entry_of t)) \<le> k * n \<longrightarrow>
        item_key ` set items \<subseteq> keys_of repo (map entry_of (resend env repo items n k t)))"
proof -
  let ?t = "resend env repo items n k t"
  have left: "pg_ok env e ?t"
    "length (fresh_items (keys_of repo (map entry_of ?t)) items)
      = card (item_key ` set items - keys_of repo (map entry_of t)) - k * n"
    using pg.passes_left [OF assms, where repo = repo and n = n and k = k]
    by (simp_all add: length_fresh_card resend_def)
  from pg.pass_answers [OF left(1) assms(2), where repo = repo and n = n] obtain inserted skipped where
    "fst (pg_ingest env repo items (Some (int n)) ?t ?t) = Inr (inserted, skipped)"
    "length items - inserted - skipped = length (fresh_items (keys_of repo (map entry_of ?t)) items) - n"
    by blast
  with left(2) pg.drained [OF assms, where repo = repo and n = n and k = k] show ?thesis
    by (auto simp: length_fresh_card resend_def)
qed

text \<open>Three new learnings, two at a time. The ids are longer than every id in use.\<close>

definition long_id :: "string list \<Rightarrow> string" where
  "long_id ids = replicate (Suc (sum_list (map length ids))) (CHR ''i'')"

lemma long_id_fresh: "long_id ids \<notin> set ids"
proof
  assume "long_id ids \<in> set ids"
  then have "length (long_id ids) \<in> set (map length ids)" by simp
  then have "length (long_id ids) \<le> sum_list (map length ids)" by (intro member_le_sum_list) simp_all
  then show False by (simp add: long_id_def)
qed

definition sample_env :: "string kb_env" where
  "sample_env = \<lparr>ke_settings = default_settings\<lparr>ks_max_chars := 40, ks_prefix := ''''\<rparr>,
     ke_ask = Data, ke_now = 100, ke_uuid = long_id, ke_id = Some, ke_read = (\<lambda>x. None), ke_show = str_int\<rparr>"

definition sample_item :: "string \<Rightarrow> string \<Rightarrow> string list \<Rightarrow> ingest_item" where
  "sample_item body source globs = \<lparr>it_text = body, it_source = source, it_url = None, it_globs = globs,
     it_topic = None, it_origin = None, it_expires = None\<rparr>"

definition sample_items :: "ingest_item list" where
  "sample_items = [sample_item ''a'' ''docs'' [], sample_item ''b'' ''docs'' [''x.py''],
     sample_item ''a'' ''docs'' [], sample_item ''c'' ''remember'' []]"

lemma sample_honest: "honest sample_env (\<lambda>t. t)"
  by (simp add: honest_def sample_env_def default_settings_def long_id_fresh)

lemma sample_ok: "pg_ok sample_env (\<lambda>t. t) []"
  using sample_honest by (simp add: pg_ok_def entries_ok_def)

lemma sample_sources: "\<forall>i \<in> set sample_items. it_source i \<in> set SOURCES"
  by (simp add: sample_items_def sample_item_def SOURCES_def)

theorem backlog_drains_witness:
  "item_key ` set sample_items \<subseteq> keys_of ''r'' (map entry_of (resend sample_env ''r'' sample_items 2 2 []))"
proof -
  have "item_key ` set sample_items = {(''a'', ''docs''), (''b'', ''docs''), (''c'', ''remember'')}"
    by (auto simp: sample_items_def sample_item_def item_key_def)
  then have "card (item_key ` set sample_items - keys_of ''r'' (map entry_of ([] :: string learnings))) \<le> 2 * 2"
    by (simp add: keys_of_def)
  then show ?thesis
    using backlog_drains [OF sample_ok sample_sources, where repo = "''r''" and n = 2 and k = 2] by blast
qed

text \<open>An endpoint that answers truly or not at all.\<close>

definition truthful :: "'v kb_env \<Rightarrow> (string \<Rightarrow> 'v) \<Rightarrow> bool" where
  "truthful env e = (\<forall>b. b \<noteq> [] \<longrightarrow>
     ke_ask env b = Data (map e b) \<or> (\<exists>m body. ke_ask env b = HttpFailed m body))"

lemma embed_loop_truthful:
  assumes "truthful env e" "embed_loop S (ke_ask env) bs acc = Inr vs" "\<forall>b \<in> set bs. b \<noteq> []"
  shows "vs = acc @ map (\<lambda>t. e (fit S t)) (concat bs)"
  using assms(2,3)
proof (induction bs arbitrary: acc)
  case (Cons b bs)
  from Cons.prems have "map (fit S) b \<noteq> []" by simp
  with assms(1) consider "ke_ask env (map (fit S) b) = Data (map e (map (fit S) b))"
    | m body where "ke_ask env (map (fit S) b) = HttpFailed m body"
    unfolding truthful_def by meson
  then show ?case
  proof cases
    case 1
    with Cons.prems Cons.IH [of "acc @ map e (map (fit S) b)"] show ?thesis by (simp add: comp_def)
  next
    case 2
    with Cons.prems show ?thesis by simp
  qed
qed simp

lemma embed_truthful:
  assumes "truthful env e" "embed S (ke_ask env) ts = Inr vs" "length vs = length ts"
  shows "vs = map (\<lambda>t. e (fit S t)) ts"
proof (cases "ts = []")
  case False
  with assms(2) have l: "embed_loop S (ke_ask env) (batches (nat (ks_batch S)) ts) [] = Inr vs"
    by (simp add: embed_def split: if_splits)
  have v: "vs = map (\<lambda>t. e (fit S t)) (concat (batches (nat (ks_batch S)) ts))"
    using embed_loop_truthful [OF assms(1) l] in_batches by fastforce
  show ?thesis
  proof (cases "0 < nat (ks_batch S)")
    case True
    with v show ?thesis by (simp only: concat_batches)
  next
    case no: False
    then have "batches (nat (ks_batch S)) ts = []" by (simp add: batches.simps)
    with v assms(3) False show ?thesis by simp
  qed
qed (use assms in simp)

lemma embed_one_truthful:
  assumes "truthful env e" "embed_one S (ke_ask env) t = Inr v"
  shows "v = e (fit S t)"
proof -
  from assms(2) obtain vs where vs: "embed S (ke_ask env) [t] = Inr (v # vs)"
    by (auto simp: embed_one_def split: sum.splits list.splits)
  then have l: "embed_loop S (ke_ask env) (batches (nat (ks_batch S)) [t]) [] = Inr (v # vs)"
    by (simp add: embed_def split: if_splits)
  have "v # vs = map (\<lambda>t. e (fit S t)) (concat (batches (nat (ks_batch S)) [t]))"
    using embed_loop_truthful [OF assms(1) l] in_batches by fastforce
  moreover have "batches (nat (ks_batch S)) [t] = (if nat (ks_batch S) = 0 then [] else [[t]])"
    by (simp add: batches.simps [of _ "[t]"])
  ultimately show ?thesis by (simp split: if_splits)
qed

text \<open>One insert keeps the entries in order, whatever the table has become since the keys were read.\<close>

lemma insert_keeps:
  assumes "insert_learning env repo (i, emb (it_text i)) (t, n, sk) = Inr (t', n', sk')"
    and "entries_ok emb (map entry_of t)"
  shows "entries_ok emb (map entry_of t')"
proof -
  from assms(1) consider "t' = t"
    | "it_source i \<in> set SOURCES" "(repo, item_key i) \<notin> ln_key ` set t"
      "ke_uuid env (map ln_id t) \<notin> ln_id ` set t"
      "t' = t @ [new_row env (ke_uuid env (map ln_id t)) repo i (emb (it_text i))]"
    by (auto simp: insert_learning_def Let_def split: if_splits)
  then show ?thesis
  proof cases
    case 2
    have k: "en_key (entry_of (new_row env u repo i (emb (it_text i)))) = (repo, item_key i)" for u
      by (simp add: ln_key_def new_row_def item_key_def)
    have r: "en_id (entry_of (new_row env u repo i (emb (it_text i)))) = u"
      "en_vec (entry_of (new_row env u repo i (emb (it_text i)))) = emb (it_text i)"
      "en_text (entry_of (new_row env u repo i (emb (it_text i)))) = it_text i"
      "en_source (entry_of (new_row env u repo i (emb (it_text i)))) = it_source i" for u
      by (simp_all add: new_row_def)
    show ?thesis using 2(1-3) assms(2) unfolding 2(4) entries_ok_def map_append list.map
      by (simp add: k r del: entry_key entry_fields) (simp add: image_image)
  qed (use assms(2) in simp)
qed

lemma inserts_keep:
  "fold_err (insert_learning env repo) (zip is (map emb (map it_text is))) s = Inr s' \<Longrightarrow>
     entries_ok emb (map entry_of (fst s)) \<Longrightarrow> entries_ok emb (map entry_of (fst s'))"
proof (induction "is" arbitrary: s)
  case (Cons i "is")
  obtain t n sk where s: "s = (t, n, sk)" by (cases s)
  from Cons.prems(1) obtain x where x: "insert_learning env repo (i, emb (it_text i)) s = Inr x"
    and r: "fold_err (insert_learning env repo) (zip is (map emb (map it_text is))) x = Inr s'"
    by (auto split: sum.splits)
  obtain t' n' sk' where x': "x = (t', n', sk')" by (cases x)
  have "entries_ok emb (map entry_of t')"
    by (rule insert_keeps [where emb = emb and i = i, OF x [unfolded s x']]) (use Cons.prems(2) s in simp)
  with Cons.IH [OF r] x' show ?case by simp
qed simp

lemma ingest_keeps:
  assumes "truthful env e" "entries_ok (vec_of env e) (map entry_of t)"
  shows "entries_ok (vec_of env e) (map entry_of (snd (pg_ingest env repo items c seen t)))"
proof (cases "snd (pg_ingest env repo items c seen t) = t")
  case False
  then obtain to_embed skipped deferred vs t' ins sk where
    "embed (ke_settings env) (ke_ask env) (map it_text to_embed) = Inr vs"
    "fold_err (insert_learning env repo) (zip to_embed vs) (t, 0, skipped) = Inr (t', ins, sk)"
    "length to_embed = length vs" "snd (pg_ingest env repo items c seen t) = t'"
    by (auto simp: pg_ingest_def split: if_splits sum.splits prod.splits)
  note p = this
  have "vs = map (vec_of env e) (map it_text to_embed)"
    using embed_truthful [OF assms(1) p(1)] p(3) by (simp add: vec_of_def [abs_def])
  with inserts_keep [where emb = "vec_of env e" and s = "(t, 0, skipped)"] p(2,4) assms(2) show ?thesis by force
qed (use assms in simp)

lemma filtered_keeps: "entries_ok emb (map entry_of t) \<Longrightarrow> entries_ok emb (map entry_of (filter P t))"
  by (auto simp: entries_ok_def comp_def intro: distinct_map_filter)

lemma forget_keeps:
  assumes "entries_ok emb (map entry_of t)"
  shows "entries_ok emb (map entry_of (snd (pg_forget env repo uid source everything t)))"
proof -
  have "snd (pg_forget env repo uid source everything t) = t
      \<or> (\<exists>P. snd (pg_forget env repo uid source everything t) = filter P t)"
    by (auto simp: pg_forget_def Let_def split: option.split)
  with assms filtered_keeps show ?thesis by auto
qed

lemma update_keeps:
  assumes "truthful env e" "entries_ok (vec_of env e) (map entry_of t)"
  shows "entries_ok (vec_of env e) (map entry_of (snd (pg_update env repo uid ch t)))"
proof (cases "snd (pg_update env repo uid ch t) = t")
  case False
  then obtain u ex cur v where
    "ke_id env uid = Some u" "check_changes (ke_read env) ch = Inr ex" "find (is_row repo u) t = Some cur"
    "new_vector (ke_settings env) (ke_ask env) ch (ln_text cur) = Inr v"
    "ch_globs ch \<noteq> Some None" "\<not> list_ex (\<lambda>r. ln_id r \<noteq> u \<and> ln_key r = ln_key (changed_row ch ex v cur)) t"
    "snd (pg_update env repo uid ch t) = map (\<lambda>r. if is_row repo u r then changed_row ch ex v cur else r) t"
    by (auto simp: pg_update_def Let_def split: if_splits sum.splits option.splits)
  note p = this
  have cur: "cur \<in> set t" "ln_repo cur = repo" "ln_id cur = u"
    using p(3) by (auto simp: find_Some_iff is_row_def)
  let ?new = "changed_row ch ex v cur"
  have vec: "ln_vec cur = vec_of env e (ln_text cur)" and src: "ln_source cur \<in> set SOURCES"
    using assms(2) cur(1) by (auto simp: entries_ok_def)
  have v: "v = (case ch_text ch of Some (Some x) \<Rightarrow> if x = ln_text cur then None else Some (vec_of env e x) | _ \<Rightarrow> None)"
    using p(4) embed_one_truthful [OF assms(1)]
    by (auto simp: new_vector_def vec_of_def split: option.splits sum.splits if_splits)
  have "entry_of ?new = changed_entry (vec_of env e) ch (entry_of cur)"
    using vec checked_fields [OF p(2)] unfolding v
    by (auto simp: entry_of_def changed_row_def changed_entry_def supplied_def Let_def split: option.splits)
  note new = this
  have find: "find (\<lambda>r. en_repo r = repo \<and> en_id r = u) (map entry_of t) = Some (entry_of cur)"
    using p(3) by (simp only: find_entry option.map)
  have "snd (spec_update (ke_id env) (ke_read env) (vec_of env e) repo uid ch (map entry_of t))
      = map (\<lambda>r. if en_repo r = repo \<and> en_id r = u then entry_of ?new else r) (map entry_of t)"
    unfolding spec_update_def p(1,2) option.case sum.case find Let_def new [symmetric]
    using p(6) by (auto simp: list_ex_iff)
  also have "\<dots> = map entry_of (snd (pg_update env repo uid ch t))"
    unfolding p(7) by (simp add: is_row_def)
  finally show ?thesis
    using spec_update_ok [OF assms(2), of "ke_id env" "ke_read env" repo uid ch] by simp
qed (use assms in simp)

text \<open>The tables a deployment can reach: any sequence of operations, each with its own clock and its own view
  of an endpoint that may fail at any time, and every ingest with the keys of an earlier table.\<close>

inductive kb_reach :: "(string \<Rightarrow> 'v) \<Rightarrow> kb_settings \<Rightarrow> 'v learnings \<Rightarrow> bool" for e S where
  start: "kb_reach e S []"
| ingested: "kb_reach e S t \<Longrightarrow> truthful env e \<Longrightarrow> ke_settings env = S \<Longrightarrow>
    kb_reach e S (snd (pg_ingest env repo items c seen t))"
| edited: "kb_reach e S t \<Longrightarrow> truthful env e \<Longrightarrow> ke_settings env = S \<Longrightarrow>
    kb_reach e S (snd (pg_update env repo uid ch t))"
| forgot: "kb_reach e S t \<Longrightarrow> kb_reach e S (snd (pg_forget env repo uid source everything t))"

text \<open>C27: In every table a deployment can reach, however its requests interleave and whenever the embedder
  fails, the \<open>(repo, text, source)\<close> keys and the ids are unique, every source is a known one, and every
  row carries the embedding of the text it carries.\<close>

theorem vectors_match_their_text:
  assumes "kb_reach e S t"
  shows "entries_ok (\<lambda>x. e (fit S x)) (map entry_of t)"
  using assms
proof induction
  case start
  show ?case by (simp add: entries_ok_def)
next
  case (ingested t env repo items c seen)
  then show ?case using ingest_keeps [of env e t repo items c seen] by (simp add: vec_of_def [abs_def])
next
  case (edited t env repo uid ch)
  then show ?case using update_keeps [of env e t repo uid ch] by (simp add: vec_of_def [abs_def])
next
  case forgot
  then show ?case by (intro forget_keeps)
qed

text \<open>A batch of two; one of the rows edited; the other forgotten.\<close>

definition sample_table :: "string learnings" where
  "sample_table =
     snd (pg_forget sample_env ''r'' None (Some ''remember'') False
       (snd (pg_update sample_env ''r'' ''i'' (no_changes\<lparr>ch_text := Some (Some ''new'')\<rparr>)
         (snd (pg_ingest sample_env ''r'' [sample_item ''a'' ''docs'' [], sample_item ''c'' ''remember'' []] None [] [])))))"

theorem vectors_match_their_text_witness:
  "map (\<lambda>r. (ln_id r, ln_text r, ln_vec r)) sample_table = [(''i'', ''new'', ''new'')]
   \<and> entries_ok (\<lambda>x. fit (ke_settings sample_env) x) (map entry_of sample_table)"
proof -
  have "truthful sample_env (\<lambda>t. t)" by (simp add: truthful_def sample_env_def)
  then have "kb_reach (\<lambda>t. t) (ke_settings sample_env) sample_table"
    unfolding sample_table_def by (intro forgot edited ingested start refl)
  from vectors_match_their_text [OF this] show ?thesis by (simp) code_simp
qed

subsection \<open>Edits that raise\<close>

text \<open>A null for \<open>file_globs\<close>, which the request model admits as a way to clear the field, reaches the
  NOT NULL column as it is and raises.\<close>

lemma null_globs_raise:
  assumes "ke_id env uid = Some u" "find (is_row repo u) t = Some cur"
  shows "pg_update env repo uid (no_changes\<lparr>ch_globs := Some None\<rparr>) t = (Inl (Constraint ''file_globs''), t)"
  using assms by (simp add: pg_update_def no_changes_def check_changes_def new_vector_def Let_def)

section \<open>Retrieval\<close>

lemma fold_dict_rows:
  assumes "\<forall>r \<in> set rows. \<forall>s \<in> set rows. ln_id r = ln_id s \<longrightarrow> r = s"
    and "\<forall>(k, r) \<in> set d. k = ln_id r" "distinct (map fst d)"
    and "\<forall>r \<in> set rows. \<forall>s \<in> snd ` set d. ln_id r = ln_id s \<longrightarrow> r = s"
  shows "distinct (map fst (fold (\<lambda>r d. dict_set (ln_id r) r d) rows d))
    \<and> (\<forall>(k, r) \<in> set (fold (\<lambda>r d. dict_set (ln_id r) r d) rows d). k = ln_id r)
    \<and> snd ` set (fold (\<lambda>r d. dict_set (ln_id r) r d) rows d) = snd ` set d \<union> set rows"
  using assms
proof (induction rows arbitrary: d)
  case (Cons r rows)
  let ?d = "dict_set (ln_id r) r d"
  have img: "snd ` set ?d = insert r (snd ` set d)"
  proof -
    have "s \<in> insert r (snd ` set d)" if "(k, s) \<in> set ?d" for k s
      using in_dict_set [OF that] by force
    then have sub: "snd ` set ?d \<subseteq> insert r (snd ` set d)" by force
    have "map_of ?d (ln_id r) = Some r" by (simp add: map_of_dict_set)
    then have r: "(ln_id r, r) \<in> set ?d" by (rule map_of_SomeD)
    have "s \<in> snd ` set ?d" if "(k, s) \<in> set d" for k s
    proof (cases "k = ln_id r")
      case True
      then have "s = r" using Cons.prems(2,4) that by force
      with r show ?thesis by force
    next
      case False
      then have "map_of ?d k = Some s" using that Cons.prems(3) by (simp add: map_of_dict_set)
      then show ?thesis by (force dest: map_of_SomeD)
    qed
    then have "snd ` set d \<subseteq> snd ` set ?d" by (intro image_subsetI) (metis prod.collapse)
    moreover have "r \<in> snd ` set ?d" using r by (rule image_eqI [rotated]) simp
    ultimately have "insert r (snd ` set d) \<subseteq> snd ` set ?d" by blast
    with sub show ?thesis by (rule subset_antisym)
  qed
  have "\<forall>(k, s) \<in> set ?d. k = ln_id s" using Cons.prems(2) by (auto dest: in_dict_set)
  moreover have "distinct (map fst ?d)" by (rule distinct_dict_set [OF Cons.prems(3)])
  moreover have "\<forall>x \<in> set rows. \<forall>s \<in> snd ` set ?d. ln_id x = ln_id s \<longrightarrow> x = s"
    unfolding img using Cons.prems(1,4) by simp
  ultimately show ?case
    using Cons.IH [of ?d] Cons.prems(1) img by simp
next
  case Nil
  then show ?case by (simp only: fold_Nil id_apply list.set(1) Un_empty_right simp_thms)
qed

lemma merged_rows:
  assumes "distinct (map ln_id t)" "set rows \<subseteq> set t"
  shows "distinct (map ln_id (merged rows)) \<and> set (merged rows) = set rows"
proof -
  have inj: "r = s" if "r \<in> set rows" "s \<in> set rows" "ln_id r = ln_id s" for r s
    using distinct_map_inj [OF assms(1)] assms(2) that by blast
  let ?d = "fold (\<lambda>r d. dict_set (ln_id r) r d) rows []"
  have d: "distinct (map fst ?d)" "\<forall>(k, r) \<in> set ?d. k = ln_id r" "snd ` set ?d = set rows"
    using fold_dict_rows [of rows "[]"] inj by auto
  have "map ln_id (map snd ?d) = map fst ?d" using d(2) by (auto intro: map_cong)
  with d show ?thesis by (simp only: merged_def set_map)
qed

lemma best_first_mset: "mset (best_first hs) = mset hs"
  by (simp add: best_first_def)

lemma best_first_sorted: "sorted (rev (map ht_score (best_first hs)))"
  by (simp add: best_first_def rev_map)

text \<open>The head of a falling list holds its best elements.\<close>

lemma slice_best:
  assumes "sorted (rev (map f xs))" "0 \<le> k"
  shows "mset (slice_to k xs) \<subseteq># mset xs \<and> length (slice_to k xs) = min (nat k) (length xs)
    \<and> sorted (rev (map f (slice_to k xs)))
    \<and> (\<forall>x \<in># mset xs - mset (slice_to k xs). \<forall>h \<in> set (slice_to k xs). f x \<le> f h)"
proof -
  let ?a = "take (nat k) xs" and ?b = "drop (nat k) xs"
  have s: "slice_to k xs = ?a" using assms(2) by (simp add: slice_to_def)
  have m: "mset xs = mset ?a + mset ?b" by (metis append_take_drop_id mset_append)
  have "rev (map f xs) = rev (map f ?b) @ rev (map f ?a)"
    by (metis append_take_drop_id map_append rev_append)
  with assms(1) have "sorted (rev (map f ?b) @ rev (map f ?a))" by simp
  then have "sorted (rev (map f ?a))" "\<forall>x \<in> set ?b. \<forall>h \<in> set ?a. f x \<le> f h"
    by (auto simp: sorted_append)
  then show ?thesis unfolding s m by (simp add: min.commute)
qed

lemma nearest_all: "length rows \<le> k \<Longrightarrow> mset (nearest near v k rows) = mset rows"
  by (simp add: nearest_def)


text \<open>Two of the three learnings are in the scope of the change; the distance is that of the lengths.\<close>

definition sample_near :: "string \<Rightarrow> string \<Rightarrow> int" where
  "sample_near a b = \<bar>int (length a) - int (length b)\<bar>"

definition sample_rows :: "string learnings" where
  "sample_rows = snd (pg_ingest sample_env ''r'' sample_items None [] [])"


end
