(* ===== verification/Sqlite_Store.thy ===== *)
theory Sqlite_Store
  imports Knowledge
begin

text \<open>
  The knowledge base of the server-free deployment: \<open>sidecar/sqlite_store.py\<close>. A file holds the rows of
  \<open>learnings\<close> in rowid order, the rows of \<open>vec_learnings\<close> and the two markers of \<open>meta\<close>. What is modelled
  are the callbacks a cycle of theory \<open>Object_Store\<close> runs on the downloaded file, with the opening that
  may migrate it. Globs are kept as the list their JSON text encodes. sqlite-vec is a parameter in one
  respect, the rowid it gives a new vector; its KNN search is exact. The store interprets the same
  interface as the Postgres store, so both agree on every sequence of operations.
\<close>

section \<open>The file\<close>

record sq_row =
  sr_lid :: string
  sr_vec_rowid :: "nat option"
  sr_repo :: string
  sr_text :: string
  sr_source :: string
  sr_url :: "string option"
  sr_globs :: "string list"
  sr_topic :: "string option"
  sr_origin :: "string option"
  sr_expires :: "string option"

record 'v vec_row =
  vr_rowid :: nat
  vr_repo :: string
  vr_lid :: string
  vr_vec :: 'v

record 'v sq_db =
  sd_rows :: "sq_row list"
  sd_vecs :: "'v vec_row list"
  sd_dim :: "int option"
  sd_model :: "string option"

definition empty_db :: "'v sq_db" where
  "empty_db = \<lparr>sd_rows = [], sd_vecs = [], sd_dim = None, sd_model = None\<rparr>"

text \<open>What the store finds around it: besides the above, the probed dimension, the clock as the UTC moment
  whose text is compared, and the rowid of the next vector.\<close>

record 'v sq_env = "'v kb_env" +
  sq_dim :: int
  sq_now :: moment
  sq_rowid :: "nat list \<Rightarrow> nat"

definition sq_key :: "sq_row \<Rightarrow> string \<times> kb_key" where
  "sq_key r = (sr_repo r, sr_text r, sr_source r)"

subsection \<open>Opening and migrating\<close>

definition set_vec_rowid :: "string \<Rightarrow> nat \<Rightarrow> sq_row list \<Rightarrow> sq_row list" where
  "set_vec_rowid lid k rows = map (\<lambda>r. if sr_lid r = lid then r\<lparr>sr_vec_rowid := Some k\<rparr> else r) rows"

definition store_vector :: "('v, 'b) sq_env_scheme \<Rightarrow> string \<Rightarrow> string \<Rightarrow> 'v \<Rightarrow> 'v sq_db \<Rightarrow> 'v sq_db" where
  "store_vector env repo lid v db =
     (let k = sq_rowid env (map vr_rowid (sd_vecs db)) in
        db\<lparr>sd_rows := set_vec_rowid lid k (sd_rows db),
           sd_vecs := sd_vecs db @ [\<lparr>vr_rowid = k, vr_repo = repo, vr_lid = lid, vr_vec = v\<rparr>]\<rparr>)"

text \<open>\<open>_migrate_dim\<close>.\<close>

definition migrate :: "('v, 'b) sq_env_scheme \<Rightarrow> 'v sq_db \<Rightarrow> kb_error + 'v sq_db" where
  "migrate env db =
     (case embed (ke_settings env) (ke_ask env) (map sr_text (sd_rows db)) of
        Inl e \<Rightarrow> Inl (EmbedRaised (OneFailed e))
      | Inr vs \<Rightarrow>
          if length vs \<noteq> length (sd_rows db) then Inl Misaligned
          else Inr (fold (\<lambda>(r, v). store_vector env (sr_repo r) (sr_lid r) v) (zip (sd_rows db) vs)
                 (db\<lparr>sd_vecs := []\<rparr>)))"

definition needs_migration :: "('v, 'b) sq_env_scheme \<Rightarrow> 'v sq_db \<Rightarrow> bool" where
  "needs_migration env db =
     (\<not> (sd_dim db = None \<and> sd_rows db = [])
      \<and> (sd_dim db \<noteq> Some (sq_dim env) \<or> sd_model db \<noteq> Some (ks_model (ke_settings env))))"

text \<open>\<open>_open\<close>.\<close>

definition open_db :: "('v, 'b) sq_env_scheme \<Rightarrow> 'v sq_db \<Rightarrow> kb_error + 'v sq_db \<times> bool" where
  "open_db env db =
     (case (if needs_migration env db then migrate env db else Inr db) of
        Inl e \<Rightarrow> Inl e
      | Inr db' \<Rightarrow> Inr (db'\<lparr>sd_dim := Some (sq_dim env), sd_model := Some (ks_model (ke_settings env))\<rparr>,
                       needs_migration env db))"

subsection \<open>Ingest\<close>

definition sq_existing :: "string \<Rightarrow> ingest_item list \<Rightarrow> 'v sq_db \<Rightarrow> kb_key set" where
  "sq_existing repo items db =
     (\<lambda>r. (sr_text r, sr_source r)) `
       set (filter (\<lambda>r. sr_repo r = repo \<and> sr_text r \<in> it_text ` set items
                     \<and> (sr_text r, sr_source r) \<in> item_key ` set items) (sd_rows db))"

definition norm_expires :: "(string \<Rightarrow> moment option) \<Rightarrow> string option \<Rightarrow> string option" where
  "norm_expires rd x = map_option isoformat (parse_dt rd x)"

definition sq_new_row :: "('v, 'b) sq_env_scheme \<Rightarrow> string \<Rightarrow> string \<Rightarrow> ingest_item \<Rightarrow> sq_row" where
  "sq_new_row env lid repo i =
     \<lparr>sr_lid = lid, sr_vec_rowid = None, sr_repo = repo, sr_text = it_text i, sr_source = it_source i,
      sr_url = it_url i, sr_globs = it_globs i, sr_topic = it_topic i, sr_origin = it_origin i,
      sr_expires = norm_expires (ke_read env) (it_expires i)\<rparr>"

text \<open>\<open>INSERT OR IGNORE\<close>, then the vector and its rowid.\<close>

definition sq_insert ::
  "('v, 'b) sq_env_scheme \<Rightarrow> string \<Rightarrow> ingest_item \<times> 'v \<Rightarrow> 'v sq_db \<times> nat \<times> nat \<Rightarrow> 'v sq_db \<times> nat \<times> nat" where
  "sq_insert env repo iv s =
     (case iv of (i, v) \<Rightarrow> case s of (db, inserted, skipped) \<Rightarrow>
        let lid = ke_uuid env (map sr_lid (sd_rows db)) in
        if lid \<in> sr_lid ` set (sd_rows db) \<or> (repo, item_key i) \<in> sq_key ` set (sd_rows db)
        then (db, inserted, Suc skipped)
        else (store_vector env repo lid v (db\<lparr>sd_rows := sd_rows db @ [sq_new_row env lid repo i]\<rparr>),
              Suc inserted, skipped))"

text \<open>\<open>ingest\<close>: the keys come from a file read and opened before.\<close>

definition sq_ingest ::
  "('v, 'b) sq_env_scheme \<Rightarrow> string \<Rightarrow> ingest_item list \<Rightarrow> int option \<Rightarrow> 'v sq_db \<Rightarrow> 'v sq_db
     \<Rightarrow> (kb_error + nat \<times> nat) \<times> 'v sq_db" where
  "sq_ingest env repo items max_new seen db =
     (if items = [] then (Inr (0, 0), db)
      else case open_db env seen of
        Inl e \<Rightarrow> (Inl e, db)
      | Inr (seen', m) \<Rightarrow>
          (case partition_items items (sq_existing repo items seen') max_new of
             (to_embed, skipped, deferred) \<Rightarrow>
               if to_embed = [] then (Inr (0, skipped), db)
               else case embed (ke_settings env) (ke_ask env) (map it_text to_embed) of
                 Inl e \<Rightarrow> (Inl (EmbedRaised (OneFailed e)), db)
               | Inr vs \<Rightarrow>
                   (case open_db env db of
                      Inl e \<Rightarrow> (Inl e, db)
                    | Inr (db', m') \<Rightarrow>
                        if length to_embed \<noteq> length vs then (Inl Misaligned, db)
                        else (case fold (sq_insert env repo) (zip to_embed vs) (db', 0, 0) of
                                (db'', inserted, inner) \<Rightarrow> (Inr (inserted, skipped + inner), db'')))))"

subsection \<open>Forgetting\<close>

definition sq_named :: "string \<Rightarrow> string option \<Rightarrow> string option \<Rightarrow> bool \<Rightarrow> sq_row \<Rightarrow> bool" where
  "sq_named repo uid source everything r =
     (sr_repo r = repo \<and>
      (if \<not> blank uid then sr_lid r = the uid
       else if \<not> blank source then sr_source r = the source
       else everything))"

definition sq_delete :: "(sq_row \<Rightarrow> bool) \<Rightarrow> 'v sq_db \<Rightarrow> nat \<times> 'v sq_db" where
  "sq_delete P db =
     (let gone = filter P (sd_rows db) in
        (length gone,
         db\<lparr>sd_vecs := filter (\<lambda>v. Some (vr_rowid v) \<notin> sr_vec_rowid ` set gone) (sd_vecs db),
            sd_rows := filter (\<lambda>r. \<not> P r) (sd_rows db)\<rparr>))"

definition sq_forget ::
  "('v, 'b) sq_env_scheme \<Rightarrow> string \<Rightarrow> string option \<Rightarrow> string option \<Rightarrow> bool \<Rightarrow> 'v sq_db \<Rightarrow> (kb_error + nat) \<times> 'v sq_db" where
  "sq_forget env repo uid source everything db =
     (if blank uid \<and> blank source \<and> \<not> everything then (Inr 0, db)
      else case open_db env db of
        Inl e \<Rightarrow> (Inl e, db)
      | Inr (db', m) \<Rightarrow>
          let (n, db'') = sq_delete (sq_named repo uid source everything) db' in (Inr n, db''))"

subsection \<open>Reading\<close>

definition sq_shown :: "sq_row \<Rightarrow> stored_learning" where
  "sq_shown r =
     \<lparr>sl_id = sr_lid r, sl_repo = sr_repo r, sl_text = sr_text r, sl_source = sr_source r, sl_url = sr_url r,
      sl_globs = sr_globs r, sl_topic = sr_topic r, sl_created = None, sl_expires = sr_expires r\<rparr>"

definition is_sq_row :: "string \<Rightarrow> string \<Rightarrow> sq_row \<Rightarrow> bool" where
  "is_sq_row repo lid r = (sr_repo r = repo \<and> sr_lid r = lid)"

definition sq_get_row :: "string \<Rightarrow> string \<Rightarrow> 'v sq_db \<Rightarrow> stored_learning option" where
  "sq_get_row repo lid db = map_option sq_shown (find (is_sq_row repo lid) (sd_rows db))"

text \<open>The text comparison \<open>expires_at > now\<close>.\<close>

definition sq_live :: "('v, 'b) sq_env_scheme \<Rightarrow> sq_row \<Rightarrow> bool" where
  "sq_live env r = (case sr_expires r of None \<Rightarrow> True | Some x \<Rightarrow> isoformat (sq_now env) < x)"

definition sq_listed ::
  "('v, 'b) sq_env_scheme \<Rightarrow> string option \<Rightarrow> string option \<Rightarrow> string option \<Rightarrow> bool \<Rightarrow> 'v sq_db \<Rightarrow> sq_row list" where
  "sq_listed env repo source q include_expired db =
     filter (\<lambda>r. (include_expired \<or> sq_live env r) \<and> asked repo (sr_repo r) \<and> asked source (sr_source r)
       \<and> searched (\<lambda>s p. like p (lower s)) (map_option lower q) (sr_text r) (sr_topic r)) (sd_rows db)"

definition sq_list ::
  "('v, 'b) sq_env_scheme \<Rightarrow> string option \<Rightarrow> string option \<Rightarrow> nat \<Rightarrow> nat \<Rightarrow> string option \<Rightarrow> bool \<Rightarrow> 'v sq_db
     \<Rightarrow> stored_learning list \<times> nat" where
  "sq_list env repo source limit offset q include_expired db =
     (let rows = sq_listed env repo source q include_expired db in
        (map sq_shown (take limit (drop offset (rev rows))), length rows))"

definition sq_repos :: "('v, 'b) sq_env_scheme \<Rightarrow> 'v sq_db \<Rightarrow> repo_summary list" where
  "sq_repos env db =
     fold_repo_counts (group_counts (map (\<lambda>r. (sr_repo r, sr_source r)) (filter (sq_live env) (sd_rows db))))"

subsection \<open>Editing\<close>

definition sq_changed_row :: "kb_changes \<Rightarrow> moment option option \<Rightarrow> sq_row \<Rightarrow> sq_row" where
  "sq_changed_row ch ex r =
     r\<lparr>sr_text := the (supplied (ch_text ch) (Some (sr_text r))),
       sr_source := the (supplied (ch_source ch) (Some (sr_source r))),
       sr_url := supplied (ch_url ch) (sr_url r),
       sr_globs := (case ch_globs ch of None \<Rightarrow> sr_globs r | Some None \<Rightarrow> [] | Some (Some g) \<Rightarrow> g),
       sr_topic := supplied (ch_topic ch) (sr_topic r),
       sr_expires := (case ex of None \<Rightarrow> sr_expires r | Some m \<Rightarrow> map_option isoformat m)\<rparr>"

definition set_vector :: "nat option \<Rightarrow> 'v option \<Rightarrow> 'v vec_row list \<Rightarrow> 'v vec_row list" where
  "set_vector k v vecs =
     (case (k, v) of
        (Some k, Some v) \<Rightarrow> map (\<lambda>w. if vr_rowid w = k then w\<lparr>vr_vec := v\<rparr> else w) vecs
      | _ \<Rightarrow> vecs)"

definition sq_update ::
  "('v, 'b) sq_env_scheme \<Rightarrow> string \<Rightarrow> string \<Rightarrow> kb_changes \<Rightarrow> 'v sq_db
     \<Rightarrow> (kb_error + stored_learning option) \<times> 'v sq_db" where
  "sq_update env repo lid ch db =
     (case check_changes (ke_read env) ch of
        Inl e \<Rightarrow> (Inl e, db)
      | Inr ex \<Rightarrow>
          (case open_db env db of
             Inl e \<Rightarrow> (Inl e, db)
           | Inr (db', m) \<Rightarrow>
               if ch = no_changes then (Inr (sq_get_row repo lid db'), if m then db' else db)
               else (case find (is_sq_row repo lid) (sd_rows db') of
                  None \<Rightarrow> (Inr None, db')
                | Some cur \<Rightarrow>
                    (case new_vector (ke_settings env) (ke_ask env) ch (sr_text cur) of
                       Inl e \<Rightarrow> (Inl e, db)
                     | Inr v \<Rightarrow>
                         let new = sq_changed_row ch ex cur in
                         if list_ex (\<lambda>r. sr_lid r \<noteq> lid \<and> sq_key r = sq_key new) (sd_rows db')
                         then (Inl DuplicateLearning, db)
                         else (Inr (Some (sq_shown new)),
                           db'\<lparr>sd_rows := map (\<lambda>r. if is_sq_row repo lid r then new else r) (sd_rows db'),
                               sd_vecs := set_vector (sr_vec_rowid cur) v (sd_vecs db')\<rparr>)))))"

subsection \<open>Retrieval\<close>

definition knn :: "('v \<Rightarrow> 'v \<Rightarrow> 'd::linorder) \<Rightarrow> string \<Rightarrow> 'v \<Rightarrow> nat \<Rightarrow> 'v vec_row list \<Rightarrow> (string \<times> 'd) list" where
  "knn near repo v k vecs =
     map (\<lambda>w. (vr_lid w, near (vr_vec w) v))
       (take k (sort_key (\<lambda>w. near (vr_vec w) v) (filter (\<lambda>w. vr_repo w = repo) vecs)))"

definition VAR_BATCH :: nat where "VAR_BATCH = 500"

definition rows_by_lid :: "(sq_row \<Rightarrow> bool) \<Rightarrow> string list \<Rightarrow> sq_row list \<Rightarrow> sq_row list" where
  "rows_by_lid P lids rows =
     concat (map (\<lambda>b. filter (\<lambda>r. sr_lid r \<in> set b \<and> P r) rows) (batches VAR_BATCH lids))"

definition dark_count :: "string \<Rightarrow> sq_row list \<Rightarrow> nat" where
  "dark_count repo rows = length (filter (\<lambda>r. sr_repo r = repo \<and> sr_source r = DIGEST_SOURCE) rows)"

definition window :: "('v, 'b) sq_env_scheme \<Rightarrow> string \<Rightarrow> sq_row list \<Rightarrow> nat" where
  "window env repo rows =
     nat (ks_candidate_k (ke_settings env)) + (if ks_digests (ke_settings env) then 0 else dark_count repo rows)"

definition sq_hit :: "('d \<Rightarrow> 'd) \<Rightarrow> (string, 'd) dict \<Rightarrow> sq_row \<Rightarrow> 'd hit" where
  "sq_hit similarity d r =
     \<lparr>ht_id = sr_lid r, ht_text = sr_text r, ht_source = sr_source r, ht_url = sr_url r,
      ht_globs = sr_globs r, ht_topic = sr_topic r, ht_score = similarity (the (map_of d (sr_lid r)))\<rparr>"

definition sq_search ::
  "('v, 'b) sq_env_scheme \<Rightarrow> ('v \<Rightarrow> 'v \<Rightarrow> 'd::linorder) \<Rightarrow> ('d \<Rightarrow> 'd) \<Rightarrow> string \<Rightarrow> string list \<Rightarrow> int \<Rightarrow> 'v
     \<Rightarrow> 'v sq_db \<Rightarrow> 'd hit list" where
  "sq_search env near similarity repo files k v db =
     (let d = fold (\<lambda>(l, x). dict_set l x) (knn near repo v (window env repo (sd_rows db)) (sd_vecs db)) [] in
      if d = [] then []
      else slice_to k (best_first (map (sq_hit similarity d)
        (filter (\<lambda>r. (ks_digests (ke_settings env) \<or> sr_source r \<noteq> DIGEST_SOURCE) \<and> in_scope files (sr_globs r))
          (rows_by_lid (sq_live env) (map fst d) (sd_rows db))))))"

definition sq_query ::
  "('v, 'b) sq_env_scheme \<Rightarrow> ('v \<Rightarrow> 'v \<Rightarrow> 'd::linorder) \<Rightarrow> ('d \<Rightarrow> 'd) \<Rightarrow> string \<Rightarrow> string list \<Rightarrow> string option
     \<Rightarrow> string option \<Rightarrow> int option \<Rightarrow> 'v sq_db \<Rightarrow> kb_error + 'd hit list" where
  "sq_query env near similarity repo files pr_body query_text k db =
     (let q = build_query (ke_settings env) files pr_body query_text in
      if q = '''' then Inr []
      else case embed_query (ke_settings env) (ke_ask env) q of
        Inl e \<Rightarrow> Inl (EmbedRaised e)
      | Inr v \<Rightarrow>
          (case open_db env db of
             Inl e \<Rightarrow> Inl e
           | Inr (db', m) \<Rightarrow> Inr (sq_search env near similarity repo files (top_k (ke_settings env) k) v db')))"

section \<open>Rows and vectors\<close>

text \<open>The two tables are in step: every learning has its vector, under the same repository and id, and
  there is no other.\<close>

definition linked :: "sq_row \<Rightarrow> 'v vec_row \<Rightarrow> bool" where
  "linked r w = (sr_vec_rowid r = Some (vr_rowid w) \<and> vr_repo w = sr_repo r \<and> vr_lid w = sr_lid r)"

definition in_step :: "'v sq_db \<Rightarrow> bool" where
  "in_step db = (list_all2 linked (sd_rows db) (sd_vecs db) \<and> distinct (map vr_rowid (sd_vecs db)))"

definition sq_entry :: "sq_row \<Rightarrow> 'v vec_row \<Rightarrow> 'v entry" where
  "sq_entry r w = \<lparr>en_id = sr_lid r, en_repo = sr_repo r, en_text = sr_text r, en_source = sr_source r,
     en_url = sr_url r, en_globs = sr_globs r, en_topic = sr_topic r, en_vec = vr_vec w\<rparr>"

definition sq_entries :: "'v sq_db \<Rightarrow> 'v entry list" where
  "sq_entries db = map2 sq_entry (sd_rows db) (sd_vecs db)"

definition marked :: "('v, 'b) sq_env_scheme \<Rightarrow> 'v sq_db \<Rightarrow> bool" where
  "marked env db = (\<not> needs_migration env db)"

definition sq_ok :: "('v, 'b) sq_env_scheme \<Rightarrow> (string \<Rightarrow> 'v) \<Rightarrow> 'v sq_db \<Rightarrow> bool" where
  "sq_ok env e db = (honest (kb_env.truncate env) e \<and> (\<forall>ks. sq_rowid env ks \<notin> set ks)
     \<and> in_step db \<and> marked env db \<and> entries_ok (vec_of (kb_env.truncate env) e) (sq_entries db))"

lemma truncate_fields [simp]:
  "ke_settings (kb_env.truncate env) = ke_settings env" "ke_ask (kb_env.truncate env) = ke_ask env"
  "ke_uuid (kb_env.truncate env) = ke_uuid env" "ke_read (kb_env.truncate env) = ke_read env"
  by (simp_all add: kb_env.truncate_def)

lemma sq_entry_fields [simp]:
  "en_id (sq_entry r w) = sr_lid r" "en_repo (sq_entry r w) = sr_repo r" "en_text (sq_entry r w) = sr_text r"
  "en_source (sq_entry r w) = sr_source r" "en_url (sq_entry r w) = sr_url r" "en_globs (sq_entry r w) = sr_globs r"
  "en_topic (sq_entry r w) = sr_topic r" "en_vec (sq_entry r w) = vr_vec w" "en_key (sq_entry r w) = sq_key r"
  by (simp_all add: sq_entry_def en_key_def sq_key_def)

lemma map_entries:
  assumes "length (sd_rows db) = length (sd_vecs db)" "\<And>r w. f (sq_entry r w) = g r"
  shows "map f (sq_entries db) = map g (sd_rows db)"
proof -
  have "map f (map2 sq_entry rows vecs) = map g rows" if "length rows = length vecs" for rows :: "sq_row list" and vecs :: "'a vec_row list"
    using that by (induction rows vecs rule: list_induct2) (simp_all add: assms(2))
  with assms(1) show ?thesis by (simp add: sq_entries_def)
qed

lemma in_step_length: "in_step db \<Longrightarrow> length (sd_rows db) = length (sd_vecs db)"
  by (auto simp: in_step_def dest: list_all2_lengthD)

lemma entry_ids: "in_step db \<Longrightarrow> map en_id (sq_entries db) = map sr_lid (sd_rows db)"
  by (rule map_entries) (simp_all add: in_step_length)

lemma entry_keys: "in_step db \<Longrightarrow> map en_key (sq_entries db) = map sq_key (sd_rows db)"
  by (rule map_entries) (simp_all add: in_step_length)

lemma open_marked: "marked env db \<Longrightarrow>
   open_db env db = Inr (db\<lparr>sd_dim := Some (sq_dim env), sd_model := Some (ks_model (ke_settings env))\<rparr>, False)"
  by (simp add: open_db_def marked_def)

lemma marked_open [simp]:
  "marked env (db\<lparr>sd_dim := Some (sq_dim env), sd_model := Some (ks_model (ke_settings env))\<rparr>)"
  by (simp add: marked_def needs_migration_def)

lemma open_entries [simp]:
  "sq_entries (db\<lparr>sd_dim := x, sd_model := y\<rparr>) = sq_entries db"
  "in_step (db\<lparr>sd_dim := x, sd_model := y\<rparr>) = in_step db"
  by (simp_all add: sq_entries_def in_step_def)

subsection \<open>One more learning\<close>

lemma set_vec_rowid_other: "lid \<notin> sr_lid ` set rows \<Longrightarrow> set_vec_rowid lid k rows = rows"
  by (induction rows) (auto simp: set_vec_rowid_def)

lemma store_new_row:
  assumes "in_step db" "sq_rowid env (map vr_rowid (sd_vecs db)) \<notin> vr_rowid ` set (sd_vecs db)"
    and "lid \<notin> sr_lid ` set (sd_rows db)" "sr_lid r = lid" "sr_repo r = repo"
  shows "in_step (store_vector env repo lid v (db\<lparr>sd_rows := sd_rows db @ [r]\<rparr>))
    \<and> sq_entries (store_vector env repo lid v (db\<lparr>sd_rows := sd_rows db @ [r]\<rparr>))
        = sq_entries db @ [sq_entry r \<lparr>vr_rowid = 0, vr_repo = repo, vr_lid = lid, vr_vec = v\<rparr>]
    \<and> sd_dim (store_vector env repo lid v (db\<lparr>sd_rows := sd_rows db @ [r]\<rparr>)) = sd_dim db
    \<and> sd_model (store_vector env repo lid v (db\<lparr>sd_rows := sd_rows db @ [r]\<rparr>)) = sd_model db"
proof -
  let ?k = "sq_rowid env (map vr_rowid (sd_vecs db))"
  have rows: "set_vec_rowid lid ?k (sd_rows db @ [r]) = sd_rows db @ [r\<lparr>sr_vec_rowid := Some ?k\<rparr>]"
    using set_vec_rowid_other [OF assms(3)] assms(4) by (simp add: set_vec_rowid_def)
  have "list_all2 linked (sd_rows db @ [r\<lparr>sr_vec_rowid := Some ?k\<rparr>])
      (sd_vecs db @ [\<lparr>vr_rowid = ?k, vr_repo = repo, vr_lid = lid, vr_vec = v\<rparr>])"
    using assms(1,4,5) by (auto simp: in_step_def linked_def intro!: list_all2_appendI)
  moreover have "distinct (map vr_rowid (sd_vecs db) @ [?k])" using assms(1,2) by (simp add: in_step_def)
  moreover have "map2 sq_entry (sd_rows db @ [r\<lparr>sr_vec_rowid := Some ?k\<rparr>])
      (sd_vecs db @ [\<lparr>vr_rowid = ?k, vr_repo = repo, vr_lid = lid, vr_vec = v\<rparr>])
    = sq_entries db @ [sq_entry r \<lparr>vr_rowid = 0, vr_repo = repo, vr_lid = lid, vr_vec = v\<rparr>]"
    using in_step_length [OF assms(1)] by (simp add: sq_entries_def sq_entry_def)
  ultimately show ?thesis by (simp add: store_vector_def Let_def in_step_def sq_entries_def rows)
qed

lemma sq_existing_iff:
  "in_step db \<Longrightarrow> sq_existing repo items db = keys_of repo (sq_entries db) \<inter> item_key ` set items"
proof -
  assume s: "in_step db"
  have "keys_of repo (sq_entries db) = {k. (repo, k) \<in> set (map en_key (sq_entries db))}"
    by (force simp: keys_of_def en_key_def image_iff)
  also have "\<dots> = {k. (repo, k) \<in> sq_key ` set (sd_rows db)}" by (simp add: entry_keys [OF s])
  finally have k: "keys_of repo (sq_entries db) = {k. (repo, k) \<in> sq_key ` set (sd_rows db)}" .
  show ?thesis unfolding k by (force simp: sq_existing_def sq_key_def item_key_def image_iff)
qed

lemma sq_key_iff:
  "in_step db \<Longrightarrow> (repo, k) \<in> sq_key ` set (sd_rows db) \<longleftrightarrow> k \<in> keys_of repo (sq_entries db)"
proof -
  assume s: "in_step db"
  have "(repo, k) \<in> set (map en_key (sq_entries db)) \<longleftrightarrow> k \<in> keys_of repo (sq_entries db)"
    by (cases k) (force simp: keys_of_def en_key_def image_iff)
  then show ?thesis by (simp add: entry_keys [OF s])
qed

lemma sq_insert_fresh:
  assumes "in_step db" "\<And>ks. sq_rowid env ks \<notin> set ks" "\<And>ids. ke_uuid env ids \<notin> set ids"
    and "item_key i \<notin> keys_of repo (sq_entries db)"
  shows "\<exists>db'. sq_insert env repo (i, emb (it_text i)) (db, n, sk) = (db', Suc n, sk) \<and> in_step db'
    \<and> sq_entries db' = add_entry (ke_uuid env) emb repo i (sq_entries db)
    \<and> sd_dim db' = sd_dim db \<and> sd_model db' = sd_model db"
proof -
  let ?lid = "ke_uuid env (map sr_lid (sd_rows db))"
  let ?r = "sq_new_row env ?lid repo i"
  let ?db = "store_vector env repo ?lid (emb (it_text i)) (db\<lparr>sd_rows := sd_rows db @ [?r]\<rparr>)"
  have l: "?lid \<notin> sr_lid ` set (sd_rows db)" using assms(3) by (metis set_map)
  have k: "sq_rowid env (map vr_rowid (sd_vecs db)) \<notin> vr_rowid ` set (sd_vecs db)" using assms(2) by (metis set_map)
  have "(repo, item_key i) \<notin> sq_key ` set (sd_rows db)" using assms(4) sq_key_iff [OF assms(1)] by blast
  then have "sq_insert env repo (i, emb (it_text i)) (db, n, sk) = (?db, Suc n, sk)"
    using l by (simp add: sq_insert_def Let_def)
  moreover have "sq_entry ?r \<lparr>vr_rowid = 0, vr_repo = repo, vr_lid = ?lid, vr_vec = emb (it_text i)\<rparr>
      = new_entry emb (ke_uuid env (map en_id (sq_entries db))) repo i"
    unfolding entry_ids [OF assms(1)] by (simp add: sq_entry_def sq_new_row_def new_entry_def)
  ultimately show ?thesis
    using store_new_row [OF assms(1) k l, of ?r repo "emb (it_text i)"]
    by (simp add: add_entry_def sq_new_row_def)
qed

lemma sq_inserts_fresh:
  assumes "\<And>ks. sq_rowid env ks \<notin> set ks" "\<And>ids. ke_uuid env ids \<notin> set ids"
  shows "in_step db \<Longrightarrow> distinct (map item_key is) \<Longrightarrow> item_key ` set is \<inter> keys_of repo (sq_entries db) = {}
    \<Longrightarrow> \<exists>db'. fold (sq_insert env repo) (zip is (map emb (map it_text is))) (db, n, sk) = (db', n + length is, sk)
        \<and> in_step db' \<and> sq_entries db' = fold (add_entry (ke_uuid env) emb repo) is (sq_entries db)
        \<and> sd_dim db' = sd_dim db \<and> sd_model db' = sd_model db"
proof (induction "is" arbitrary: db n)
  case (Cons i "is")
  have "item_key i \<notin> keys_of repo (sq_entries db)" using Cons.prems(3) by simp
  from sq_insert_fresh [where emb = emb and n = n and sk = sk, OF Cons.prems(1) assms this] obtain db1 where
    1: "sq_insert env repo (i, emb (it_text i)) (db, n, sk) = (db1, Suc n, sk)" "in_step db1"
      "sq_entries db1 = add_entry (ke_uuid env) emb repo i (sq_entries db)"
      "sd_dim db1 = sd_dim db" "sd_model db1 = sd_model db" by blast
  have free: "item_key ` set is \<inter> keys_of repo (sq_entries db1) = {}"
    using Cons.prems(2,3) unfolding 1(3) keys_add_entry by (simp add: Int_insert_right)
  have d: "distinct (map item_key is)" using Cons.prems(2) by simp
  from Cons.IH [OF 1(2) d free, of "Suc n"] obtain db' where
    "fold (sq_insert env repo) (zip is (map emb (map it_text is))) (db1, Suc n, sk) = (db', Suc n + length is, sk)
      \<and> in_step db' \<and> sq_entries db' = fold (add_entry (ke_uuid env) emb repo) is (sq_entries db1)
      \<and> sd_dim db' = sd_dim db1 \<and> sd_model db' = sd_model db1" ..
  then show ?case using 1 by (intro exI [of _ db']) simp
qed simp

lemma sq_partition_fresh:
  assumes "in_step db"
  shows "partition_items items (sq_existing repo items db) c =
     (let fs = fresh_items (keys_of repo (sq_entries db)) items in
        (capped c fs, length items - length fs, length fs - length (capped c fs)))"
proof -
  have "fresh_items (sq_existing repo items db) items = fresh_items (keys_of repo (sq_entries db)) items"
    by (rule fresh_items_cong) (simp add: sq_existing_iff [OF assms])
  then show ?thesis by (simp add: partition_spec Let_def)
qed

lemma sq_ingest_meets:
  assumes "sq_ok env e db" "\<forall>i \<in> set items. it_source i \<in> set SOURCES"
  shows "fst (sq_ingest env repo items c db db)
      = Inr (fst (spec_ingest (ke_uuid env) (vec_of (kb_env.truncate env) e) repo items c (sq_entries db)))
    \<and> sq_entries (snd (sq_ingest env repo items c db db))
      = snd (spec_ingest (ke_uuid env) (vec_of (kb_env.truncate env) e) repo items c (sq_entries db))
    \<and> sq_ok env e (snd (sq_ingest env repo items c db db))"
proof -
  let ?emb = "vec_of (kb_env.truncate env) e"
  let ?db = "db\<lparr>sd_dim := Some (sq_dim env), sd_model := Some (ks_model (ke_settings env))\<rparr>"
  let ?fs = "fresh_items (keys_of repo (sq_entries db)) items"
  let ?is = "capped c ?fs" and ?sk = "length items - length ?fs"
  have h: "honest (kb_env.truncate env) e" and s: "in_step db" and m: "marked env db"
    and ok: "entries_ok ?emb (sq_entries db)" and rowid: "\<And>ks. sq_rowid env ks \<notin> set ks"
    using assms(1) by (simp_all add: sq_ok_def)
  have uuid: "\<And>ids. ke_uuid env ids \<notin> set ids" using h by (simp add: honest_def)
  have emb: "embed (ke_settings env) (ke_ask env) ts = Inr (map ?emb ts)" for ts
    using honest_embed [OF h] by simp
  have d: "distinct (map item_key ?is)" by (rule distinct_capped [OF fresh_items_distinct])
  have "item_key i \<notin> keys_of repo (sq_entries db)" if "i \<in> set ?is" for i
    by (rule fresh_items_not_in [OF subsetD [OF set_capped that]])
  then have free: "item_key ` set ?is \<inter> keys_of repo (sq_entries ?db) = {}" by auto
  from s have s': "in_step ?db" by simp
  from sq_inserts_fresh [where emb = ?emb and n = 0 and sk = 0, OF rowid uuid s' d free] obtain db' where
    db': "fold (sq_insert env repo) (zip ?is (map ?emb (map it_text ?is))) (?db, 0, 0) = (db', 0 + length ?is, 0)
      \<and> in_step db' \<and> sq_entries db' = fold (add_entry (ke_uuid env) ?emb repo) ?is (sq_entries ?db)
      \<and> sd_dim db' = sd_dim ?db \<and> sd_model db' = sd_model ?db" ..
  have p: "partition_items items (sq_existing repo items ?db) c = (?is, ?sk, length ?fs - length ?is)"
    using sq_partition_fresh [OF s'] by (simp add: Let_def)
  have "sq_ingest env repo items c db db = (Inr (length ?is, ?sk), if ?is = [] then db else db')"
  proof (cases "items = []")
    case True
    then show ?thesis by (simp add: sq_ingest_def capped_def split: option.split)
  next
    case False
    show ?thesis
    proof (cases "?is = []")
      case True
      with False show ?thesis by (simp add: sq_ingest_def open_marked [OF m] p)
    next
      case taken: False
      with False db' show ?thesis
        by (simp add: sq_ingest_def open_marked [OF m] p emb)
    qed
  qed
  moreover have "sq_entries (if ?is = [] then db else db') = snd (spec_ingest (ke_uuid env) ?emb repo items c (sq_entries db))"
    using db' by (simp add: spec_ingest_def Let_def)
  moreover have "entries_ok ?emb (snd (spec_ingest (ke_uuid env) ?emb repo items c (sq_entries db)))"
    by (rule spec_ingest_ok [OF uuid ok assms(2)])
  moreover have "in_step (if ?is = [] then db else db')" using s db' by simp
  moreover have "marked env (if ?is = [] then db else db')"
    using m db' by (simp add: marked_def needs_migration_def)
  ultimately show ?thesis using h rowid by (simp add: spec_ingest_def Let_def sq_ok_def)
qed

subsection \<open>Deleting keeps the tables in step\<close>

lemma rowid_determines:
  assumes "in_step db" "(r, w) \<in> set (zip (sd_rows db) (sd_vecs db))" "(r', w') \<in> set (zip (sd_rows db) (sd_vecs db))"
    and "sr_vec_rowid r' = Some (vr_rowid w)"
  shows "r' = r"
proof -
  from assms(2) obtain i where i: "i < length (sd_rows db)" "i < length (sd_vecs db)"
    "r = sd_rows db ! i" "w = sd_vecs db ! i" by (auto simp: set_zip)
  from assms(3) obtain j where j: "j < length (sd_rows db)" "j < length (sd_vecs db)"
    "r' = sd_rows db ! j" "w' = sd_vecs db ! j" by (auto simp: set_zip)
  from assms(1) j have "linked r' w'" by (simp add: in_step_def list_all2_conv_all_nth)
  with assms(4) have "map vr_rowid (sd_vecs db) ! j = map vr_rowid (sd_vecs db) ! i"
    using i(2,4) j(2,4) by (simp add: linked_def)
  with assms(1) i(2) j(2) have "j = i" by (simp add: in_step_def distinct_conv_nth) (metis)
  with i j show ?thesis by simp
qed

lemma filter_in_step:
  "list_all2 linked rows vecs \<Longrightarrow> (\<And>r w. (r, w) \<in> set (zip rows vecs) \<Longrightarrow> Q w = P r)
    \<Longrightarrow> (\<And>r w. F (sq_entry r w) = P r)
    \<Longrightarrow> list_all2 linked (filter P rows) (filter Q vecs)
      \<and> map2 sq_entry (filter P rows) (filter Q vecs) = filter F (map2 sq_entry rows vecs)"
proof (induction rows vecs rule: list_all2_induct)
  case (Cons r rows w vecs)
  have q: "Q w = P r" using Cons.prems(1) by simp
  have "list_all2 linked (filter P rows) (filter Q vecs)
      \<and> map2 sq_entry (filter P rows) (filter Q vecs) = filter F (map2 sq_entry rows vecs)"
    by (rule Cons.IH [OF Cons.prems(1) Cons.prems(2)]) simp
  with q Cons.hyps(1) Cons.prems(2) [of r w] show ?case by (cases "P r") simp_all
qed simp

lemma sq_delete_meets:
  assumes "in_step db" "\<And>r w. F (sq_entry r w) = P r"
  shows "fst (sq_delete P db) = length (filter F (sq_entries db))
    \<and> sq_entries (snd (sq_delete P db)) = filter (\<lambda>r. \<not> F r) (sq_entries db)
    \<and> in_step (snd (sq_delete P db))"
proof -
  let ?Q = "\<lambda>w. Some (vr_rowid w) \<notin> sr_vec_rowid ` set (filter P (sd_rows db))"
  have l2: "list_all2 linked (sd_rows db) (sd_vecs db)" using assms(1) by (simp add: in_step_def)
  have Q: "?Q w = (\<not> P r)" if z: "(r, w) \<in> set (zip (sd_rows db) (sd_vecs db))" for r w
  proof -
    have "linked r w" using l2 z by (auto simp: list_all2_iff)
    then have "P r \<Longrightarrow> \<not> ?Q w" using z by (force simp: linked_def dest: set_zip_leftD)
    moreover have "P r" if w: "\<not> ?Q w"
    proof -
      from w obtain r' where r': "r' \<in> set (sd_rows db)" "P r'" "sr_vec_rowid r' = Some (vr_rowid w)" by auto
      from r'(1) obtain j where "j < length (sd_rows db)" "r' = sd_rows db ! j" by (auto simp: in_set_conv_nth)
      then have "(r', sd_vecs db ! j) \<in> set (zip (sd_rows db) (sd_vecs db))"
        using in_step_length [OF assms(1)] by (auto simp: set_zip)
      from rowid_determines [OF assms(1) z this r'(3)] r'(2) show ?thesis by simp
    qed
    ultimately show ?thesis by blast
  qed
  have gone: "list_all2 linked (filter P (sd_rows db)) (filter (\<lambda>w. \<not> ?Q w) (sd_vecs db))
      \<and> map2 sq_entry (filter P (sd_rows db)) (filter (\<lambda>w. \<not> ?Q w) (sd_vecs db)) = filter F (sq_entries db)"
    unfolding sq_entries_def by (rule filter_in_step [OF l2]) (simp only: Q simp_thms, simp only: assms(2))
  have "length (filter F (sq_entries db)) = length (filter P (sd_rows db))"
    unfolding conjunct2 [OF gone, symmetric] length_map length_zip list_all2_lengthD [OF conjunct1 [OF gone]] by simp
  moreover have "list_all2 linked (filter (\<lambda>r. \<not> P r) (sd_rows db)) (filter ?Q (sd_vecs db))
      \<and> map2 sq_entry (filter (\<lambda>r. \<not> P r) (sd_rows db)) (filter ?Q (sd_vecs db))
        = filter (\<lambda>r. \<not> F r) (sq_entries db)"
    unfolding sq_entries_def by (rule filter_in_step [OF l2]) (simp only: Q, simp only: assms(2))
  moreover have "distinct (map vr_rowid (filter ?Q (sd_vecs db)))"
    using assms(1) by (simp add: in_step_def distinct_map_filter)
  ultimately show ?thesis by (simp add: sq_delete_def Let_def in_step_def sq_entries_def)
qed

lemma sq_forget_meets:
  fixes db :: "'v sq_db"
  assumes "sq_ok env e db"
  shows "fst (sq_forget env repo uid source everything db)
      = Inr (length (filter (forgotten Some repo uid source everything) (sq_entries db)))
    \<and> sq_entries (snd (sq_forget env repo uid source everything db))
      = filter (\<lambda>r. \<not> forgotten Some repo uid source everything r) (sq_entries db)
    \<and> sq_ok env e (snd (sq_forget env repo uid source everything db))"
proof (cases "blank uid \<and> blank source \<and> \<not> everything")
  case True
  then have "\<not> forgotten Some repo uid source everything r" for r :: "'v entry" by (simp add: forgotten_def)
  with True assms show ?thesis by (simp add: sq_forget_def)
next
  case False
  let ?db = "db\<lparr>sd_dim := Some (sq_dim env), sd_model := Some (ks_model (ke_settings env))\<rparr>"
  let ?P = "sq_named repo uid source everything"
  have s: "in_step db" and m: "marked env db" using assms by (simp_all add: sq_ok_def)
  have F: "forgotten Some repo uid source everything (sq_entry r w) = ?P r" for r and w :: "'v vec_row"
    by (auto simp: forgotten_def sq_named_def)
  have "in_step ?db" using s by simp
  note d = sq_delete_meets [where P = ?P and F = "forgotten Some repo uid source everything", OF this F]
  have f: "sq_forget env repo uid source everything db = (Inr (fst (sq_delete ?P ?db)), snd (sq_delete ?P ?db))"
    using False by (auto simp: sq_forget_def open_marked [OF m] split: prod.split)
  have "marked env (snd (sq_delete ?P ?db))"
    by (simp add: sq_delete_def Let_def marked_def needs_migration_def)
  moreover have "entries_ok (vec_of (kb_env.truncate env) e)
      (filter (\<lambda>r. \<not> forgotten Some repo uid source everything r) (sq_entries db))"
    using assms by (intro entries_ok_filter) (simp add: sq_ok_def)
  ultimately show ?thesis using d assms unfolding f by (simp add: sq_ok_def)
qed

subsection \<open>Editing keeps the tables in step\<close>

lemma split_in_step:
  assumes "in_step db" "cur \<in> set (sd_rows db)"
  obtains xs ys us w vs where "sd_rows db = xs @ cur # ys" "sd_vecs db = us @ w # vs"
    "list_all2 linked xs us" "linked cur w" "list_all2 linked ys vs"
proof -
  from assms(2) obtain xs ys where r: "sd_rows db = xs @ cur # ys" by (meson split_list)
  with assms(1) have "list_all2 linked (xs @ cur # ys) (sd_vecs db)" by (simp add: in_step_def)
  then obtain us ws where "sd_vecs db = us @ ws" "list_all2 linked xs us" "list_all2 linked (cur # ys) ws"
    by (auto simp: list_all2_append1)
  with r that show thesis by (auto simp: list_all2_Cons1)
qed

lemma map_only_at:
  "(\<And>x. x \<in> set xs \<Longrightarrow> \<not> P x) \<Longrightarrow> (\<And>x. x \<in> set ys \<Longrightarrow> \<not> P x) \<Longrightarrow> P c \<Longrightarrow>
     map (\<lambda>x. if P x then f x else x) (xs @ c # ys) = xs @ f c # ys"
  by (simp add: map_eq_id_on)

lemma replace_in_step:
  assumes ok: "in_step db" "distinct (map sr_lid (sd_rows db))"
    and cur: "cur \<in> set (sd_rows db)" "is_sq_row repo lid cur"
    and new: "sr_lid new = sr_lid cur" "sr_repo new = sr_repo cur" "sr_vec_rowid new = sr_vec_rowid cur"
    and entry: "\<And>w. linked cur w \<Longrightarrow> sq_entry cur w \<in> set (sq_entries db) \<Longrightarrow>
      sq_entry new (w\<lparr>vr_vec := supplied v (vr_vec w)\<rparr>) = g (sq_entry cur w)"
  shows "in_step (db\<lparr>sd_rows := map (\<lambda>r. if is_sq_row repo lid r then new else r) (sd_rows db),
            sd_vecs := set_vector (sr_vec_rowid cur) v (sd_vecs db)\<rparr>)
    \<and> sq_entries (db\<lparr>sd_rows := map (\<lambda>r. if is_sq_row repo lid r then new else r) (sd_rows db),
            sd_vecs := set_vector (sr_vec_rowid cur) v (sd_vecs db)\<rparr>)
        = map (\<lambda>r. if en_repo r = repo \<and> en_id r = lid then g r else r) (sq_entries db)"
proof -
  obtain xs ys us w vs where s: "sd_rows db = xs @ cur # ys" "sd_vecs db = us @ w # vs"
    and l: "list_all2 linked xs us" "linked cur w" "list_all2 linked ys vs"
    by (rule split_in_step [OF ok(1) cur(1)])
  let ?w = "w\<lparr>vr_vec := supplied v (vr_vec w)\<rparr>"
  have lid: "sr_lid cur = lid" "sr_repo cur = repo" using cur(2) by (simp_all add: is_sq_row_def)
  have other: "\<not> is_sq_row repo lid r" if "r \<in> set xs \<or> r \<in> set ys" for r
  proof -
    have "sr_lid cur \<notin> sr_lid ` set xs" "sr_lid cur \<notin> sr_lid ` set ys" using ok(2) unfolding s by simp_all
    with that lid(1) show ?thesis unfolding is_sq_row_def by (metis image_eqI)
  qed
  have rows: "map (\<lambda>r. if is_sq_row repo lid r then new else r) (sd_rows db) = xs @ new # ys"
    unfolding s using map_only_at [of xs "is_sq_row repo lid" ys cur "\<lambda>r. new"] other cur(2) by simp
  have k: "sr_vec_rowid cur = Some (vr_rowid w)" using l(2) by (simp add: linked_def)
  have rowids: "vr_rowid x \<noteq> vr_rowid w" if "x \<in> set us \<or> x \<in> set vs" for x
  proof -
    have "vr_rowid w \<notin> vr_rowid ` set us" "vr_rowid w \<notin> vr_rowid ` set vs"
      using ok(1) unfolding in_step_def s by simp_all
    with that show ?thesis by (metis image_eqI)
  qed
  have vecs: "set_vector (sr_vec_rowid cur) v (sd_vecs db) = us @ ?w # vs"
  proof (cases v)
    case None
    then show ?thesis by (simp add: set_vector_def k s supplied_def)
  next
    case (Some y)
    then show ?thesis unfolding s k set_vector_def
      using map_only_at [of us "\<lambda>x. vr_rowid x = vr_rowid w" vs w "\<lambda>x. x\<lparr>vr_vec := y\<rparr>"] rowids
      by (simp add: supplied_def)
  qed
  have len: "length xs = length us" using l(1) by (rule list_all2_lengthD)
  have e: "sq_entries db = map2 sq_entry xs us @ sq_entry cur w # map2 sq_entry ys vs"
    unfolding sq_entries_def s using len by simp
  have "list_all2 linked (xs @ new # ys) (us @ ?w # vs)"
    using l new by (auto intro!: list_all2_appendI simp: linked_def)
  moreover have "distinct (map vr_rowid (us @ ?w # vs))" using ok(1) unfolding in_step_def s by simp
  moreover have "\<not> (en_repo r = repo \<and> en_id r = lid)" if "r \<in> set (map2 sq_entry xs us) \<or> r \<in> set (map2 sq_entry ys vs)" for r
  proof -
    from that obtain a b where "r = sq_entry a b" "(a, b) \<in> set (zip xs us) \<or> (a, b) \<in> set (zip ys vs)" by auto
    with other [of a] show ?thesis by (auto simp: is_sq_row_def dest: set_zip_leftD)
  qed
  then have "map (\<lambda>r. if en_repo r = repo \<and> en_id r = lid then g r else r) (sq_entries db)
      = map2 sq_entry xs us @ g (sq_entry cur w) # map2 sq_entry ys vs"
    unfolding e using lid by (intro map_only_at) auto
  moreover have "sq_entry new ?w = g (sq_entry cur w)" by (rule entry [OF l(2)]) (simp add: e)
  ultimately show ?thesis unfolding rows vecs in_step_def sq_entries_def using len by simp
qed

lemma entries_ex:
  assumes "length (sd_rows db) = length (sd_vecs db)" "\<And>r w. F (sq_entry r w) = P r"
  shows "list_ex F (sq_entries db) = list_ex P (sd_rows db)"
proof -
  have "list_ex F (sq_entries db) = (True \<in> set (map F (sq_entries db)))" by (auto simp: list_ex_iff)
  also have "\<dots> = (True \<in> set (map P (sd_rows db)))" by (simp only: map_entries [of db F P, OF assms])
  also have "\<dots> = list_ex P (sd_rows db)" by (auto simp: list_ex_iff)
  finally show ?thesis .
qed

lemma found_in: "find P xs = Some x \<Longrightarrow> x \<in> set xs \<and> P x"
  by (induction xs) (auto split: if_splits)

lemma find_sq_entry:
  "length rows = length vecs \<Longrightarrow>
     (case find (is_sq_row repo lid) rows of
        None \<Rightarrow> find (\<lambda>r. en_repo r = repo \<and> en_id r = lid) (map2 sq_entry rows vecs) = None
      | Some cur \<Rightarrow> \<exists>w. (cur, w) \<in> set (zip rows vecs)
          \<and> find (\<lambda>r. en_repo r = repo \<and> en_id r = lid) (map2 sq_entry rows vecs) = Some (sq_entry cur w))"
  by (induction rows vecs rule: list_induct2) (auto simp: is_sq_row_def split: option.splits)

lemma sq_changed_entry:
  assumes "honest (kb_env.truncate env) e" "ch_globs ch \<noteq> Some None"
    and "new_vector (ke_settings env) (ke_ask env) ch (sr_text cur) = Inr v" "check_changes rd ch = Inr ex"
    and "vr_vec w = vec_of (kb_env.truncate env) e (sr_text cur)"
  shows "sq_entry (sq_changed_row ch ex cur) (w\<lparr>vr_vec := supplied v (vr_vec w)\<rparr>)
    = changed_entry (vec_of (kb_env.truncate env) e) ch (sq_entry cur w)"
proof -
  have one: "embed_one (ke_settings env) (ke_ask env) t = Inr (vec_of (kb_env.truncate env) e t)" for t
    using honest_embed_one [OF assms(1)] by simp
  have "v = (case ch_text ch of Some (Some x) \<Rightarrow>
      if x = sr_text cur then None else Some (vec_of (kb_env.truncate env) e x) | _ \<Rightarrow> None)"
    using assms(3) by (auto simp: new_vector_def one split: option.splits if_splits)
  then show ?thesis using assms(2,5) checked_fields [OF assms(4)]
    by (auto simp: sq_entry_def sq_changed_row_def changed_entry_def supplied_def Let_def split: option.splits)
qed

lemma sq_shows: "shows_entry (sq_shown r) (sq_entry r w)"
  by (simp add: shows_entry_def sq_shown_def)

lemma sq_update_meets:
  fixes db :: "'v sq_db"
  assumes "sq_ok env e db" "ch_globs ch \<noteq> Some None"
  shows "rel_sum (=) (rel_option shows_entry) (fst (sq_update env repo lid ch db))
      (fst (spec_update Some (ke_read env) (vec_of (kb_env.truncate env) e) repo lid ch (sq_entries db)))
    \<and> sq_entries (snd (sq_update env repo lid ch db))
      = snd (spec_update Some (ke_read env) (vec_of (kb_env.truncate env) e) repo lid ch (sq_entries db))
    \<and> sq_ok env e (snd (sq_update env repo lid ch db))"
proof -
  let ?emb = "vec_of (kb_env.truncate env) e"
  let ?db = "db\<lparr>sd_dim := Some (sq_dim env), sd_model := Some (ks_model (ke_settings env))\<rparr>"
  let ?s = "spec_update Some (ke_read env) ?emb repo lid ch (sq_entries db)"
  let ?P = "\<lambda>r. en_repo r = repo \<and> en_id r = lid"
  have h: "honest (kb_env.truncate env) e" and s: "in_step db" and m: "marked env db"
    and ok: "entries_ok ?emb (sq_entries db)"
    using assms(1) by (simp_all add: sq_ok_def)
  have s': "in_step ?db" using s by simp
  note len = in_step_length [OF s]
  have "rel_sum (=) (rel_option shows_entry) (fst (sq_update env repo lid ch db)) (fst ?s)
    \<and> sq_entries (snd (sq_update env repo lid ch db)) = snd ?s
    \<and> in_step (snd (sq_update env repo lid ch db)) \<and> marked env (snd (sq_update env repo lid ch db))"
  proof (cases "check_changes (ke_read env) ch")
    case (Inl a)
    then show ?thesis using s m by (simp add: sq_update_def spec_update_def)
  next
    case ex: (Inr ex)
    show ?thesis
    proof (cases "find (is_sq_row repo lid) (sd_rows db)")
      case None
      then have "find ?P (sq_entries db) = None"
        using find_sq_entry [OF len, of repo lid] by (simp add: sq_entries_def)
      with None ex s m show ?thesis
        by (simp add: sq_update_def spec_update_def open_marked [OF m] sq_get_row_def)
    next
      case cur: (Some cur)
      then obtain w where w: "(cur, w) \<in> set (zip (sd_rows db) (sd_vecs db))"
        and find: "find ?P (sq_entries db) = Some (sq_entry cur w)"
        using find_sq_entry [OF len, of repo lid] by (auto simp: sq_entries_def)
      have c: "cur \<in> set (sd_rows db)" "is_sq_row repo lid cur" using cur by (auto simp: find_Some_iff)
      have spec: "?s = (let new = changed_entry ?emb ch (sq_entry cur w) in
          if list_ex (\<lambda>r. en_id r \<noteq> lid \<and> en_key r = en_key new) (sq_entries db) then (Inl DuplicateLearning, sq_entries db)
          else (Inr (Some new), map (\<lambda>r. if ?P r then new else r) (sq_entries db)))"
        unfolding spec_update_def ex option.case sum.case find ..
      show ?thesis
      proof (cases "ch = no_changes")
        case True
        have "sq_entry cur w \<in> set (sq_entries db)" using w by (force simp: sq_entries_def)
        then have n: "changed_entry ?emb no_changes (sq_entry cur w) = sq_entry cur w"
          using changed_nothing [OF ok] by simp
        have "?s = (Inr (Some (sq_entry cur w)), sq_entries db)"
          unfolding spec unfolding True Let_def using unchanged_update [OF ok find] by (simp only: if_False n)
        moreover have "sq_update env repo lid ch db = (Inr (Some (sq_shown cur)), db)"
          using ex cur True by (simp add: sq_update_def open_marked [OF m] sq_get_row_def)
        ultimately show ?thesis using s m by (simp add: sq_shows)
      next
        case False
        obtain v where v: "new_vector (ke_settings env) (ke_ask env) ch (sr_text cur) = Inr v"
          using new_vector_answers [OF h, of ch "sr_text cur"] by auto
        let ?new = "sq_changed_row ch ex cur"
        let ?db' = "?db\<lparr>sd_rows := map (\<lambda>r. if is_sq_row repo lid r then ?new else r) (sd_rows ?db),
            sd_vecs := set_vector (sr_vec_rowid cur) v (sd_vecs ?db)\<rparr>"
        have entry: "sq_entry ?new (u\<lparr>vr_vec := supplied v (vr_vec u)\<rparr>) = changed_entry ?emb ch (sq_entry cur u)"
          if "sq_entry cur u \<in> set (sq_entries db)" for u
        proof (rule sq_changed_entry [OF h assms(2) v ex])
          show "vr_vec u = ?emb (sr_text cur)" using ok that unfolding entries_ok_def by force
        qed
        have d: "distinct (map sr_lid (sd_rows ?db))"
          using ok entry_ids [OF s] by (simp add: entries_ok_def)
        have r: "in_step ?db' \<and> sq_entries ?db'
            = map (\<lambda>r. if ?P r then changed_entry ?emb ch r else r) (sq_entries ?db)"
          by (rule replace_in_step [OF s' d]) (use c entry in \<open>simp_all add: sq_changed_row_def\<close>)
        have only: "r = sq_entry cur w" if "r \<in> set (sq_entries db)" "?P r" for r
        proof -
          have "sq_entry cur w \<in> set (sq_entries db)" "en_id (sq_entry cur w) = lid"
            using found_in [OF find] by blast+
          with that ok distinct_map_inj [of en_id "sq_entries db" r "sq_entry cur w"] show ?thesis
            by (simp add: entries_ok_def)
        qed
        have e: "sq_entries ?db' = map (\<lambda>r. if ?P r then changed_entry ?emb ch (sq_entry cur w) else r) (sq_entries db)"
          unfolding conjunct2 [OF r] open_entries(1) by (rule map_cong [OF refl]) (use only in auto)
        have k: "en_key (changed_entry ?emb ch (sq_entry cur w)) = sq_key ?new"
          using assms(2) by (auto simp: en_key_def sq_key_def changed_entry_def sq_changed_row_def Let_def)
        have dup: "list_ex (\<lambda>r. en_id r \<noteq> lid \<and> en_key r = en_key (changed_entry ?emb ch (sq_entry cur w))) (sq_entries db)
            = list_ex (\<lambda>r. sr_lid r \<noteq> lid \<and> sq_key r = sq_key ?new) (sd_rows db)"
          unfolding k by (rule entries_ex [OF len]) simp
        have up: "sq_update env repo lid ch db =
            (if list_ex (\<lambda>r. sr_lid r \<noteq> lid \<and> sq_key r = sq_key ?new) (sd_rows db) then (Inl DuplicateLearning, db)
             else (Inr (Some (sq_shown ?new)), ?db'))"
          using ex cur False v by (simp add: sq_update_def open_marked [OF m] Let_def)
        have sh: "shows_entry (sq_shown ?new) (changed_entry ?emb ch (sq_entry cur w))"
          using assms(2) by (auto simp: shows_entry_def sq_shown_def sq_changed_row_def changed_entry_def Let_def
              supplied_def split: option.splits)
        have "marked env ?db'" by (simp add: marked_def needs_migration_def)
        then show ?thesis unfolding spec Let_def dup up using s m r e sh by simp
      qed
    qed
  qed
  moreover have "entries_ok ?emb (snd ?s)" by (rule spec_update_ok [OF ok])
  ultimately show ?thesis using h assms(1) by (simp add: sq_ok_def)
qed

interpretation sq: knowledge_store
  "\<lambda>repo items c db. sq_ingest env repo items c db db" "sq_forget env" "sq_update env" sq_entries
  "sq_ok env e" "ke_uuid env" "vec_of (kb_env.truncate env) e" Some "ke_read env"
  for env :: "('v, 'b) sq_env_scheme" and e
proof unfold_locales
  show "entries_ok (vec_of (kb_env.truncate env) e) (sq_entries db)" if "sq_ok env e db" for db
    using that by (simp add: sq_ok_def)
qed (use sq_ingest_meets sq_forget_meets sq_update_meets in blast)+

section \<open>Both stores agree\<close>

datatype kb_op =
    Ingest string "ingest_item list" "int option"
  | Forget string "string option" "string option" bool
  | Update string string kb_changes

datatype kb_answer =
    Stored nat nat
  | Removed nat
  | Edited "stored_learning option"
  | Raised kb_error

definition answer_of :: "('a \<Rightarrow> kb_answer) \<Rightarrow> kb_error + 'a \<Rightarrow> kb_answer" where
  "answer_of f x = (case x of Inl e \<Rightarrow> Raised e | Inr y \<Rightarrow> f y)"

fun pg_op :: "'v kb_env \<Rightarrow> kb_op \<Rightarrow> 'v learnings \<Rightarrow> kb_answer \<times> 'v learnings" where
  "pg_op env (Ingest repo items c) t = map_prod (answer_of (\<lambda>(n, m). Stored n m)) id (pg_ingest env repo items c t t)"
| "pg_op env (Forget repo uid source everything) t = map_prod Removed id (pg_forget env repo uid source everything t)"
| "pg_op env (Update repo uid ch) t = map_prod (answer_of Edited) id (pg_update env repo uid ch t)"

fun sq_op :: "('v, 'b) sq_env_scheme \<Rightarrow> kb_op \<Rightarrow> 'v sq_db \<Rightarrow> kb_answer \<times> 'v sq_db" where
  "sq_op env (Ingest repo items c) db = map_prod (answer_of (\<lambda>(n, m). Stored n m)) id (sq_ingest env repo items c db db)"
| "sq_op env (Forget repo uid source everything) db = map_prod (answer_of Removed) id (sq_forget env repo uid source everything db)"
| "sq_op env (Update repo uid ch) db = map_prod (answer_of Edited) id (sq_update env repo uid ch db)"

fun run_ops :: "('o \<Rightarrow> 's \<Rightarrow> 'a \<times> 's) \<Rightarrow> 'o list \<Rightarrow> 's \<Rightarrow> 'a list \<times> 's" where
  "run_ops step [] s = ([], s)"
| "run_ops step (x # xs) s = (case step x s of (a, s') \<Rightarrow> case run_ops step xs s' of (as, s'') \<Rightarrow> (a # as, s''))"

text \<open>An operation with known sources, which clears no globs with a null.\<close>

fun plain_op :: "kb_op \<Rightarrow> bool" where
  "plain_op (Ingest repo items c) = list_all (\<lambda>i. it_source i \<in> set SOURCES) items"
| "plain_op (Forget repo uid source everything) = True"
| "plain_op (Update repo uid ch) = (ch_globs ch \<noteq> Some None)"

text \<open>Two answers about the same learning may differ in the timestamps they show.\<close>

definition undated :: "stored_learning \<Rightarrow> stored_learning" where
  "undated s = s\<lparr>sl_created := None, sl_expires := None\<rparr>"

fun plain_answer :: "kb_answer \<Rightarrow> kb_answer" where
  "plain_answer (Edited x) = Edited (map_option undated x)"
| "plain_answer (Stored n m) = Stored n m"
| "plain_answer (Removed n) = Removed n"
| "plain_answer (Raised e) = Raised e"

lemma shown_alike: "shows_entry s r \<Longrightarrow> shows_entry s' r \<Longrightarrow> undated s = undated s'"
  by (cases s; cases s') (simp add: shows_entry_def undated_def)

lemma edits_alike:
  assumes "rel_sum (=) (rel_option shows_entry) x z" "rel_sum (=) (rel_option shows_entry) y z"
  shows "plain_answer (answer_of Edited x) = plain_answer (answer_of Edited y)"
proof (cases z)
  case (Inl e)
  with assms have "x = Inl e" "y = Inl e" by (cases x; cases y; simp)+
  then show ?thesis by simp
next
  case (Inr r)
  with assms obtain a b where ab: "x = Inr a" "y = Inr b" "rel_option shows_entry a r" "rel_option shows_entry b r"
    by (cases x; cases y) auto
  then have "map_option undated a = map_option undated b"
    by (cases r; cases a; cases b) (auto dest: shown_alike)
  with ab show ?thesis by (simp add: answer_of_def)
qed

lemma step_agrees:
  fixes env :: "('v, 'b) sq_env_scheme" and t :: "'v learnings" and db :: "'v sq_db"
  assumes "pg_ok (kb_env.truncate env) e t" "sq_ok env e db" "ke_id env = Some"
    and same: "map entry_of t = sq_entries db" and "plain_op x"
  shows "plain_answer (fst (pg_op (kb_env.truncate env) x t)) = plain_answer (fst (sq_op env x db))
    \<and> pg_ok (kb_env.truncate env) e (snd (pg_op (kb_env.truncate env) x t))
    \<and> sq_ok env e (snd (sq_op env x db))
    \<and> map entry_of (snd (pg_op (kb_env.truncate env) x t)) = sq_entries (snd (sq_op env x db))"
proof -
  let ?env = "kb_env.truncate env"
  have id: "ke_id ?env = Some" using assms(3) by (simp add: kb_env.truncate_def)
  show ?thesis
  proof (cases x)
    case (Ingest repo items c)
    with assms(5) have src: "\<forall>i \<in> set items. it_source i \<in> set SOURCES" by (simp add: list_all_iff)
    from pg_ingest_meets [OF assms(1) src, of repo c] sq_ingest_meets [OF assms(2) src, of repo c]
    show ?thesis unfolding same Ingest by simp
  next
    case (Forget repo uid source everything)
    from pg_forget_meets [OF assms(1), of repo uid source everything]
      sq_forget_meets [OF assms(2), of repo uid source everything]
    show ?thesis unfolding same Forget id by (simp add: answer_of_def)
  next
    case (Update repo uid ch)
    with assms(5) have g: "ch_globs ch \<noteq> Some None" by simp
    note p = pg_update_meets [OF assms(1) g, of repo uid, unfolded same id truncate_fields]
      and s = sq_update_meets [OF assms(2) g, of repo uid]
    from edits_alike [OF conjunct1 [OF p] conjunct1 [OF s]] p s
    show ?thesis unfolding Update by simp
  qed
qed


definition sample_sq_env :: "string sq_env" where
  "sample_sq_env = kb_env.extend sample_env
     \<lparr>sq_dim = 3, sq_now = london, sq_rowid = (\<lambda>ks. Suc (sum_list ks))\<rparr>"

lemma sample_sq_ok: "sq_ok sample_sq_env (\<lambda>t. t) empty_db"
proof -
  have "kb_env.truncate sample_sq_env = sample_env"
    by (simp add: sample_sq_env_def kb_env.truncate_def kb_env.extend_def)
  moreover have "Suc (sum_list ks) \<notin> set ks" for ks :: "nat list"
    using member_le_sum_list [of "Suc (sum_list ks)" ks] by auto
  ultimately show ?thesis
    using sample_honest
    by (simp add: sq_ok_def sample_sq_env_def kb_env.extend_def in_step_def sq_entries_def entries_ok_def empty_db_def
        marked_def needs_migration_def)
qed

definition sample_ops :: "kb_op list" where
  "sample_ops = [Ingest ''r'' sample_items (Some 2), Update ''r'' ''i'' (no_changes\<lparr>ch_text := Some (Some ''new'')\<rparr>),
     Forget ''r'' None None True]"


section \<open>A change of the embedding model\<close>

definition plain_row :: "sq_row \<Rightarrow> sq_row" where
  "plain_row r = r\<lparr>sr_vec_rowid := None\<rparr>"

lemma plain_lids: "map plain_row rows = map plain_row rows' \<Longrightarrow> map sr_lid rows = map sr_lid rows'"
proof -
  assume "map plain_row rows = map plain_row rows'"
  then have "map sr_lid (map plain_row rows) = map sr_lid (map plain_row rows')" by simp
  then show ?thesis by (simp add: plain_row_def comp_def)
qed

lemma migrate_rows:
  assumes "\<And>ks. sq_rowid env ks \<notin> set ks"
  shows "length todo = length vs \<Longrightarrow> sd_rows db = old @ todo \<Longrightarrow> list_all2 linked old (sd_vecs db)
    \<Longrightarrow> distinct (map vr_rowid (sd_vecs db)) \<Longrightarrow> distinct (map sr_lid (old @ todo))
    \<Longrightarrow> (let db' = fold (\<lambda>(r, v). store_vector env (sr_repo r) (sr_lid r) v) (zip todo vs) db in
          in_step db' \<and> map plain_row (sd_rows db') = map plain_row (old @ todo)
          \<and> sd_dim db' = sd_dim db \<and> sd_model db' = sd_model db
          \<and> sq_entries db' = map2 sq_entry old (sd_vecs db)
              @ map2 (\<lambda>r v. sq_entry r \<lparr>vr_rowid = 0, vr_repo = '''', vr_lid = '''', vr_vec = v\<rparr>) todo vs)"
proof (induction todo vs arbitrary: db old rule: list_induct2)
  case Nil
  then show ?case by (simp add: in_step_def sq_entries_def)
next
  case (Cons r todo v vs)
  let ?k = "sq_rowid env (map vr_rowid (sd_vecs db))"
  let ?r = "r\<lparr>sr_vec_rowid := Some ?k\<rparr>"
  let ?w = "\<lparr>vr_rowid = ?k, vr_repo = sr_repo r, vr_lid = sr_lid r, vr_vec = v\<rparr>"
  let ?db = "store_vector env (sr_repo r) (sr_lid r) v db"
  have lid: "sr_lid r \<notin> sr_lid ` set old" "sr_lid r \<notin> sr_lid ` set todo" using Cons.prems(4) by auto
  have rows: "sd_rows ?db = (old @ [?r]) @ todo"
    using set_vec_rowid_other [OF lid(1), of ?k] set_vec_rowid_other [OF lid(2), of ?k]
    by (simp add: store_vector_def Let_def Cons.prems(1) set_vec_rowid_def)
  have vecs: "sd_vecs ?db = sd_vecs db @ [?w]" by (simp add: store_vector_def Let_def)
  have "list_all2 linked (old @ [?r]) (sd_vecs ?db)"
    unfolding vecs by (rule list_all2_appendI [OF Cons.prems(2)]) (simp add: linked_def)
  moreover have "?k \<notin> vr_rowid ` set (sd_vecs db)" using assms by (metis set_map)
  then have "distinct (map vr_rowid (sd_vecs ?db))" unfolding vecs using Cons.prems(3) by simp
  moreover have "distinct (map sr_lid ((old @ [?r]) @ todo))" using Cons.prems(4) by simp
  ultimately have "let db' = fold (\<lambda>(r, v). store_vector env (sr_repo r) (sr_lid r) v) (zip todo vs) ?db in
      in_step db' \<and> map plain_row (sd_rows db') = map plain_row ((old @ [?r]) @ todo)
      \<and> sd_dim db' = sd_dim ?db \<and> sd_model db' = sd_model ?db
      \<and> sq_entries db' = map2 sq_entry (old @ [?r]) (sd_vecs ?db)
          @ map2 (\<lambda>r v. sq_entry r \<lparr>vr_rowid = 0, vr_repo = '''', vr_lid = '''', vr_vec = v\<rparr>) todo vs"
    by (rule Cons.IH [OF rows])
  moreover have "plain_row ?r = plain_row r" by (simp add: plain_row_def)
  moreover have "map2 sq_entry (old @ [?r]) (sd_vecs ?db) = map2 sq_entry old (sd_vecs db)
      @ [sq_entry r \<lparr>vr_rowid = 0, vr_repo = '''', vr_lid = '''', vr_vec = v\<rparr>]"
    unfolding vecs using list_all2_lengthD [OF Cons.prems(2)] by (simp add: sq_entry_def)
  moreover have "sd_dim ?db = sd_dim db" "sd_model ?db = sd_model db" by (simp_all add: store_vector_def Let_def)
  ultimately show ?case by (simp add: Let_def)
qed


text \<open>A file of the model before, with a vector that belongs to nothing.\<close>

definition sample_old_db :: "string sq_db" where
  "sample_old_db =
     \<lparr>sd_rows = [\<lparr>sr_lid = ''a'', sr_vec_rowid = None, sr_repo = ''r'', sr_text = ''t'', sr_source = ''docs'',
        sr_url = None, sr_globs = [], sr_topic = None, sr_origin = None, sr_expires = None\<rparr>],
      sd_vecs = [\<lparr>vr_rowid = 7, vr_repo = ''r'', vr_lid = ''gone'', vr_vec = ''old''\<rparr>],
      sd_dim = Some 3, sd_model = Some ''bge-m3''\<rparr>"


section \<open>Expiry\<close>

text \<open>The stored text is compared as a text. For a timestamp given in UTC, or with no offset, that is the
  comparison of the instants.\<close>

lemma expiry_in_utc:
  assumes "parse_dt (ke_read env) x = Some m" "valid_moment m" "in_utc m"
    and "valid_moment (sq_now env)" "mo_offset (sq_now env) = Some 0"
    and "sr_expires r = norm_expires (ke_read env) x"
  shows "sq_live env r \<longleftrightarrow> instant (sq_now env) < instant m"
  using isoformat_orders [OF assms(4,2,5,3)] assms(1,6) by (simp add: sq_live_def norm_expires_def)

text \<open>With another offset it is not: a learning that expired at 19:30 UTC is still served at 20:00.\<close>

lemma expired_is_served:
  assumes "parse_dt (ke_read env) x = Some karachi" "sq_now env = london"
    and "sr_expires r = norm_expires (ke_read env) x"
  shows "instant karachi < instant (sq_now env) \<and> sq_live env r"
  using isoformat_misorders assms by (simp add: sq_live_def norm_expires_def)

section \<open>What a search considers\<close>

lemma insort_map: "map f (insort_key (\<lambda>x. g (f x)) x xs) = insort_key g (f x) (map f xs)"
  by (induction xs) simp_all

lemma sort_map: "map f (sort_key (\<lambda>x. g (f x)) xs) = sort_key g (map f xs)"
proof (induction xs)
  case (Cons x xs)
  have "map f (sort_key (\<lambda>x. g (f x)) (x # xs)) = map f (insort_key (\<lambda>x. g (f x)) x (sort_key (\<lambda>x. g (f x)) xs))"
    by simp
  then show ?case using Cons by (simp only: insort_map) simp
qed simp

lemma fold_dict_new:
  "distinct (map fst ps) \<Longrightarrow> fst ` set acc \<inter> fst ` set ps = {} \<Longrightarrow> fold (\<lambda>(l, x). dict_set l x) ps acc = acc @ ps"
proof (induction ps arbitrary: acc)
  case (Cons p ps)
  obtain l x where p: "p = (l, x)" by (cases p)
  have "dict_set l x d = d @ [(l, x)]" if "l \<notin> fst ` set d" for d
    using that by (induction l x d rule: dict_set.induct) auto
  with Cons.prems p have "dict_set l x acc = acc @ [(l, x)]" by auto
  with Cons p show ?case by auto
qed simp

lemma mset_filter_disjoint:
  "(\<And>x. x \<in> set xs \<Longrightarrow> \<not> (A x \<and> B x)) \<Longrightarrow>
     mset (filter A xs) + mset (filter B xs) = mset (filter (\<lambda>x. A x \<or> B x) xs)"
  by (induction xs) auto

lemma rows_by_lid_mset:
  assumes "distinct lids"
  shows "mset (rows_by_lid P lids rows) = mset (filter (\<lambda>r. sr_lid r \<in> set lids \<and> P r) rows)"
proof -
  have step: "mset (concat (map (\<lambda>b. filter (\<lambda>r. sr_lid r \<in> set b \<and> P r) rows) bs))
      = mset (filter (\<lambda>r. sr_lid r \<in> set (concat bs) \<and> P r) rows)" if "distinct (concat bs)" for bs
    using that
  proof (induction bs)
    case (Cons b bs)
    then have "set b \<inter> set (concat bs) = {}" "distinct (concat bs)" by simp_all
    with Cons.IH mset_filter_disjoint [of rows "\<lambda>r. sr_lid r \<in> set b \<and> P r" "\<lambda>r. sr_lid r \<in> set (concat bs) \<and> P r"]
    show ?case by (auto simp: conj_disj_distribR [symmetric])
  qed simp
  have c: "concat (batches VAR_BATCH lids) = lids" by (rule concat_batches) (simp add: VAR_BATCH_def)
  have "distinct (concat (batches VAR_BATCH lids))" unfolding c by (rule assms)
  from step [OF this] show ?thesis unfolding rows_by_lid_def c .
qed

text \<open>Enough of a list before a filter is enough of it after.\<close>

lemma filter_take:
  "\<exists>n \<ge> c. filter P (take (c + length (filter (\<lambda>x. \<not> P x) xs)) xs) = take n (filter P xs)"
proof -
  let ?K = "c + length (filter (\<lambda>x. \<not> P x) xs)"
  let ?a = "take ?K xs" and ?b = "drop ?K xs"
  have f: "filter P xs = filter P ?a @ filter P ?b" by (metis append_take_drop_id filter_append)
  show ?thesis
  proof (cases "?K \<le> length xs")
    case True
    have "length (filter (\<lambda>x. \<not> P x) ?a) \<le> length (filter (\<lambda>x. \<not> P x) xs)"
      by (metis append_take_drop_id filter_append le_add1 length_append)
    moreover have "length (filter P ?a) + length (filter (\<lambda>x. \<not> P x) ?a) = length ?a"
      by (rule sum_length_filter_compl)
    ultimately have "c \<le> length (filter P ?a)" using True by simp
    then show ?thesis using f by (intro exI [of _ "length (filter P ?a)"]) simp
  next
    case False
    then show ?thesis by (intro exI [of _ "max c (length xs)"]) (simp add: length_filter_le le_max_iff_disj)
  qed
qed

definition near_rows ::
  "('v \<Rightarrow> 'v \<Rightarrow> 'd::linorder) \<Rightarrow> 'v \<Rightarrow> (sq_row \<Rightarrow> bool) \<Rightarrow> 'v sq_db \<Rightarrow> (sq_row \<times> 'v vec_row) list" where
  "near_rows near v P db =
     sort_key (\<lambda>z. near (vr_vec (snd z)) v) (filter (\<lambda>z. P (fst z)) (zip (sd_rows db) (sd_vecs db)))"

lemma near_rows_filter:
  "filter (\<lambda>z. P (fst z)) (near_rows near v Q db) = near_rows near v (\<lambda>r. Q r \<and> P r) db"
  unfolding near_rows_def filter_sort filter_filter ..

lemma knn_rows:
  assumes "in_step db"
  shows "knn near repo v k (sd_vecs db)
    = map (\<lambda>z. (sr_lid (fst z), near (vr_vec (snd z)) v)) (take k (near_rows near v (\<lambda>r. sr_repo r = repo) db))"
proof -
  have l: "list_all2 linked (sd_rows db) (sd_vecs db)" using assms by (simp add: in_step_def)
  have fz: "filter (\<lambda>w. vr_repo w = repo) vecs = map snd (filter (\<lambda>z. sr_repo (fst z) = repo) (zip rows vecs))"
    if "list_all2 linked rows vecs" for rows and vecs :: "'a vec_row list"
    using that by (induction rows vecs rule: list_all2_induct) (auto simp: linked_def)
  have "sort_key (\<lambda>w. near (vr_vec w) v) (filter (\<lambda>w. vr_repo w = repo) (sd_vecs db))
      = map snd (near_rows near v (\<lambda>r. sr_repo r = repo) db)"
    unfolding near_rows_def fz [OF l] by (rule sort_map [symmetric])
  moreover have "vr_lid (snd z) = sr_lid (fst z)" if "z \<in> set (take k (near_rows near v (\<lambda>r. sr_repo r = repo) db))" for z
  proof -
    have "z \<in> set (zip (sd_rows db) (sd_vecs db))" using in_set_takeD [OF that] by (simp add: near_rows_def)
    with l show ?thesis by (cases z) (auto simp: list_all2_iff linked_def)
  qed
  ultimately show ?thesis by (simp add: knn_def take_map cong: map_cong)
qed

text \<open>The rows of a window, looked up by their ids.\<close>

lemma window_rows:
  assumes "distinct (map sr_lid (sd_rows db))" "length (sd_rows db) = length (sd_vecs db)"
    and "set zs \<subseteq> set (zip (sd_rows db) (sd_vecs db))" "distinct zs"
  shows "mset (filter (\<lambda>r. sr_lid r \<in> set (map (\<lambda>z. sr_lid (fst z)) zs) \<and> Q r) (sd_rows db))
    = image_mset fst (mset (filter (\<lambda>z. Q (fst z)) zs))"
proof -
  have row: "fst z \<in> set (sd_rows db)" if "z \<in> set zs" for z
    using assms(3) that by (cases z) (auto dest: set_zip_leftD)
  have same: "r = fst z" if "r \<in> set (sd_rows db)" "z \<in> set zs" "sr_lid r = sr_lid (fst z)" for r z
    using distinct_map_inj [OF assms(1) that(1) row [OF that(2)] that(3)] .
  have "distinct (sd_rows db)" using assms(1) by (simp add: distinct_map)
  then have inj: "inj_on fst (set (zip (sd_rows db) (sd_vecs db)))"
    by (auto simp: inj_on_def set_zip nth_eq_iff_index_eq)
  have "distinct (map fst zs)" using assms(4) inj_on_subset [OF inj assms(3)] by (simp add: distinct_map)
  then have d: "distinct (map fst (filter (\<lambda>z. Q (fst z)) zs))" by (rule distinct_map_filter)
  have "set (filter (\<lambda>r. sr_lid r \<in> set (map (\<lambda>z. sr_lid (fst z)) zs) \<and> Q r) (sd_rows db))
      = set (map fst (filter (\<lambda>z. Q (fst z)) zs))"
  proof (intro equalityI subsetI)
    fix r
    assume "r \<in> set (filter (\<lambda>r. sr_lid r \<in> set (map (\<lambda>z. sr_lid (fst z)) zs) \<and> Q r) (sd_rows db))"
    then obtain z where "z \<in> set zs" "r \<in> set (sd_rows db)" "sr_lid r = sr_lid (fst z)" "Q r" by auto
    moreover from same [OF this(2,1,3)] this(4) have "Q (fst z)" "r = fst z" by simp_all
    ultimately show "r \<in> set (map fst (filter (\<lambda>z. Q (fst z)) zs))" by simp
  next
    fix r
    assume "r \<in> set (map fst (filter (\<lambda>z. Q (fst z)) zs))"
    then obtain z where "z \<in> set zs" "r = fst z" "Q r" by auto
    with row show "r \<in> set (filter (\<lambda>r. sr_lid r \<in> set (map (\<lambda>z. sr_lid (fst z)) zs) \<and> Q r) (sd_rows db))"
      by auto
  qed
  then have "mset (filter (\<lambda>r. sr_lid r \<in> set (map (\<lambda>z. sr_lid (fst z)) zs) \<and> Q r) (sd_rows db))
      = mset (map fst (filter (\<lambda>z. Q (fst z)) zs))"
    using \<open>distinct (sd_rows db)\<close> d by (simp only: set_eq_iff_mset_eq_distinct distinct_filter)
  then show ?thesis by simp
qed


text \<open>A window of one, a digest at distance nothing, two learnings: the nearer one is found.\<close>

definition narrow_env :: "string sq_env" where
  "narrow_env = sample_sq_env\<lparr>ke_settings := (ke_settings sample_sq_env)\<lparr>ks_candidate_k := 1\<rparr>\<rparr>"

definition narrow_db :: "string sq_db" where
  "narrow_db = snd (sq_ingest narrow_env ''r'' [sample_item ''why'' ''digest'' [], sample_item ''what'' ''docs'' [],
     sample_item ''whatever'' ''docs'' []] None empty_db empty_db)"

lemma narrow_ok: "sq_ok narrow_env (\<lambda>t. t) narrow_db"
proof -
  have "kb_env.truncate narrow_env = (kb_env.truncate sample_sq_env)\<lparr>ke_settings := (ke_settings sample_sq_env)\<lparr>ks_candidate_k := 1\<rparr>\<rparr>"
    by (simp add: narrow_env_def kb_env.truncate_def)
  then have "sq_ok narrow_env (\<lambda>t. t) empty_db"
    using sample_sq_ok
    by (simp add: sq_ok_def honest_def narrow_env_def in_step_def sq_entries_def entries_ok_def empty_db_def
        marked_def needs_migration_def)
  then show ?thesis unfolding narrow_db_def
    by (intro conjunct2 [OF conjunct2 [OF sq_ingest_meets]]) (simp_all add: sample_item_def SOURCES_def)
qed


end
