(* ===== verification/Spec2Isabelle.thy ===== *)
theory Spec2Isabelle
  imports Fuko_Prelude Prior_State Review_State Review_Lifecycle Ledger Ledger_Store Pool
    Runner_Plan Runner Regex Signals Status Coverage Normalizers Transport Ledger_Refinement
    Diff Publish Latch Review_Output Harness Outcome Sandbox Denylist
    Transcript Object_Store Embedding Moment Patterns Knowledge Sqlite_Store
begin

text \<open>
  A verification development for the fuko-pr sidecar, a vendor-neutral layer over pull-request
  review bots. It models the review path of \<open>src/sidecar/\<close>: which reviewers run, how a run fails
  over, what it posts, and what it remembers from one round to the next.

  \<^bold>\<open>The program.\<close> \<open>fuko review\<close> loads \<open>.fuko.toml\<close> (\<open>fukoconfig.py\<close>), resolves the reviewer
  pool and its roles (\<open>pool.py\<close>, \<open>presets.py\<close>) and hands the round to \<open>runner.py\<close>. The runner
  may promote backups when the active reviewers are cooling down, gives every branch a lane of
  the review ledger and an identity, posts a receipt comment per branch, and runs the branch's
  pool: reviewers are tried in the failover order of \<open>order_pool\<close> until one is not throttled. A
  reviewer with a ledger reads what its predecessors left (\<open>reviewer/ledger.py\<close>, \<open>carry_in\<close>),
  renders it into the prompt (\<open>reviewer/prompt.py\<close>, \<open>render_prior_state\<close>), runs the model, and
  writes back what the round decided (\<open>settle\<close>), through the operations of \<open>review_state.py\<close> on
  the two tables of \<open>migrations/009\<close> and \<open>010\<close>.

  \<^bold>\<open>The theories\<close>, in the order they build on each other:

  \<^item> \<open>Fuko_Prelude\<close>: Python's \<open>str\<close>, \<open>list\<close> and \<open>dict\<close> as the code uses them.

  \<^item> \<open>Prior_State\<close>: \<open>reviewer/prompt.py\<close>, the state half. Data of a round (\<open>AgenticFinding\<close>,
    \<open>PriorFinding\<close>, \<open>PriorCoverage\<close>, \<open>PriorState\<close>), the renderer with its ids \<open>p1 .. pN\<close>, the
    verdict gate \<open>accepted_status\<close>. Its lemmas show that stored model text cannot forge a row of
    the rendered section, and what the gate admits.

  \<^item> \<open>Review_State\<close>: \<open>review_state.py\<close>. A table is a list of rows, an SQL statement a function on
    it, \<open>_best_effort\<close> a wrapper that turns an unanswered access into the neutral value. One
    effect lemma per operation. \<open>Review_Lifecycle\<close> makes the operations the steps of an inductive
    relation \<open>store_step\<close> and proves by rule induction what every sequence of them keeps.

  \<^item> \<open>Ledger\<close>: \<open>reviewer/ledger.py\<close>, over any transport (\<open>ledger_ops\<close>). \<open>Ledger_Store\<close> states
    what the policy relies on as the locale \<open>ledger_store\<close>, proves the policy's lemmas inside it,
    interprets it on the transport that calls \<open>review_state.py\<close> directly, and reads the
    properties of a round from that interpretation.

  \<^item> \<open>Transport\<close>: \<open>review_state_client.py\<close> and the \<open>/rs/\<close> handlers of \<open>main.py\<close>, over a network
    that may lose, refuse or garble any request: the second interpretation of \<open>ledger_store\<close>.
    \<open>Ledger_Refinement\<close> states when two transports agree as the locale \<open>ledger_sim\<close>, shows that a
    round over a transport that answers is the round on the store, and counts what a dead one costs.

  \<^item> \<open>Pool\<close>: \<open>fukoconfig.py\<close>, \<open>presets.py\<close>, \<open>pool.py\<close>, \<open>sizing.py\<close>.

  \<^item> \<open>Runner_Plan\<close>: the pure planning half of \<open>runner.py\<close> (seats, cost, escalation, identities,
    the pool of a branch). \<open>Runner\<close>: the effectful half (\<open>_run_pool\<close>, a branch with its receipt,
    the comparison, \<open>review\<close>) as explicit state passing over a world of any type, with a trace of
    the events the runner causes. Drivers and the GitHub API are parameters.

  \<^item> \<open>Regex\<close>: the subset of Python's \<open>re\<close> the code uses, as a backtracking matcher that computes,
    with a declarative relation \<open>derives\<close> it is proved equal to.

  \<^item> \<open>Signals\<close>: \<open>signals.py\<close>, the findings and receipts hidden in comments and the text that
    carries them. \<open>Normalizers\<close>: \<open>normalizers.py\<close>, findings read out of other reviewers' comments.

  \<^item> \<open>Status\<close>: \<open>status.py\<close>, what each reviewer has done on HEAD, read from what it left on the pull
    request. \<open>Coverage\<close> composes it with the runner: a branch's settled receipt, read back.

  \<^item> \<open>Diff\<close>: the diff parser of \<open>reviewer/checkout.py\<close>, against the text of an abstract diff.
    \<open>Review_Output\<close>: \<open>parse_review\<close> of \<open>reviewer/prompt.py\<close>, from a model's final text to a review, with
    the object scan, the salvage and the messages. \<open>Publish\<close>: the egress of \<open>backends/agentic.py\<close>,
    from the stashed review to the posted one, over a network that may lose an answer after the server
    acted on the request.

  \<^item> \<open>Sandbox\<close>: \<open>build_env\<close> and the part of \<open>invoke\<close> of \<open>backends/agentic.py\<close> before the run: which
    variables the agent's process gets, and which values its transcript is scrubbed of. \<open>Denylist\<close>:
    the settings payload of \<open>reviewer/harness.py\<close>, which paths the agent may not read. \<open>Harness\<close>: the
    fold of the agent's event feed, the end of the process and the classifiers of its failures
    (\<open>throttle.py\<close>). \<open>Outcome\<close>: \<open>invoke\<close> after the run, from the harness's result to the ledger, the
    stash, the receipt's detail and the log.

  \<^item> \<open>Transcript\<close>: \<open>reviewer/transcript.py\<close>, the capture of a run's feed: the scrubber, the meter, the file and
    the upload with every write free to fail, the index row, and the directories it may use.
    \<open>Object_Store\<close>: \<open>objectstore.py\<close> and the read and write cycles of \<open>sqlite_store.py\<close>. Its two
    interfaces are the locales \<open>versioned_object\<close> (optimistic concurrency) and \<open>write_once\<close>, each
    interpreted on the local-file store.

  \<^item> \<open>Latch\<close>: the best-effort latch of \<open>db.py\<close> as a step relation over calls in flight, and its
    invariant by rule induction.

  \<^item> \<open>Embedding\<close>: \<open>embed.py\<close> and the assembly of a query in \<open>retrieve.py\<close>. \<open>Moment\<close> and \<open>Patterns\<close>: the
    timestamps, \<open>LIKE\<close> and \<open>fnmatch\<close> as the knowledge base uses them. \<open>Knowledge\<close>: the Postgres store
    (\<open>dedup.py\<close>, \<open>ingest.py\<close>, \<open>retrieve.py\<close>) with the locale \<open>knowledge_store\<close>, the contract of
    \<open>backends/base.py\<close> over abstract entries; \<open>Sqlite_Store\<close>: \<open>sqlite_store.py\<close>, its second interpretation,
    from which the two stores agree.

  \<^bold>\<open>State and operations.\<close> The database is \<open>store\<close>: two tables, the number of the current
  access, and what the server decides (\<open>st_answers\<close>, \<open>st_clock\<close>, \<open>st_uuid\<close>). Every operation is
  \<open>store \<Rightarrow> result \<times> store\<close>. The runner's state is \<open>run_state\<close>: the world and the trace. An
  exception is \<open>Inl\<close> of its text, a normal return \<open>Inr\<close>.

  \<^bold>\<open>Termination and bounds.\<close> No definition takes fuel. The one loop that is not structural, the
  search for a free seat suffix in \<open>_branch_seats\<close>, is \<open>free_seat\<close>, whose measure is the number of
  used names not yet passed. The numeric bounds of the code (\<open>MAX_TEXT\<close>, \<open>MAX_OPEN_FINDINGS\<close>,
  \<open>RETENTION_DAYS\<close> and the others) are definitions with the source's values.

  \<^bold>\<open>Limits.\<close> A \<open>str\<close> is a list of characters up to code point 255, literals above are given as their
  UTF-8 bytes, and case folding is ASCII. Retention windows are
  multiples of 24 hours. The branches of a concurrent comparison run in one serialization. The
  file system (\<open>os.path.realpath\<close>, \<open>lexists\<close>), the database server, the drivers and the GitHub
  API, the JSON codec of a marker, \<open>json.loads\<close> and the pydantic validator, \<open>sha1\<close>, \<open>sha256\<close> and
  \<open>html.unescape\<close> are parameters of the definitions
  that use them; a round trip assumes of the codec that it decodes what it encoded. Console output, durations, the HTTP
  helpers of the runner and the fixed prompt texts are not modelled.

  A POST whose answer was lost is decided by the time it is read back: the model has no request that
  is committed after the read-back that missed it.

  The agent runs on a POSIX host. \<open>os.path.realpath\<close> and Python's \<open>float\<close> are parameters; an exception
  the driver does not catch is a value of \<open>stream_error\<close>.

  \<^bold>\<open>Not modelled yet\<close>, in the order planned: the circuit breaker and the reviewer health
  (\<open>circuit_breaker.py\<close>, \<open>reviewer_health.py\<close>), the embedding provenance of \<open>db.py\<close>, and the
  knowledge base (\<open>dedup.py\<close>, \<open>chunking.py\<close>, \<open>threads.py\<close>, \<open>commands.py\<close>).
\<close>

end
